(* ===== verification/Prelude.thy ===== *)
theory Prelude
  imports Main "HOL-Library.Word" "HOL-Library.Monad_Syntax"
begin

unbundle bit_operations_syntax

section \<open>Shared vocabulary of the kernel model\<close>

text \<open>
  What every component theory uses: names for the machine integers, unsigned arithmetic
  on naturals with the wrap-around written out (for counters and table indices), checked
  access to fixed C arrays, the first-match table scan, bounded loops that may fail, and
  bits of a byte. The locale for invariants of step functions is in \<open>Machine\<close>, the one for
  fixed-width fields of memory in \<open>Memory\<close>.

  A C function that can dead-lock on its own lock or run past the end of an array has an
  \<open>option\<close> result here: \<open>None\<close> says that the call does not return normally.
\<close>

type_synonym u8 = "8 word"
type_synonym u16 = "16 word"
type_synonym u32 = "32 word"
type_synonym u64 = "64 word"
type_synonym bytes = "8 word list"

named_theorems wrap_simps "unsigned arithmetic that does not wrap in range"
named_theorems scan_simps "characterisations of table scans"
named_theorems buf_simps "reads and writes of byte buffers"

subsection \<open>Unsigned arithmetic on naturals\<close>

definition add32 :: "nat \<Rightarrow> nat \<Rightarrow> nat" where
  "add32 a b = (a + b) mod 2 ^ 32"

definition sub32 :: "nat \<Rightarrow> nat \<Rightarrow> nat" where
  "sub32 a b = (a + (2 ^ 32 - b mod 2 ^ 32)) mod 2 ^ 32"

definition add64 :: "nat \<Rightarrow> nat \<Rightarrow> nat" where
  "add64 a b = (a + b) mod 2 ^ 64"

definition sub64 :: "nat \<Rightarrow> nat \<Rightarrow> nat" where
  "sub64 a b = (a + (2 ^ 64 - b mod 2 ^ 64)) mod 2 ^ 64"

text \<open>
  The difference of two 64-bit values as a \<open>uint64_t\<close>. On values below \<open>2 ^ 64\<close> it is
  \<open>sub64\<close> (lemma \<open>diff64_sub64\<close>); without a borrow it is the difference for all numbers.
\<close>

definition diff64 :: "nat \<Rightarrow> nat \<Rightarrow> nat" where
  "diff64 a b = (if b \<le> a then a - b else a + 2 ^ 64 - b)"

abbreviation UINT32_MAX :: nat where "UINT32_MAX \<equiv> 4294967295"
abbreviation UINT64_MAX :: nat where "UINT64_MAX \<equiv> 18446744073709551615"

subsection \<open>Arrays of fixed size\<close>

definition arr_get :: "nat \<Rightarrow> (nat \<Rightarrow> 'a) \<Rightarrow> nat \<Rightarrow> 'a option" where
  "arr_get n a i = (if i < n then Some (a i) else None)"

definition arr_set :: "nat \<Rightarrow> (nat \<Rightarrow> 'a) \<Rightarrow> nat \<Rightarrow> 'a \<Rightarrow> (nat \<Rightarrow> 'a) option" where
  "arr_set n a i v = (if i < n then Some (a(i := v)) else None)"

subsection \<open>Loops whose body can fail\<close>

fun for_each :: "('a \<Rightarrow> 's \<Rightarrow> 's option) \<Rightarrow> 'a list \<Rightarrow> 's \<Rightarrow> 's option" where
  "for_each f [] s = Some s"
| "for_each f (x # xs) s = f x s \<bind> for_each f xs"

subsection \<open>Table scans\<close>

text \<open>The loop \<open>for (i = from; i < length; i++) if (P(table[i])) return i;\<close>.\<close>

fun scan_from :: "('a \<Rightarrow> bool) \<Rightarrow> nat \<Rightarrow> 'a list \<Rightarrow> nat option" where
  "scan_from P i [] = None"
| "scan_from P i (x # xs) = (if P x then Some i else scan_from P (Suc i) xs)"

definition table_scan :: "('a \<Rightarrow> bool) \<Rightarrow> nat \<Rightarrow> 'a list \<Rightarrow> nat option" where
  "table_scan P start xs = scan_from P start (drop start xs)"

lemma add32_small [wrap_simps]: "a + b < 2 ^ 32 \<Longrightarrow> add32 a b = a + b"
  by (simp add: add32_def)

lemma add64_small [wrap_simps]: "a + b < 2 ^ 64 \<Longrightarrow> add64 a b = a + b"
  by (simp add: add64_def)

lemma add32_less [simp]: "add32 a b < 2 ^ 32"
  by (simp add: add32_def)

lemma add64_less [simp]: "add64 a b < 2 ^ 64"
  by (simp add: add64_def)

lemma sub32_less [simp]: "sub32 a b < 2 ^ 32"
  by (simp add: sub32_def)

lemma sub64_less [simp]: "sub64 a b < 2 ^ 64"
  by (simp add: sub64_def)

lemma sub32_small [wrap_simps]:
  assumes "b \<le> a" and "a < 2 ^ 32"
  shows "sub32 a b = a - b"
proof -
  have "sub32 a b = (a + (2 ^ 32 - b)) mod 2 ^ 32"
    using assms by (simp add: sub32_def)
  also have "a + (2 ^ 32 - b) = (a - b) + 2 ^ 32"
    using assms by simp
  finally show ?thesis
    using assms by (simp only: mod_add_self2) simp
qed

lemma sub64_small [wrap_simps]:
  assumes "b \<le> a" and "a < 2 ^ 64"
  shows "sub64 a b = a - b"
proof -
  have "sub64 a b = (a + (2 ^ 64 - b)) mod 2 ^ 64"
    using assms by (simp add: sub64_def)
  also have "a + (2 ^ 64 - b) = (a - b) + 2 ^ 64"
    using assms by simp
  finally show ?thesis
    using assms by (simp only: mod_add_self2) simp
qed

lemma diff64_le [simp]: "b \<le> a \<Longrightarrow> diff64 a b = a - b"
  by (simp add: diff64_def)

lemma diff64_sub64: "a < 2 ^ 64 \<Longrightarrow> b < 2 ^ 64 \<Longrightarrow> diff64 a b = sub64 a b"
proof (cases "b \<le> a")
  case False
  assume "a < 2 ^ 64" and "b < 2 ^ 64"
  then have "sub64 a b = (a + 2 ^ 64 - b) mod 2 ^ 64"
    by (simp add: sub64_def)
  moreover have "a + 2 ^ 64 - b < 2 ^ 64"
    using False \<open>b < 2 ^ 64\<close> by arith
  ultimately show ?thesis
    using False by (simp add: diff64_def)
qed (simp add: sub64_small)

lemma sub32_zero_one: "sub32 0 1 = UINT32_MAX"
  by (simp add: sub32_def)

lemma arr_get_in [simp]: "i < n \<Longrightarrow> arr_get n a i = Some (a i)"
  by (simp add: arr_get_def)

lemma arr_get_out [simp]: "n \<le> i \<Longrightarrow> arr_get n a i = None"
  by (simp add: arr_get_def)

lemma arr_set_in [simp]: "i < n \<Longrightarrow> arr_set n a i v = Some (a(i := v))"
  by (simp add: arr_set_def)

lemma scan_from_None [scan_simps]: "scan_from P i xs = None \<longleftrightarrow> (\<forall>x \<in> set xs. \<not> P x)"
  by (induction xs arbitrary: i) auto

lemma scan_from_Some:
  "scan_from P i xs = Some k \<longleftrightarrow>
     i \<le> k \<and> k < i + length xs \<and> P (xs ! (k - i)) \<and> (\<forall>j < k - i. \<not> P (xs ! j))"
proof (induction xs arbitrary: i)
  case Nil
  then show ?case by simp
next
  case (Cons x xs)
  show ?case
  proof (cases "P x")
    case True
    then show ?thesis
      by (auto simp: nth_Cons')
  next
    case False
    show ?thesis
    proof (cases "i < k")
      case True
      then have "k - i = Suc (k - Suc i)"
        by simp
      then show ?thesis
        using True False Cons.IH [of "Suc i"] by (simp add: All_less_Suc2 Suc_le_eq)
    next
      case i: False
      have "\<not> Suc i \<le> k"
        using i by simp
      then show ?thesis
        using i False Cons.IH [of "Suc i"] by (auto simp: le_eq_less_or_eq)
    qed
  qed
qed

lemma table_scan_None [scan_simps]:
  "table_scan P start xs = None \<longleftrightarrow> (\<forall>k. start \<le> k \<and> k < length xs \<longrightarrow> \<not> P (xs ! k))"
proof -
  have "(\<forall>x \<in> set (drop start xs). \<not> P x) \<longleftrightarrow> (\<forall>k < length xs - start. \<not> P (xs ! (start + k)))"
    by (cases "start \<le> length xs") (auto simp: all_set_conv_all_nth)
  also have "\<dots> \<longleftrightarrow> (\<forall>k. start \<le> k \<and> k < length xs \<longrightarrow> \<not> P (xs ! k))"
    by (metis add_diff_inverse_nat diff_less_mono le_add1 not_less
        add.commute less_diff_conv)
  finally show ?thesis
    by (simp add: table_scan_def scan_from_None)
qed

lemma table_scan_Some [scan_simps]:
  "table_scan P start xs = Some k \<longleftrightarrow>
     start \<le> k \<and> k < length xs \<and> P (xs ! k) \<and> (\<forall>j. start \<le> j \<and> j < k \<longrightarrow> \<not> P (xs ! j))"
proof (cases "start \<le> k \<and> k < length xs")
  case True
  then have "(\<forall>j < k - start. \<not> P (drop start xs ! j)) \<longleftrightarrow> (\<forall>j. start \<le> j \<and> j < k \<longrightarrow> \<not> P (xs ! j))"
    by (auto simp: less_diff_conv add.commute dest!: le_Suc_ex)
  with True show ?thesis
    by (simp add: table_scan_def scan_from_Some)
next
  case False
  then show ?thesis
    by (auto simp: table_scan_def scan_from_Some)
qed

lemma Collect_fun_upd:
  "{j. P ((f(i := v)) j)} = (if P v then insert i {j. P (f j)}
     else if P (f i) then {j. P (f j)} - {i} else {j. P (f j)})"
  by auto

subsection \<open>Words that count\<close>

lemma unat_plus_one:
  fixes d :: "'a::len word"
  assumes "unat d + 1 < 2 ^ LENGTH('a)"
  shows "unat (d + 1) = unat d + 1"
  using assms by (simp add: unat_word_ariths)

lemma unat_diff_succ:
  fixes u t :: "'a::len word"
  assumes "u \<noteq> t"
  shows "unat (u - (t + 1)) = unat (u - t) - 1"
proof -
  have "u - (t + 1) = (u - t) - 1"
    by simp
  moreover have "u - t \<noteq> 0"
    using assms by simp
  ultimately show ?thesis
    by (metis unat_minus_one)
qed

lemma u32_bound: "unat (w :: u32) < 4294967296"
  using unsigned_less [of w, where 'a = nat] by simp

text \<open>The usual test for a power of two, and clearing the low bits of a word.\<close>

lemma and_pred_zero_power:
  fixes n :: nat
  assumes "n \<noteq> 0" and "n AND (n - 1) = 0"
  obtains k where "n = 2 ^ k"
proof -
  have "\<exists>k. n = 2 ^ k"
    using assms
  proof (induction n rule: less_induct)
    case (less n)
    show ?case
    proof (cases "even n")
      case True
      then obtain j where j: "n = 2 * j" "j \<noteq> 0"
        using less.prems by auto
      then have "(n - 1) div 2 = j - 1"
        by simp
      then have "j AND (j - 1) = 0"
        using less.prems(2) j and_rec [of n "n - 1"] by simp
      then obtain k where "j = 2 ^ k"
        using less.IH [of j] j by auto
      then show ?thesis
        using j by (intro exI [of _ "Suc k"]) simp
    next
      case False
      then obtain j where j: "n = 2 * j + 1"
        by (elim oddE)
      then have "j = 0"
        using less.prems(2) and_rec [of n "n - 1"] by simp
      then show ?thesis
        using j by (intro exI [of _ 0]) simp
    qed
  qed
  then show ?thesis
    using that by blast
qed

lemma and_pred_power: "(2 ^ k :: nat) AND (2 ^ k - 1) = 0"
proof -
  have "(2 ^ k :: nat) AND mask k = 0"
    by (simp flip: take_bit_eq_mask add: take_bit_eq_mod)
  then show ?thesis
    by (simp add: mask_eq_exp_minus_1)
qed

lemma unat_and_not_mask:
  fixes x :: "'a::len word"
  shows "unat (x AND NOT (mask k)) = unat x div 2 ^ k * 2 ^ k"
proof -
  have "take_bit k x + (x AND NOT (mask k)) = take_bit k x OR (x AND NOT (mask k))"
    by (rule disjunctive_add_eq_or) (rule bit_word_eqI, simp add: bit_simps)
  also have "\<dots> = x"
    by (rule bit_word_eqI) (auto simp: bit_simps)
  finally have "x AND NOT (mask k) = x - take_bit k x"
    by (simp add: algebra_simps)
  moreover have t: "unat (take_bit k x) = unat x mod 2 ^ k"
    by (rule trans [OF unsigned_take_bit_eq take_bit_eq_mod])
  moreover have "take_bit k x \<le> x"
    by (simp add: word_le_nat_alt t)
  ultimately show ?thesis
    by (simp add: unat_sub minus_mod_eq_div_mult)
qed

subsection \<open>Single bits of a byte\<close>

lemma bit_set_byte: "bit ((b :: u8) OR 2 ^ k) j \<longleftrightarrow> bit b j \<or> j = k \<and> j < 8"
  by (auto simp: bit_simps)

lemma bit_clear_byte: "bit ((b :: u8) AND NOT (2 ^ k)) j \<longleftrightarrow> bit b j \<and> j \<noteq> k"
  by (auto simp: bit_simps dest: bit_imp_le_length)

lemma bit_test_byte: "(b :: u8) AND 2 ^ k \<noteq> 0 \<longleftrightarrow> bit b k"
  by (simp add: bit_iff_and_push_bit_not_eq_0 push_bit_eq_mult)

lemma for_each_None:
  "x \<in> set xs \<Longrightarrow> (\<And>s. f x s = None) \<Longrightarrow> for_each f xs s = None"
  by (induction xs arbitrary: s) (auto split: bind_splits)

lemma for_each_append:
  "for_each f (xs @ ys) s = for_each f xs s \<bind> for_each f ys"
  by (induction xs arbitrary: s) (auto split: bind_splits)

end
