(* ===== verification/Machine.thy ===== *)
theory Machine
  imports Main
begin

section \<open>Step relations and their invariants\<close>

text \<open>
  The interface of a component that is given by its steps: start states, a step relation
  and a predicate that holds at the start and is kept by every step. What a client may use
  is that the predicate holds in every state a run can reach. The lock protocols, the
  scheduler, the network tables and the file system in memory provide it.
\<close>

locale invariant_machine =
  fixes init :: "'s \<Rightarrow> bool"
    and step :: "'s \<Rightarrow> 's \<Rightarrow> bool"
    and inv :: "'s \<Rightarrow> bool"
  assumes inv_init: "init s \<Longrightarrow> inv s"
    and inv_step: "inv s \<Longrightarrow> step s t \<Longrightarrow> inv t"
begin

lemma run_inv:
  assumes "step\<^sup>*\<^sup>* s t" and "inv s"
  shows "inv t"
  using assms by (induction rule: rtranclp_induct) (auto intro: inv_step)

lemma reachable_inv:
  assumes "init s" and "step\<^sup>*\<^sup>* s t"
  shows "inv t"
  using assms by (blast intro: run_inv inv_init)

end

end
