(* ===== verification/Sync.thy ===== *)
theory Sync
  imports Prelude Machine
begin

section \<open>Synchronisation primitives (\<open>src/core/sync.c\<close>)\<close>

text \<open>
  The atomic cells and every lock of \<open>sync.c\<close> as operations on the lock's record, and
  the spin lock, the ticket lock, the reader/writer lock and the semaphore once more as
  step relations of any number of processors that interleave at each atomic access. A
  waiting loop is a \<open>partial_function\<close> over \<open>option\<close>: with no other processor to
  change the cell it reads, a loop that waits in vain has the value \<open>None\<close>.
  Interleaving is sequentially consistent: the acquire/release annotations of the atomic
  accesses and the explicit barriers are not modelled.
\<close>

subsection \<open>Atomic cells\<close>

definition atomic_u32_load :: "u32 \<Rightarrow> u32" where
  "atomic_u32_load v = v"

definition atomic_u32_store :: "u32 \<Rightarrow> u32 \<Rightarrow> u32" where
  "atomic_u32_store v new = new"

definition atomic_u32_fetch_add :: "u32 \<Rightarrow> u32 \<Rightarrow> u32 \<times> u32" where
  "atomic_u32_fetch_add v amount = (v, v + amount)"

definition atomic_u32_compare_exchange :: "u32 \<Rightarrow> u32 \<Rightarrow> u32 \<Rightarrow> bool \<times> u32" where
  "atomic_u32_compare_exchange v expected desired =
     (if v = expected then (True, desired) else (False, v))"

definition atomic_u64_load :: "u64 \<Rightarrow> u64" where
  "atomic_u64_load v = v"

definition atomic_u64_store :: "u64 \<Rightarrow> u64 \<Rightarrow> u64" where
  "atomic_u64_store v new = new"

definition atomic_u64_fetch_add :: "u64 \<Rightarrow> u64 \<Rightarrow> u64 \<times> u64" where
  "atomic_u64_fetch_add v amount = (v, v + amount)"

definition atomic_u64_compare_exchange :: "u64 \<Rightarrow> u64 \<Rightarrow> u64 \<Rightarrow> bool \<times> u64" where
  "atomic_u64_compare_exchange v expected desired =
     (if v = expected then (True, desired) else (False, v))"

lemmas atomic_defs =
  atomic_u32_load_def atomic_u32_store_def atomic_u32_fetch_add_def
  atomic_u32_compare_exchange_def atomic_u64_load_def atomic_u64_store_def
  atomic_u64_fetch_add_def atomic_u64_compare_exchange_def

subsection \<open>Spin lock and mutex\<close>

record spinlock_t =
  sl_state :: u32

definition spinlock_init :: "spinlock_t \<Rightarrow> spinlock_t" where
  "spinlock_init lock = lock\<lparr>sl_state := atomic_u32_store (sl_state lock) 0\<rparr>"

text \<open>The inner loop of \<open>spinlock_lock\<close>: wait until the cell reads zero.\<close>

partial_function (option) spin_while_held :: "u32 \<Rightarrow> unit option" where
  "spin_while_held v = (if atomic_u32_load v \<noteq> 0 then spin_while_held v else Some ())"

partial_function (option) spinlock_lock :: "spinlock_t \<Rightarrow> spinlock_t option" where
  "spinlock_lock lock =
     (let (ok, v) = atomic_u32_compare_exchange (sl_state lock) 0 1;
          lock = lock\<lparr>sl_state := v\<rparr>
      in if ok then Some lock
         else spin_while_held (sl_state lock) \<bind> (\<lambda>_. spinlock_lock lock))"

definition spinlock_try_lock :: "spinlock_t \<Rightarrow> bool \<times> spinlock_t" where
  "spinlock_try_lock lock =
     (let (ok, v) = atomic_u32_compare_exchange (sl_state lock) 0 1
      in (ok, lock\<lparr>sl_state := v\<rparr>))"

definition spinlock_unlock :: "spinlock_t \<Rightarrow> spinlock_t" where
  "spinlock_unlock lock = lock\<lparr>sl_state := atomic_u32_store (sl_state lock) 0\<rparr>"

record mutex_t =
  mx_lock :: spinlock_t

definition mutex_init :: "mutex_t \<Rightarrow> mutex_t" where
  "mutex_init m = m\<lparr>mx_lock := spinlock_init (mx_lock m)\<rparr>"

definition mutex_lock :: "mutex_t \<Rightarrow> mutex_t option" where
  "mutex_lock m = map_option (\<lambda>l. m\<lparr>mx_lock := l\<rparr>) (spinlock_lock (mx_lock m))"

definition mutex_try_lock :: "mutex_t \<Rightarrow> bool \<times> mutex_t" where
  "mutex_try_lock m = (let (ok, l) = spinlock_try_lock (mx_lock m) in (ok, m\<lparr>mx_lock := l\<rparr>))"

definition mutex_unlock :: "mutex_t \<Rightarrow> mutex_t" where
  "mutex_unlock m = m\<lparr>mx_lock := spinlock_unlock (mx_lock m)\<rparr>"

subsection \<open>Ticket lock\<close>

record ticket_lock_t =
  tl_next :: u32
  tl_serving :: u32

definition ticket_lock_init :: "ticket_lock_t \<Rightarrow> ticket_lock_t" where
  "ticket_lock_init lock = lock\<lparr>tl_next := 0, tl_serving := 0\<rparr>"

partial_function (option) ticket_wait :: "u32 \<Rightarrow> u32 \<Rightarrow> unit option" where
  "ticket_wait serving ticket =
     (if atomic_u32_load serving \<noteq> ticket then ticket_wait serving ticket else Some ())"

definition ticket_lock_acquire :: "ticket_lock_t \<Rightarrow> ticket_lock_t option" where
  "ticket_lock_acquire lock =
     (let (ticket, n) = atomic_u32_fetch_add (tl_next lock) 1;
          lock = lock\<lparr>tl_next := n\<rparr>
      in ticket_wait (tl_serving lock) ticket \<bind> (\<lambda>_. Some lock))"

definition ticket_lock_release :: "ticket_lock_t \<Rightarrow> ticket_lock_t" where
  "ticket_lock_release lock =
     lock\<lparr>tl_serving := snd (atomic_u32_fetch_add (tl_serving lock) 1)\<rparr>"

subsection \<open>Reader/writer lock\<close>

record rwlock_t =
  rw_readers :: u32
  rw_writer :: u32

definition rwlock_init :: "rwlock_t \<Rightarrow> rwlock_t" where
  "rwlock_init lock = lock\<lparr>rw_readers := 0, rw_writer := 0\<rparr>"

partial_function (option) rwlock_read_lock :: "rwlock_t \<Rightarrow> rwlock_t option" where
  "rwlock_read_lock lock =
     spin_while_held (rw_writer lock) \<bind> (\<lambda>_.
       let lock = lock\<lparr>rw_readers := snd (atomic_u32_fetch_add (rw_readers lock) 1)\<rparr>
       in if atomic_u32_load (rw_writer lock) = 0 then Some lock
          else rwlock_read_lock
                 (lock\<lparr>rw_readers := snd (atomic_u32_fetch_add (rw_readers lock) (- 1))\<rparr>))"

definition rwlock_read_unlock :: "rwlock_t \<Rightarrow> rwlock_t" where
  "rwlock_read_unlock lock =
     lock\<lparr>rw_readers := snd (atomic_u32_fetch_add (rw_readers lock) (- 1))\<rparr>"

partial_function (option) rwlock_claim_writer :: "rwlock_t \<Rightarrow> rwlock_t option" where
  "rwlock_claim_writer lock =
     (let (ok, v) = atomic_u32_compare_exchange (rw_writer lock) 0 1;
          lock = lock\<lparr>rw_writer := v\<rparr>
      in if ok then Some lock else rwlock_claim_writer lock)"

definition rwlock_write_lock :: "rwlock_t \<Rightarrow> rwlock_t option" where
  "rwlock_write_lock lock =
     rwlock_claim_writer lock \<bind> (\<lambda>lock.
       spin_while_held (rw_readers lock) \<bind> (\<lambda>_. Some lock))"

definition rwlock_write_unlock :: "rwlock_t \<Rightarrow> rwlock_t" where
  "rwlock_write_unlock lock = lock\<lparr>rw_writer := atomic_u32_store (rw_writer lock) 0\<rparr>"

subsection \<open>Semaphore, completion and condition\<close>

record semaphore_t =
  sem_count :: u32

definition semaphore_init :: "semaphore_t \<Rightarrow> u32 \<Rightarrow> semaphore_t" where
  "semaphore_init s count = s\<lparr>sem_count := atomic_u32_store (sem_count s) count\<rparr>"

partial_function (option) semaphore_try_loop :: "u32 \<Rightarrow> semaphore_t \<Rightarrow> (bool \<times> semaphore_t) option" where
  "semaphore_try_loop count s =
     (if count = 0 then Some (False, s)
      else let (ok, v) = atomic_u32_compare_exchange (sem_count s) count (count - 1);
               s = s\<lparr>sem_count := v\<rparr>
           in if ok then Some (True, s)
              else semaphore_try_loop (atomic_u32_load (sem_count s)) s)"

definition semaphore_try_wait :: "semaphore_t \<Rightarrow> (bool \<times> semaphore_t) option" where
  "semaphore_try_wait s = semaphore_try_loop (atomic_u32_load (sem_count s)) s"

partial_function (option) semaphore_wait :: "semaphore_t \<Rightarrow> semaphore_t option" where
  "semaphore_wait s =
     semaphore_try_wait s \<bind> (\<lambda>(ok, s). if ok then Some s else semaphore_wait s)"

definition semaphore_signal :: "semaphore_t \<Rightarrow> semaphore_t" where
  "semaphore_signal s = s\<lparr>sem_count := snd (atomic_u32_fetch_add (sem_count s) 1)\<rparr>"

record completion_t =
  comp_done :: u32

definition completion_init :: "completion_t \<Rightarrow> completion_t" where
  "completion_init c = c\<lparr>comp_done := atomic_u32_store (comp_done c) 0\<rparr>"

definition completion_complete :: "completion_t \<Rightarrow> completion_t" where
  "completion_complete c = c\<lparr>comp_done := snd (atomic_u32_fetch_add (comp_done c) 1)\<rparr>"

definition completion_complete_all :: "completion_t \<Rightarrow> completion_t" where
  "completion_complete_all c = c\<lparr>comp_done := atomic_u32_store (comp_done c) (- 1)\<rparr>"

partial_function (option) completion_try_loop :: "u32 \<Rightarrow> completion_t \<Rightarrow> (bool \<times> completion_t) option" where
  "completion_try_loop d c =
     (if d = 0 then Some (False, c)
      else if d = - 1 then Some (True, c)
      else let (ok, v) = atomic_u32_compare_exchange (comp_done c) d (d - 1);
               c = c\<lparr>comp_done := v\<rparr>
           in if ok then Some (True, c)
              else completion_try_loop (atomic_u32_load (comp_done c)) c)"

definition completion_try_wait :: "completion_t \<Rightarrow> (bool \<times> completion_t) option" where
  "completion_try_wait c = completion_try_loop (atomic_u32_load (comp_done c)) c"

partial_function (option) completion_wait :: "completion_t \<Rightarrow> completion_t option" where
  "completion_wait c =
     completion_try_wait c \<bind> (\<lambda>(ok, c). if ok then Some c else completion_wait c)"

record condition_t =
  cond_sequence :: u32

definition condition_init :: "condition_t \<Rightarrow> condition_t" where
  "condition_init c = c\<lparr>cond_sequence := atomic_u32_store (cond_sequence c) 0\<rparr>"

definition condition_snapshot :: "condition_t \<Rightarrow> u32" where
  "condition_snapshot c = atomic_u32_load (cond_sequence c)"

definition condition_signal :: "condition_t \<Rightarrow> condition_t" where
  "condition_signal c = c\<lparr>cond_sequence := snd (atomic_u32_fetch_add (cond_sequence c) 1)\<rparr>"

partial_function (option) condition_wait :: "condition_t \<Rightarrow> u32 \<Rightarrow> unit option" where
  "condition_wait c snapshot =
     (if atomic_u32_load (cond_sequence c) = snapshot then condition_wait c snapshot else Some ())"

subsection \<open>Sequence lock\<close>

record seqlock_t =
  seq_sequence :: u32
  seq_writer :: spinlock_t

definition seqlock_init :: "seqlock_t \<Rightarrow> seqlock_t" where
  "seqlock_init lock =
     lock\<lparr>seq_sequence := atomic_u32_store (seq_sequence lock) 0,
          seq_writer := spinlock_init (seq_writer lock)\<rparr>"

definition seqlock_write_lock :: "seqlock_t \<Rightarrow> seqlock_t option" where
  "seqlock_write_lock lock =
     spinlock_lock (seq_writer lock) \<bind> (\<lambda>w.
       Some (lock\<lparr>seq_writer := w,
                  seq_sequence := snd (atomic_u32_fetch_add (seq_sequence lock) 1)\<rparr>))"

definition seqlock_write_unlock :: "seqlock_t \<Rightarrow> seqlock_t" where
  "seqlock_write_unlock lock =
     lock\<lparr>seq_sequence := snd (atomic_u32_fetch_add (seq_sequence lock) 1),
          seq_writer := spinlock_unlock (seq_writer lock)\<rparr>"

partial_function (option) seqlock_read_begin :: "seqlock_t \<Rightarrow> u32 option" where
  "seqlock_read_begin lock =
     (let s = atomic_u32_load (seq_sequence lock)
      in if s AND 1 \<noteq> 0 then seqlock_read_begin lock else Some s)"

definition seqlock_read_retry :: "seqlock_t \<Rightarrow> u32 \<Rightarrow> bool" where
  "seqlock_read_retry lock s \<longleftrightarrow> atomic_u32_load (seq_sequence lock) \<noteq> s"

subsection \<open>Self test\<close>

text \<open>The sequence of \<open>sync_self_test\<close>; \<open>True\<close> is its result 0.\<close>

definition sync_self_test :: "bool option" where
  "sync_self_test = do {
     let v = atomic_u32_store 0 4;
     let (r1, v) = atomic_u32_fetch_add v 3;
     let (r2, v') = atomic_u32_compare_exchange v 7 9;
     let sl = spinlock_init \<lparr>sl_state = 0\<rparr>;
     let (t1, sl) = spinlock_try_lock sl;
     let (t2, sl) = spinlock_try_lock sl;
     let mx = mutex_init \<lparr>mx_lock = spinlock_unlock sl\<rparr>;
     let (m1, mx) = mutex_try_lock mx;
     let (m2, mx) = mutex_try_lock mx;
     tk \<leftarrow> ticket_lock_acquire (ticket_lock_init \<lparr>tl_next = 0, tl_serving = 0\<rparr>);
     let tk' = ticket_lock_release tk;
     rw \<leftarrow> rwlock_read_lock (rwlock_init \<lparr>rw_readers = 0, rw_writer = 0\<rparr>);
     rw' \<leftarrow> rwlock_write_lock (rwlock_read_unlock rw);
     let (q1, v64) = atomic_u64_fetch_add (atomic_u64_store 0 8) 2;
     let (q2, _) = atomic_u64_compare_exchange v64 10 12;
     (s1, sm) \<leftarrow> semaphore_try_wait (semaphore_init \<lparr>sem_count = 0\<rparr> 1);
     (s2, sm) \<leftarrow> semaphore_try_wait sm;
     (c1, _) \<leftarrow> completion_try_wait (completion_complete (completion_init \<lparr>comp_done = 0\<rparr>));
     let cd = condition_signal (condition_init \<lparr>cond_sequence = 0\<rparr>);
     sq \<leftarrow> seqlock_write_lock (seqlock_init \<lparr>seq_sequence = 0, seq_writer = sl\<rparr>);
     sb \<leftarrow> seqlock_read_begin (seqlock_write_unlock sq);
     Some (r1 = 4 \<and> atomic_u32_load v = 7 \<and> r2 \<and> atomic_u32_load v' = 9 \<and>
       t1 \<and> \<not> t2 \<and> m1 \<and> \<not> m2 \<and> tl_serving tk = 0 \<and> tl_serving tk' = 1 \<and>
       rw_readers rw = 1 \<and> rw_writer rw' = 1 \<and> q1 = 8 \<and> atomic_u64_load v64 = 10 \<and> q2 \<and>
       s1 \<and> \<not> s2 \<and> c1 \<and> condition_snapshot cd = 1 \<and> sb = 2)
   }"

subsection \<open>The waiting loops\<close>

text \<open>
  Alone, a processor passes a waiting loop at once or never: the value \<open>None\<close> of a
  call of \<open>spinlock_lock\<close> is a lock that the caller itself holds.
\<close>

lemma spin_while_held_Some: "spin_while_held v = Some u \<Longrightarrow> v = 0"
proof -
  assume ret: "spin_while_held v = Some u"
  show "v = 0"
    by (rule spin_while_held.raw_induct [where P = "\<lambda>v _. v = 0", OF _ ret])
      (auto simp: atomic_u32_load_def split: if_splits)
qed

lemma spin_while_held_eq: "spin_while_held v = (if v = 0 then Some () else None)"
proof (cases "v = 0")
  case True
  then show ?thesis
    by (subst spin_while_held.simps) (simp add: atomic_u32_load_def)
next
  case False
  then show ?thesis
    using spin_while_held_Some by (cases "spin_while_held v") auto
qed

lemma spinlock_lock_eq [simp]:
  "spinlock_lock lock = (if sl_state lock = 0 then Some (lock\<lparr>sl_state := 1\<rparr>) else None)"
  by (subst spinlock_lock.simps)
    (simp add: atomic_u32_compare_exchange_def spin_while_held_eq)

lemma ticket_wait_Some: "ticket_wait serving ticket = Some u \<Longrightarrow> serving = ticket"
proof -
  assume ret: "ticket_wait serving ticket = Some u"
  show "serving = ticket"
    by (rule ticket_wait.raw_induct [where P = "\<lambda>v w _. v = w", OF _ ret])
      (auto simp: atomic_u32_load_def split: if_splits)
qed

lemma ticket_wait_eq: "ticket_wait serving ticket = (if serving = ticket then Some () else None)"
proof (cases "serving = ticket")
  case True
  then show ?thesis
    by (subst ticket_wait.simps) (simp add: atomic_u32_load_def)
next
  case False
  then show ?thesis
    using ticket_wait_Some by (cases "ticket_wait serving ticket") auto
qed

lemma rwlock_read_lock_eq:
  "rwlock_read_lock lock =
     (if rw_writer lock = 0 then Some (lock\<lparr>rw_readers := rw_readers lock + 1\<rparr>) else None)"
  by (subst rwlock_read_lock.simps) (simp add: atomic_defs spin_while_held_eq)

lemma rwlock_write_lock_free:
  "rw_writer lock = 0 \<Longrightarrow> rw_readers lock = 0 \<Longrightarrow>
     rwlock_write_lock lock = Some (lock\<lparr>rw_writer := 1\<rparr>)"
  unfolding rwlock_write_lock_def
  by (subst rwlock_claim_writer.simps) (simp add: atomic_defs spin_while_held_eq)

lemma semaphore_try_wait_eq:
  "semaphore_try_wait s =
     Some (if sem_count s = 0 then (False, s) else (True, s\<lparr>sem_count := sem_count s - 1\<rparr>))"
  unfolding semaphore_try_wait_def
  by (subst semaphore_try_loop.simps) (simp add: atomic_defs)

lemma completion_try_wait_eq:
  "completion_try_wait c =
     Some (if comp_done c = 0 then (False, c)
           else if comp_done c = - 1 then (True, c)
           else (True, c\<lparr>comp_done := comp_done c - 1\<rparr>))"
  unfolding completion_try_wait_def
  by (subst completion_try_loop.simps) (simp add: atomic_defs)

lemma seqlock_read_begin_even:
  "seq_sequence lock AND 1 = 0 \<Longrightarrow> seqlock_read_begin lock = Some (seq_sequence lock)"
  by (subst seqlock_read_begin.simps) (simp add: atomic_u32_load_def)

lemmas lock_eqs =
  spinlock_lock_eq ticket_wait_eq rwlock_read_lock_eq semaphore_try_wait_eq
  completion_try_wait_eq

lemma sync_self_test_passes: "sync_self_test = Some True"
  unfolding sync_self_test_def
  by (simp add: atomic_defs lock_eqs spinlock_try_lock_def spinlock_unlock_def spinlock_init_def
      mutex_init_def mutex_try_lock_def ticket_lock_init_def ticket_lock_acquire_def
      ticket_lock_release_def rwlock_init_def rwlock_read_unlock_def rwlock_write_lock_free
      semaphore_init_def completion_init_def completion_complete_def condition_signal_def
      condition_init_def condition_snapshot_def seqlock_write_lock_def seqlock_init_def
      seqlock_write_unlock_def seqlock_read_begin_even)

end
