(* ===== verification/Sync_Protocols.thy ===== *)
theory Sync_Protocols
  imports Sync
begin

section \<open>The lock protocols under interleaving (\<open>src/core/sync.c\<close>)\<close>

text \<open>
  The spin lock, the ticket lock, the reader/writer lock and the counting semaphore as
  step relations, their invariants, and what follows from them in every reachable state:
  mutual exclusion, no lost hand-over, writers apart from readers, and never more owners
  than permits.
\<close>

subsection \<open>The step relations\<close>

text \<open>
  Processors are numbered; each has a program counter inside the lock's operations, and a
  step is one atomic access of one processor. A processor that owns the lock leaves it by
  the matching unlock operation.
\<close>

datatype spin_pc = SpOut | SpCas | SpSpin | SpIn

record spin_sys =
  sp_lock :: spinlock_t
  sp_pc :: "nat \<Rightarrow> spin_pc"

definition spin_start :: "spin_sys \<Rightarrow> bool" where
  "spin_start s \<longleftrightarrow> sp_lock s = spinlock_init (sp_lock s) \<and> sp_pc s = (\<lambda>_. SpOut)"

inductive spin_step :: "spin_sys \<Rightarrow> spin_sys \<Rightarrow> bool" where
  sp_call: "sp_pc s i = SpOut \<Longrightarrow> spin_step s (s\<lparr>sp_pc := (sp_pc s)(i := SpCas)\<rparr>)"
| sp_cas: "sp_pc s i = SpCas \<Longrightarrow>
     atomic_u32_compare_exchange (sl_state (sp_lock s)) 0 1 = (ok, v) \<Longrightarrow>
     spin_step s (s\<lparr>sp_lock := (sp_lock s)\<lparr>sl_state := v\<rparr>,
                    sp_pc := (sp_pc s)(i := if ok then SpIn else SpSpin)\<rparr>)"
| sp_spin: "sp_pc s i = SpSpin \<Longrightarrow>
     spin_step s (s\<lparr>sp_pc := (sp_pc s)(i := if atomic_u32_load (sl_state (sp_lock s)) \<noteq> 0
                                        then SpSpin else SpCas)\<rparr>)"
| sp_unlock: "sp_pc s i = SpIn \<Longrightarrow>
     spin_step s (s\<lparr>sp_lock := spinlock_unlock (sp_lock s), sp_pc := (sp_pc s)(i := SpOut)\<rparr>)"

datatype ticket_pc = TkOut | TkWait u32 | TkIn u32

record ticket_sys =
  tk_lock :: ticket_lock_t
  tk_pc :: "nat \<Rightarrow> ticket_pc"

definition ticket_start :: "nat \<Rightarrow> ticket_sys \<Rightarrow> bool" where
  "ticket_start n s \<longleftrightarrow> n < 2 ^ 32 \<and> tk_lock s = ticket_lock_init (tk_lock s) \<and> tk_pc s = (\<lambda>_. TkOut)"

inductive ticket_step :: "nat \<Rightarrow> ticket_sys \<Rightarrow> ticket_sys \<Rightarrow> bool" for n :: nat where
  tk_take: "i < n \<Longrightarrow> tk_pc s i = TkOut \<Longrightarrow>
     atomic_u32_fetch_add (tl_next (tk_lock s)) 1 = (ticket, v) \<Longrightarrow>
     ticket_step n s (s\<lparr>tk_lock := (tk_lock s)\<lparr>tl_next := v\<rparr>,
                        tk_pc := (tk_pc s)(i := TkWait ticket)\<rparr>)"
| tk_wait: "i < n \<Longrightarrow> tk_pc s i = TkWait ticket \<Longrightarrow>
     ticket_step n s (s\<lparr>tk_pc := (tk_pc s)(i := if atomic_u32_load (tl_serving (tk_lock s)) \<noteq> ticket
                                              then TkWait ticket else TkIn ticket)\<rparr>)"
| tk_release: "i < n \<Longrightarrow> tk_pc s i = TkIn ticket \<Longrightarrow>
     ticket_step n s (s\<lparr>tk_lock := ticket_lock_release (tk_lock s), tk_pc := (tk_pc s)(i := TkOut)\<rparr>)"

datatype rw_pc = RwOut | RdWait | RdAdd | RdCheck | RdUndo | RdIn | WrCas | WrDrain | WrIn

record rw_sys =
  rws_lock :: rwlock_t
  rws_pc :: "nat \<Rightarrow> rw_pc"

definition rw_start :: "nat \<Rightarrow> rw_sys \<Rightarrow> bool" where
  "rw_start n s \<longleftrightarrow> n < 2 ^ 32 \<and> rws_lock s = rwlock_init (rws_lock s) \<and> rws_pc s = (\<lambda>_. RwOut)"

inductive rw_step :: "nat \<Rightarrow> rw_sys \<Rightarrow> rw_sys \<Rightarrow> bool" for n :: nat where
  rd_call: "i < n \<Longrightarrow> rws_pc s i = RwOut \<Longrightarrow>
     rw_step n s (s\<lparr>rws_pc := (rws_pc s)(i := RdWait)\<rparr>)"
| rd_wait: "i < n \<Longrightarrow> rws_pc s i = RdWait \<Longrightarrow>
     rw_step n s (s\<lparr>rws_pc := (rws_pc s)(i := if atomic_u32_load (rw_writer (rws_lock s)) \<noteq> 0
                                          then RdWait else RdAdd)\<rparr>)"
| rd_add: "i < n \<Longrightarrow> rws_pc s i = RdAdd \<Longrightarrow>
     atomic_u32_fetch_add (rw_readers (rws_lock s)) 1 = (r, v) \<Longrightarrow>
     rw_step n s (s\<lparr>rws_lock := (rws_lock s)\<lparr>rw_readers := v\<rparr>,
                    rws_pc := (rws_pc s)(i := RdCheck)\<rparr>)"
| rd_check: "i < n \<Longrightarrow> rws_pc s i = RdCheck \<Longrightarrow>
     rw_step n s (s\<lparr>rws_pc := (rws_pc s)(i := if atomic_u32_load (rw_writer (rws_lock s)) = 0
                                          then RdIn else RdUndo)\<rparr>)"
| rd_undo: "i < n \<Longrightarrow> rws_pc s i = RdUndo \<Longrightarrow>
     atomic_u32_fetch_add (rw_readers (rws_lock s)) (- 1) = (r, v) \<Longrightarrow>
     rw_step n s (s\<lparr>rws_lock := (rws_lock s)\<lparr>rw_readers := v\<rparr>,
                    rws_pc := (rws_pc s)(i := RdWait)\<rparr>)"
| rd_unlock: "i < n \<Longrightarrow> rws_pc s i = RdIn \<Longrightarrow>
     rw_step n s (s\<lparr>rws_lock := rwlock_read_unlock (rws_lock s),
                    rws_pc := (rws_pc s)(i := RwOut)\<rparr>)"
| wr_call: "i < n \<Longrightarrow> rws_pc s i = RwOut \<Longrightarrow>
     rw_step n s (s\<lparr>rws_pc := (rws_pc s)(i := WrCas)\<rparr>)"
| wr_cas: "i < n \<Longrightarrow> rws_pc s i = WrCas \<Longrightarrow>
     atomic_u32_compare_exchange (rw_writer (rws_lock s)) 0 1 = (ok, v) \<Longrightarrow>
     rw_step n s (s\<lparr>rws_lock := (rws_lock s)\<lparr>rw_writer := v\<rparr>,
                    rws_pc := (rws_pc s)(i := if ok then WrDrain else WrCas)\<rparr>)"
| wr_drain: "i < n \<Longrightarrow> rws_pc s i = WrDrain \<Longrightarrow>
     rw_step n s (s\<lparr>rws_pc := (rws_pc s)(i := if atomic_u32_load (rw_readers (rws_lock s)) \<noteq> 0
                                          then WrDrain else WrIn)\<rparr>)"
| wr_unlock: "i < n \<Longrightarrow> rws_pc s i = WrIn \<Longrightarrow>
     rw_step n s (s\<lparr>rws_lock := rwlock_write_unlock (rws_lock s),
                    rws_pc := (rws_pc s)(i := RwOut)\<rparr>)"

datatype sem_pc = SmOut | SmLoad | SmCas u32 | SmIn

record sem_sys =
  sm_sem :: semaphore_t
  sm_pc :: "nat \<Rightarrow> sem_pc"

definition sem_start :: "u32 \<Rightarrow> sem_sys \<Rightarrow> bool" where
  "sem_start k s \<longleftrightarrow> sm_sem s = semaphore_init (sm_sem s) k \<and> sm_pc s = (\<lambda>_. SmOut)"

inductive sem_step :: "sem_sys \<Rightarrow> sem_sys \<Rightarrow> bool" where
  sm_call: "sm_pc s i = SmOut \<Longrightarrow> sem_step s (s\<lparr>sm_pc := (sm_pc s)(i := SmLoad)\<rparr>)"
| sm_load: "sm_pc s i = SmLoad \<Longrightarrow> c = atomic_u32_load (sem_count (sm_sem s)) \<Longrightarrow>
     sem_step s (s\<lparr>sm_pc := (sm_pc s)(i := if c = 0 then SmLoad else SmCas c)\<rparr>)"
| sm_cas: "sm_pc s i = SmCas c \<Longrightarrow>
     atomic_u32_compare_exchange (sem_count (sm_sem s)) c (c - 1) = (ok, v) \<Longrightarrow>
     sem_step s (s\<lparr>sm_sem := (sm_sem s)\<lparr>sem_count := v\<rparr>,
                   sm_pc := (sm_pc s)(i := if ok then SmIn else SmLoad)\<rparr>)"
| sm_signal: "sm_pc s i = SmIn \<Longrightarrow>
     sem_step s (s\<lparr>sm_sem := semaphore_signal (sm_sem s), sm_pc := (sm_pc s)(i := SmOut)\<rparr>)"

subsection \<open>Spin lock\<close>

definition spin_owners :: "spin_sys \<Rightarrow> nat set" where
  "spin_owners s = {i. sp_pc s i = SpIn}"

definition spin_inv :: "spin_sys \<Rightarrow> bool" where
  "spin_inv s \<longleftrightarrow>
     sl_state (sp_lock s) = 0 \<and> spin_owners s = {} \<or>
     sl_state (sp_lock s) = 1 \<and> (\<exists>i. spin_owners s = {i})"

lemma spin_owners_upd:
  "spin_owners (s\<lparr>sp_pc := (sp_pc s)(i := c)\<rparr>) =
     (if c = SpIn then insert i (spin_owners s)
      else if sp_pc s i = SpIn then spin_owners s - {i} else spin_owners s)"
  using Collect_fun_upd [of "\<lambda>c. c = SpIn" "sp_pc s" i c] by (simp add: spin_owners_def)

lemma spin_owners_lock [simp]: "spin_owners (s\<lparr>sp_lock := l\<rparr>) = spin_owners s"
  by (simp add: spin_owners_def)

lemma spin_owners_upd_lock:
  "spin_owners (s\<lparr>sp_lock := l, sp_pc := (sp_pc s)(i := c)\<rparr>) =
     (if c = SpIn then insert i (spin_owners s)
      else if sp_pc s i = SpIn then spin_owners s - {i} else spin_owners s)"
  using spin_owners_upd [of "s\<lparr>sp_lock := l\<rparr>" i c] by simp

lemma spin_owners_iff: "i \<in> spin_owners s \<longleftrightarrow> sp_pc s i = SpIn"
  by (simp add: spin_owners_def)

lemma spin_step_inv: "spin_inv s \<Longrightarrow> spin_step s t \<Longrightarrow> spin_inv t"
  by (erule spin_step.cases)
    (auto simp: spin_inv_def spin_owners_upd spin_owners_upd_lock atomic_defs spinlock_unlock_def
      dest: spin_owners_iff [THEN iffD2] split: if_splits)

interpretation spin: invariant_machine spin_start spin_step spin_inv
proof
  show "spin_inv s" if "spin_start s" for s
  proof -
    have "sl_state (sp_lock s) = sl_state (spinlock_init (sp_lock s))"
      using that by (simp add: spin_start_def)
    then show ?thesis
      using that
      by (simp add: spin_inv_def spin_start_def spin_owners_def spinlock_init_def atomic_defs)
  qed
qed (rule spin_step_inv)

text \<open>
  C5. \<open>spinlock_lock\<close> gives mutual exclusion: however the processors interleave at their
  atomic accesses, two processors between \<open>spinlock_lock\<close> and \<open>spinlock_unlock\<close> are
  the same one, and the lock word is 1 exactly while there is an owner.
\<close>

theorem spinlock_mutual_exclusion:
  assumes "spin_start s" and "spin_step\<^sup>*\<^sup>* s t"
  shows "(\<forall>i j. sp_pc t i = SpIn \<and> sp_pc t j = SpIn \<longrightarrow> i = j) \<and>
    (sl_state (sp_lock t) = 1 \<longleftrightarrow> (\<exists>i. sp_pc t i = SpIn)) \<and>
    (sl_state (sp_lock t) = 0 \<or> sl_state (sp_lock t) = 1)"
proof -
  have "spin_inv t"
    using assms by (rule spin.reachable_inv)
  then show ?thesis
    unfolding spin_inv_def spin_owners_iff [symmetric] by auto
qed

theorem spinlock_mutual_exclusion_witness:
  "spin_start \<lparr>sp_lock = \<lparr>sl_state = 0\<rparr>, sp_pc = (\<lambda>_. SpOut)\<rparr> \<and>
   (sl_state (sp_lock \<lparr>sp_lock = \<lparr>sl_state = 1\<rparr>, sp_pc = (\<lambda>_. SpOut)(0 := SpIn)\<rparr>) = 1 \<longleftrightarrow>
    (\<exists>i. sp_pc \<lparr>sp_lock = \<lparr>sl_state = 1\<rparr>, sp_pc = (\<lambda>_. SpOut)(0 := SpIn)\<rparr> i = SpIn))"
proof -
  let ?s = "\<lparr>sp_lock = \<lparr>sl_state = 0\<rparr>, sp_pc = (\<lambda>_. SpOut)\<rparr>"
  let ?u = "\<lparr>sp_lock = \<lparr>sl_state = 0\<rparr>, sp_pc = (\<lambda>_. SpOut)(0 := SpCas)\<rparr>"
  let ?t = "\<lparr>sp_lock = \<lparr>sl_state = 1\<rparr>, sp_pc = (\<lambda>_. SpOut)(0 := SpIn)\<rparr>"
  have start: "spin_start ?s"
    by (simp add: spin_start_def spinlock_init_def atomic_defs)
  have "spin_step ?s ?u" and "spin_step ?u ?t"
    using spin_step.sp_call [of ?s 0] spin_step.sp_cas [of ?u 0 True 1]
    by (simp_all add: atomic_defs)
  then have "spin_step\<^sup>*\<^sup>* ?s ?t"
    by (meson converse_rtranclp_into_rtranclp r_into_rtranclp)
  with start show ?thesis
    using spinlock_mutual_exclusion [of ?s ?t] by blast
qed

subsection \<open>Ticket lock\<close>

fun pc_ticket :: "ticket_pc \<Rightarrow> u32 option" where
  "pc_ticket TkOut = None"
| "pc_ticket (TkWait t) = Some t"
| "pc_ticket (TkIn t) = Some t"

definition ticket_active :: "ticket_sys \<Rightarrow> nat set" where
  "ticket_active s = {i. pc_ticket (tk_pc s i) \<noteq> None}"

text \<open>How many tickets are ahead of ticket \<open>t\<close>, and how many are out.\<close>

definition ticket_ahead :: "ticket_sys \<Rightarrow> u32 \<Rightarrow> nat" where
  "ticket_ahead s t = unat (t - tl_serving (tk_lock s))"

definition ticket_out :: "ticket_sys \<Rightarrow> nat" where
  "ticket_out s = ticket_ahead s (tl_next (tk_lock s))"

definition ticket_inv :: "nat \<Rightarrow> ticket_sys \<Rightarrow> bool" where
  "ticket_inv n s \<longleftrightarrow>
     n < 2 ^ 32 \<and> ticket_active s \<subseteq> {..<n} \<and> card (ticket_active s) = ticket_out s \<and>
     (\<forall>i t. pc_ticket (tk_pc s i) = Some t \<longrightarrow> ticket_ahead s t < ticket_out s) \<and>
     (\<forall>i j t. pc_ticket (tk_pc s i) = Some t \<longrightarrow> pc_ticket (tk_pc s j) = Some t \<longrightarrow> i = j) \<and>
     (\<forall>i t. tk_pc s i = TkIn t \<longrightarrow> t = tl_serving (tk_lock s))"

lemma ticket_active_upd:
  "ticket_active (s\<lparr>tk_lock := l, tk_pc := (tk_pc s)(i := c)\<rparr>) =
     (if pc_ticket c \<noteq> None then insert i (ticket_active s)
      else if pc_ticket (tk_pc s i) \<noteq> None then ticket_active s - {i} else ticket_active s)"
  using Collect_fun_upd [of "\<lambda>c. pc_ticket c \<noteq> None" "tk_pc s" i c]
  by (simp add: ticket_active_def)

lemma ticket_inv_ahead:
  "ticket_inv n s \<Longrightarrow> pc_ticket (tk_pc s i) = Some t \<Longrightarrow> ticket_ahead s t < ticket_out s"
  unfolding ticket_inv_def by blast

lemma ticket_inv_unique:
  "ticket_inv n s \<Longrightarrow> pc_ticket (tk_pc s i) = Some t \<Longrightarrow> pc_ticket (tk_pc s j) = Some t \<Longrightarrow> i = j"
  unfolding ticket_inv_def by blast

lemma ticket_inv_serving:
  "ticket_inv n s \<Longrightarrow> tk_pc s i = TkIn t \<Longrightarrow> t = tl_serving (tk_lock s)"
  unfolding ticket_inv_def by blast

lemma ticket_inv_finite: "ticket_inv n s \<Longrightarrow> finite (ticket_active s)"
  unfolding ticket_inv_def using finite_subset by blast

lemma ticket_inv_take:
  assumes inv: "ticket_inv n s" and i: "i < n" and out: "tk_pc s i = TkOut"
  shows "ticket_inv n (s\<lparr>tk_lock := (tk_lock s)\<lparr>tl_next := tl_next (tk_lock s) + 1\<rparr>,
                         tk_pc := (tk_pc s)(i := TkWait (tl_next (tk_lock s)))\<rparr>)"
    (is "ticket_inv n ?t")
proof -
  let ?d = "tl_next (tk_lock s) - tl_serving (tk_lock s)"
  have fin: "finite (ticket_active s)"
    using inv by (rule ticket_inv_finite)
  have notin: "i \<notin> ticket_active s"
    using out by (simp add: ticket_active_def)
  then have "card (ticket_active s) < card {..<n}"
    using inv i by (intro psubset_card_mono) (auto simp: ticket_inv_def)
  then have "unat ?d + 1 < 2 ^ 32"
    using inv by (simp add: ticket_inv_def ticket_out_def ticket_ahead_def)
  then have "unat (?d + 1) = unat ?d + 1"
    by (intro unat_plus_one) simp
  then have suc: "ticket_out ?t = Suc (ticket_out s)"
    by (simp add: ticket_out_def ticket_ahead_def algebra_simps)
  have ahead: "ticket_ahead ?t = ticket_ahead s"
    by (simp add: fun_eq_iff ticket_ahead_def)
  have fresh: "pc_ticket (tk_pc s j) \<noteq> Some (tl_next (tk_lock s))" for j
    using ticket_inv_ahead [OF inv, of j] by (auto simp: ticket_out_def)
  have "card (ticket_active ?t) = Suc (ticket_out s)"
    using inv notin fin by (simp add: ticket_active_upd ticket_inv_def)
  moreover have "ticket_active ?t \<subseteq> {..<n}"
    using inv i by (auto simp: ticket_active_upd ticket_inv_def)
  moreover have "ticket_ahead s u < Suc (ticket_out s)" if "pc_ticket (tk_pc ?t j) = Some u" for j u
    using inv that by (cases "j = i") (auto simp: ticket_inv_def ticket_out_def intro: less_SucI)
  moreover have "j = k" if "pc_ticket (tk_pc ?t j) = Some u" "pc_ticket (tk_pc ?t k) = Some u" for j k u
    using inv that fresh [of j] fresh [of k]
    by (cases "j = i"; cases "k = i") (auto simp: ticket_inv_def)
  moreover have "u = tl_serving (tk_lock ?t)" if "tk_pc ?t j = TkIn u" for j u
    using inv that by (cases "j = i") (auto simp: ticket_inv_def)
  moreover have "n < 2 ^ 32"
    using inv by (simp add: ticket_inv_def)
  ultimately show ?thesis
    unfolding ticket_inv_def suc ahead by blast
qed

lemma ticket_inv_release:
  assumes inv: "ticket_inv n s" and own: "tk_pc s i = TkIn t"
  shows "ticket_inv n (s\<lparr>tk_lock := (tk_lock s)\<lparr>tl_serving := tl_serving (tk_lock s) + 1\<rparr>,
                         tk_pc := (tk_pc s)(i := TkOut)\<rparr>)"
    (is "ticket_inv n ?t")
proof -
  have t: "t = tl_serving (tk_lock s)"
    using inv own by (rule ticket_inv_serving)
  have fin: "finite (ticket_active s)"
    using inv by (rule ticket_inv_finite)
  have ahead: "ticket_ahead ?t u = ticket_ahead s u - 1" if "u \<noteq> t" for u
    using that by (simp add: ticket_ahead_def t unat_diff_succ)
  have pos: "ticket_ahead s u > 0" if "u \<noteq> t" for u
    using that by (simp add: ticket_ahead_def t unat_gt_0)
  have out_pos: "ticket_out s > 0"
    using ticket_inv_ahead [OF inv, of i t] own by simp
  then have "tl_next (tk_lock s) \<noteq> t"
    by (auto simp: ticket_out_def ticket_ahead_def t)
  then have out: "ticket_out ?t = ticket_out s - 1"
    using ahead by (simp add: ticket_out_def)
  have others: "u \<noteq> t" if "pc_ticket (tk_pc s j) = Some u" "j \<noteq> i" for j u
    using ticket_inv_unique [OF inv, of i t j] own that by auto
  have "i \<in> ticket_active s" and "card (ticket_active s) = ticket_out s"
    using inv own by (simp_all add: ticket_active_def ticket_inv_def)
  then have "card (ticket_active ?t) = ticket_out ?t"
    unfolding out using fin own by (simp add: ticket_active_upd)
  moreover have "ticket_active ?t \<subseteq> {..<n}"
    using inv by (auto simp: ticket_active_upd ticket_inv_def)
  moreover have "ticket_ahead ?t u < ticket_out ?t" if u: "pc_ticket (tk_pc ?t j) = Some u" for j u
  proof -
    have j: "j \<noteq> i" and *: "pc_ticket (tk_pc s j) = Some u"
      using u by (auto split: if_splits)
    have "ticket_ahead s u < ticket_out s"
      using inv * by (rule ticket_inv_ahead)
    then show ?thesis
      using others [OF * j] pos [of u] ahead [of u] out by simp
  qed
  moreover have "j = k" if "pc_ticket (tk_pc ?t j) = Some u" "pc_ticket (tk_pc ?t k) = Some u" for j k u
    using ticket_inv_unique [OF inv, of j u k] that by (auto split: if_splits)
  moreover have "tk_pc ?t j \<noteq> TkIn u" for j u
  proof (cases "j = i")
    case False
    then show ?thesis
      using ticket_inv_serving [OF inv, of j u] others [of j u] t by auto
  qed simp
  moreover have "n < 2 ^ 32"
    using inv by (simp add: ticket_inv_def)
  ultimately show ?thesis
    unfolding ticket_inv_def by blast
qed

lemma ticket_step_inv: "ticket_inv n s \<Longrightarrow> ticket_step n s t \<Longrightarrow> ticket_inv n t"
proof (erule ticket_step.cases, goal_cases)
  case (1 i s' ticket v)
  then show ?case
    using ticket_inv_take [of n s i] by (auto simp: atomic_defs)
next
  case (2 i s' ticket)
  have pc: "pc_ticket (tk_pc t j) = pc_ticket (tk_pc s j)" for j
    using 2 by simp
  have lk: "tk_lock t = tk_lock s"
    using 2 by simp
  have "tk_pc t j = TkIn u \<Longrightarrow> u = tl_serving (tk_lock s)" for j u
    using 2 by (cases "j = i") (auto simp: ticket_inv_def atomic_defs split: if_splits)
  then show ?case
    using 2(1) by (simp add: ticket_inv_def ticket_active_def ticket_out_def ticket_ahead_def pc lk)
next
  case (3 i s' ticket)
  then show ?case
    using ticket_inv_release [of n s i ticket] by (simp add: ticket_lock_release_def atomic_defs)
qed

interpretation ticket: invariant_machine "ticket_start n" "ticket_step n" "ticket_inv n" for n
proof
  show "ticket_inv n s" if "ticket_start n s" for s
  proof -
    from that have eq: "tk_lock s = ticket_lock_init (tk_lock s)"
      by (simp add: ticket_start_def)
    have "tl_next (tk_lock s) = 0"
      by (subst eq) (simp add: ticket_lock_init_def)
    moreover have "tl_serving (tk_lock s) = 0"
      by (subst eq) (simp add: ticket_lock_init_def)
    ultimately show ?thesis
      using that
      by (simp add: ticket_start_def ticket_inv_def ticket_active_def ticket_out_def ticket_ahead_def)
  qed
qed (rule ticket_step_inv)

lemma ticket_served_exists:
  assumes inv: "ticket_inv n s" and act: "ticket_active s \<noteq> {}"
  shows "\<exists>i. pc_ticket (tk_pc s i) = Some (tl_serving (tk_lock s))"
proof -
  let ?f = "\<lambda>i. ticket_ahead s (the (pc_ticket (tk_pc s i)))"
  have inj: "inj_on ?f (ticket_active s)"
  proof (rule inj_onI)
    fix i j
    assume "i \<in> ticket_active s" "j \<in> ticket_active s" and eq: "?f i = ?f j"
    then obtain t u where t: "pc_ticket (tk_pc s i) = Some t" and u: "pc_ticket (tk_pc s j) = Some u"
      by (auto simp: ticket_active_def)
    with eq have "t - tl_serving (tk_lock s) = u - tl_serving (tk_lock s)"
      by (simp add: ticket_ahead_def word_unat_eq_iff)
    then have "t = u"
      by simp
    with t u show "i = j"
      using ticket_inv_unique [OF inv] by blast
  qed
  have "?f ` ticket_active s \<subseteq> {..<ticket_out s}"
    using ticket_inv_ahead [OF inv] by (auto simp: ticket_active_def)
  moreover have "card (?f ` ticket_active s) = ticket_out s"
    using inv card_image [OF inj] by (simp add: ticket_inv_def)
  ultimately have img: "?f ` ticket_active s = {..<ticket_out s}"
    by (simp add: card_subset_eq)
  have "0 < ticket_out s"
    using img act by auto
  then have "0 \<in> ?f ` ticket_active s"
    unfolding img by simp
  then obtain i where i: "i \<in> ticket_active s" and f0: "0 = ?f i"
    by (rule imageE)
  from i obtain t where t: "pc_ticket (tk_pc s i) = Some t"
    by (auto simp: ticket_active_def)
  with f0 have "t = tl_serving (tk_lock s)"
    by (simp add: ticket_ahead_def unat_eq_0)
  with t show ?thesis
    by blast
qed

text \<open>
  C6. The ticket lock gives mutual exclusion and never loses a hand-over, although both
  counters are 32-bit and wrap: with fewer than \<open>2\<^sup>3\<^sup>2\<close> processors, in every reachable
  state at most one processor is inside, and whenever some processor has drawn a ticket, one
  of them holds the ticket being served, so it is inside or its wait is over.
\<close>

theorem ticket_lock_exclusive_and_live:
  assumes "ticket_start n s" and "(ticket_step n)\<^sup>*\<^sup>* s t"
  shows "(\<forall>i j u v. tk_pc t i = TkIn u \<and> tk_pc t j = TkIn v \<longrightarrow> i = j) \<and>
    ((\<exists>i. tk_pc t i \<noteq> TkOut) \<longrightarrow>
      (\<exists>i. tk_pc t i = TkIn (tl_serving (tk_lock t)) \<or> tk_pc t i = TkWait (tl_serving (tk_lock t))))"
proof -
  have inv: "ticket_inv n t"
    using assms by (rule ticket.reachable_inv)
  have "i = j" if "tk_pc t i = TkIn u" "tk_pc t j = TkIn v" for i j u v
    using ticket_inv_unique [OF inv, of i u j] ticket_inv_serving [OF inv] that by auto
  moreover have "\<exists>i. tk_pc t i = TkIn (tl_serving (tk_lock t)) \<or> tk_pc t i = TkWait (tl_serving (tk_lock t))"
    if i: "tk_pc t i \<noteq> TkOut" for i
  proof -
    have "i \<in> ticket_active t"
      using i by (cases "tk_pc t i") (auto simp: ticket_active_def)
    then obtain k where "pc_ticket (tk_pc t k) = Some (tl_serving (tk_lock t))"
      using ticket_served_exists [OF inv] by blast
    then show ?thesis
      by (cases "tk_pc t k") auto
  qed
  ultimately show ?thesis
    by blast
qed

theorem ticket_lock_exclusive_and_live_witness:
  "ticket_start 1 \<lparr>tk_lock = \<lparr>tl_next = 0, tl_serving = 0\<rparr>, tk_pc = (\<lambda>_. TkOut)\<rparr> \<and>
   (\<exists>i. ((\<lambda>_. TkOut)(0 := TkWait 0)) i = TkIn 0 \<or> ((\<lambda>_. TkOut)(0 := TkWait 0)) i = TkWait 0)"
proof -
  let ?s = "\<lparr>tk_lock = \<lparr>tl_next = 0, tl_serving = 0\<rparr>, tk_pc = (\<lambda>_. TkOut)\<rparr>"
  let ?t = "\<lparr>tk_lock = \<lparr>tl_next = 1, tl_serving = 0\<rparr>, tk_pc = (\<lambda>_. TkOut)(0 := TkWait 0)\<rparr>"
  have start: "ticket_start 1 ?s"
    by (simp add: ticket_start_def ticket_lock_init_def)
  have "ticket_step 1 ?s ?t"
    using ticket_step.tk_take [of 0 1 ?s 0 1] by (simp add: atomic_defs)
  then have "(ticket_step 1)\<^sup>*\<^sup>* ?s ?t"
    by (rule r_into_rtranclp)
  moreover have "\<exists>i. tk_pc ?t i \<noteq> TkOut"
    by (rule exI [of _ 0]) simp
  ultimately show ?thesis
    using start ticket_lock_exclusive_and_live [of 1 ?s ?t] by simp
qed

subsection \<open>Reader/writer lock\<close>

definition rw_counted :: "rw_sys \<Rightarrow> nat set" where
  "rw_counted s = {i. rws_pc s i \<in> {RdCheck, RdUndo, RdIn}}"

definition rw_claimed :: "rw_sys \<Rightarrow> nat set" where
  "rw_claimed s = {i. rws_pc s i \<in> {WrDrain, WrIn}}"

definition rw_inv :: "nat \<Rightarrow> rw_sys \<Rightarrow> bool" where
  "rw_inv n s \<longleftrightarrow>
     n < 2 ^ 32 \<and> rw_counted s \<subseteq> {..<n} \<and> unat (rw_readers (rws_lock s)) = card (rw_counted s) \<and>
     (rw_writer (rws_lock s) = 0 \<and> rw_claimed s = {} \<or>
      rw_writer (rws_lock s) = 1 \<and> (\<exists>i. rw_claimed s = {i})) \<and>
     (\<forall>i j. rws_pc s i = WrIn \<longrightarrow> rws_pc s j \<noteq> RdIn)"

lemma rw_counted_upd:
  "rw_counted (s\<lparr>rws_pc := (rws_pc s)(i := c)\<rparr>) =
     (if c \<in> {RdCheck, RdUndo, RdIn} then insert i (rw_counted s)
      else if rws_pc s i \<in> {RdCheck, RdUndo, RdIn} then rw_counted s - {i} else rw_counted s)"
  using Collect_fun_upd [of "\<lambda>c. c \<in> {RdCheck, RdUndo, RdIn}" "rws_pc s" i c]
  by (simp add: rw_counted_def)

lemma rw_claimed_upd:
  "rw_claimed (s\<lparr>rws_pc := (rws_pc s)(i := c)\<rparr>) =
     (if c \<in> {WrDrain, WrIn} then insert i (rw_claimed s)
      else if rws_pc s i \<in> {WrDrain, WrIn} then rw_claimed s - {i} else rw_claimed s)"
  using Collect_fun_upd [of "\<lambda>c. c \<in> {WrDrain, WrIn}" "rws_pc s" i c]
  by (simp add: rw_claimed_def)

lemma rw_sets_lock [simp]:
  "rw_counted (s\<lparr>rws_lock := l, rws_pc := p\<rparr>) = rw_counted (s\<lparr>rws_pc := p\<rparr>)"
  "rw_claimed (s\<lparr>rws_lock := l, rws_pc := p\<rparr>) = rw_claimed (s\<lparr>rws_pc := p\<rparr>)"
  by (simp_all add: rw_counted_def rw_claimed_def)

lemma rw_inv_finite: "rw_inv n s \<Longrightarrow> finite (rw_counted s)"
  unfolding rw_inv_def using finite_subset by blast

lemma rw_counted_mem: "rws_pc s i \<in> {RdCheck, RdUndo, RdIn} \<Longrightarrow> i \<in> rw_counted s"
  by (simp add: rw_counted_def)

lemma rw_claimed_mem: "rws_pc s i \<in> {WrDrain, WrIn} \<Longrightarrow> i \<in> rw_claimed s"
  by (simp add: rw_claimed_def)

lemma rw_reader_added:
  assumes inv: "rw_inv n s" and i: "i < n" "rws_pc s i = RdAdd"
  shows "unat (rw_readers (rws_lock s) + 1) = card (insert i (rw_counted s))"
proof -
  have notin: "i \<notin> rw_counted s"
    using i by (simp add: rw_counted_def)
  have "card (rw_counted s) < card {..<n}"
    using inv i notin by (intro psubset_card_mono) (auto simp: rw_inv_def)
  then have "unat (rw_readers (rws_lock s)) + 1 < 2 ^ 32"
    using inv by (simp add: rw_inv_def)
  then have "unat (rw_readers (rws_lock s) + 1) = unat (rw_readers (rws_lock s)) + 1"
    by (intro unat_plus_one) simp
  then show ?thesis
    using inv notin rw_inv_finite [OF inv] by (simp add: rw_inv_def)
qed

lemma rw_reader_removed:
  assumes inv: "rw_inv n s" and i: "rws_pc s i \<in> {RdCheck, RdUndo, RdIn}"
  shows "unat (rw_readers (rws_lock s) - 1) = card (rw_counted s - {i})"
proof -
  have mem: "i \<in> rw_counted s"
    using i by (rule rw_counted_mem)
  have cnt: "unat (rw_readers (rws_lock s)) = card (rw_counted s)"
    using inv by (simp add: rw_inv_def)
  moreover have "card (rw_counted s) \<noteq> 0"
    using mem rw_inv_finite [OF inv] by auto
  ultimately have "rw_readers (rws_lock s) \<noteq> 0"
    by auto
  then show ?thesis
    using cnt mem rw_inv_finite [OF inv] by (simp add: unat_minus_one)
qed

lemma rw_step_inv: "rw_inv n s \<Longrightarrow> rw_step n s t \<Longrightarrow> rw_inv n t"
proof (erule rw_step.cases, goal_cases)
  case (3 i s' r v)
  then show ?case
    using rw_reader_added [of n s i]
    by (auto simp: rw_inv_def rw_counted_upd rw_claimed_upd atomic_defs)
next
  case (5 i s' r v)
  then show ?case
    using rw_reader_removed [of n s i]
    by (auto simp: rw_inv_def rw_counted_upd rw_claimed_upd atomic_defs)
next
  case (6 i s')
  then show ?case
    using rw_reader_removed [of n s i]
    by (auto simp: rw_inv_def rw_counted_upd rw_claimed_upd rwlock_read_unlock_def atomic_defs)
next
  case (4 i s')
  then have mem: "i \<in> rw_counted s"
    by (simp add: rw_counted_def)
  have "rws_pc s j \<noteq> WrIn" if "rw_writer (rws_lock s) = 0" for j
    using that 4(1) rw_claimed_mem [of s j] by (auto simp: rw_inv_def)
  then show ?case
    using 4 mem by (auto simp: rw_inv_def rw_counted_upd rw_claimed_upd atomic_defs insert_absorb)
next
  case (9 i s')
  then have mem: "i \<in> rw_claimed s"
    by (simp add: rw_claimed_def)
  have "rws_pc s j \<noteq> RdIn" if "rw_readers (rws_lock s) = 0" for j
    using that 9(1) rw_counted_mem [of s j] rw_inv_finite [OF 9(1)] by (auto simp: rw_inv_def)
  then show ?case
    using 9 mem by (auto simp: rw_inv_def rw_counted_upd rw_claimed_upd atomic_defs insert_absorb)
next
  case (10 i s')
  then have "rw_claimed s = {i}"
    using rw_claimed_mem [of s i] by (auto simp: rw_inv_def)
  then show ?case
    using 10 by (auto simp: rw_inv_def rw_counted_upd rw_claimed_upd rwlock_write_unlock_def atomic_defs)
qed (auto simp: rw_inv_def rw_counted_upd rw_claimed_upd atomic_defs split: if_splits)

interpretation rw: invariant_machine "rw_start n" "rw_step n" "rw_inv n" for n
proof
  show "rw_inv n s" if "rw_start n s" for s
  proof -
    from that have eq: "rws_lock s = rwlock_init (rws_lock s)"
      by (simp add: rw_start_def)
    have "rw_readers (rws_lock s) = 0"
      by (subst eq) (simp add: rwlock_init_def)
    moreover have "rw_writer (rws_lock s) = 0"
      by (subst eq) (simp add: rwlock_init_def)
    ultimately show ?thesis
      using that by (simp add: rw_start_def rw_inv_def rw_counted_def rw_claimed_def)
  qed
qed (rule rw_step_inv)

text \<open>
  C7. The reader/writer lock keeps a writer alone: in every reachable state of fewer than
  \<open>2\<^sup>3\<^sup>2\<close> processors, a processor that holds the write lock excludes every other writer and
  every reader, although a reader registers itself before it re-checks the writer word.
\<close>

theorem rwlock_writer_alone:
  assumes "rw_start n s" and "(rw_step n)\<^sup>*\<^sup>* s t" and "rws_pc t i = WrIn"
  shows "(\<forall>j. rws_pc t j \<noteq> RdIn) \<and> (\<forall>j. rws_pc t j = WrIn \<longrightarrow> j = i)"
proof -
  have inv: "rw_inv n t"
    using assms(1,2) by (rule rw.reachable_inv)
  have "j = i" if "rws_pc t j = WrIn" for j
    using inv rw_claimed_mem [of t i] rw_claimed_mem [of t j] assms(3) that
    by (auto simp: rw_inv_def)
  then show ?thesis
    using inv assms(3) by (auto simp: rw_inv_def)
qed

theorem rwlock_writer_alone_witness:
  "rw_start 1 \<lparr>rws_lock = \<lparr>rw_readers = 0, rw_writer = 0\<rparr>, rws_pc = (\<lambda>_. RwOut)\<rparr> \<and>
   (\<forall>j. ((\<lambda>_. RwOut)(0 := WrIn)) j \<noteq> RdIn)"
proof -
  let ?l = "\<lparr>rw_readers = 0, rw_writer = 0\<rparr>" and ?m = "\<lparr>rw_readers = 0, rw_writer = 1\<rparr>"
  let ?s = "\<lparr>rws_lock = ?l, rws_pc = (\<lambda>_. RwOut)\<rparr>"
  let ?u = "\<lparr>rws_lock = ?l, rws_pc = (\<lambda>_. RwOut)(0 := WrCas)\<rparr>"
  let ?v = "\<lparr>rws_lock = ?m, rws_pc = (\<lambda>_. RwOut)(0 := WrDrain)\<rparr>"
  let ?t = "\<lparr>rws_lock = ?m, rws_pc = (\<lambda>_. RwOut)(0 := WrIn)\<rparr>"
  have start: "rw_start 1 ?s"
    by (simp add: rw_start_def rwlock_init_def)
  have "rw_step 1 ?s ?u" and "rw_step 1 ?u ?v" and "rw_step 1 ?v ?t"
    using rw_step.wr_call [of 0 1 ?s] rw_step.wr_cas [of 0 1 ?u True 1] rw_step.wr_drain [of 0 1 ?v]
    by (simp_all add: atomic_defs)
  then have "(rw_step 1)\<^sup>*\<^sup>* ?s ?t"
    by (meson converse_rtranclp_into_rtranclp r_into_rtranclp)
  with start show ?thesis
    using rwlock_writer_alone [of 1 ?s ?t 0] by simp
qed

subsection \<open>Semaphore\<close>

definition sem_owners :: "sem_sys \<Rightarrow> nat set" where
  "sem_owners s = {i. sm_pc s i = SmIn}"

definition sem_inv :: "u32 \<Rightarrow> sem_sys \<Rightarrow> bool" where
  "sem_inv k s \<longleftrightarrow> finite (sem_owners s) \<and>
     unat (sem_count (sm_sem s)) + card (sem_owners s) = unat k \<and>
     (\<forall>i c. sm_pc s i = SmCas c \<longrightarrow> c \<noteq> 0)"

lemma sem_owners_upd:
  "sem_owners (s\<lparr>sm_pc := (sm_pc s)(i := c)\<rparr>) =
     (if c = SmIn then insert i (sem_owners s)
      else if sm_pc s i = SmIn then sem_owners s - {i} else sem_owners s)"
  using Collect_fun_upd [of "\<lambda>c. c = SmIn" "sm_pc s" i c] by (simp add: sem_owners_def)

lemma sem_owners_sem [simp]:
  "sem_owners (s\<lparr>sm_sem := l, sm_pc := p\<rparr>) = sem_owners (s\<lparr>sm_pc := p\<rparr>)"
  by (simp add: sem_owners_def)

lemma sem_step_inv: "sem_inv k s \<Longrightarrow> sem_step s t \<Longrightarrow> sem_inv k t"
proof (erule sem_step.cases, goal_cases)
  case (3 s' i c ok v)
  have notin: "i \<notin> sem_owners s" and c: "c \<noteq> 0"
    using 3 by (auto simp: sem_owners_def sem_inv_def)
  have "unat (c - 1) = unat c - 1" and "0 < unat c"
    using c by (simp_all add: unat_minus_one unat_gt_0)
  then show ?case
    using 3 notin by (auto simp: sem_inv_def sem_owners_upd atomic_defs split: if_splits)
next
  case (4 s' i)
  have mem: "i \<in> sem_owners s"
    using 4 by (simp add: sem_owners_def)
  have "0 < card (sem_owners s)"
    using 4(1) mem by (auto simp: sem_inv_def card_gt_0_iff)
  then have "unat (sem_count (sm_sem s)) + 1 \<le> unat k"
    using 4(1) by (simp add: sem_inv_def)
  then have "unat (sem_count (sm_sem s) + 1) = unat (sem_count (sm_sem s)) + 1"
    by (intro unat_plus_one) (use u32_bound [of k] in simp)
  then show ?case
    using 4 mem \<open>0 < card (sem_owners s)\<close>
    by (auto simp: sem_inv_def sem_owners_upd semaphore_signal_def atomic_defs split: if_splits)
qed (auto simp: sem_inv_def sem_owners_upd atomic_defs split: if_splits)

interpretation sem: invariant_machine "sem_start k" sem_step "sem_inv k" for k
proof
  show "sem_inv k s" if "sem_start k s" for s
  proof -
    from that have eq: "sm_sem s = semaphore_init (sm_sem s) k"
      by (simp add: sem_start_def)
    have "sem_count (sm_sem s) = k"
      by (subst eq) (simp add: semaphore_init_def atomic_defs)
    then show ?thesis
      using that by (simp add: sem_start_def sem_inv_def sem_owners_def)
  qed
qed (rule sem_step_inv)

text \<open>
  A semaphore initialised with \<open>k\<close> permits never has more than \<open>k\<close> owners, and no
  permit is lost: in every reachable state the count and the owners add up to \<open>k\<close>.
\<close>

theorem semaphore_permits:
  assumes "sem_start k s" and "sem_step\<^sup>*\<^sup>* s t"
  shows "unat (sem_count (sm_sem t)) + card {i. sm_pc t i = SmIn} = unat k \<and>
    card {i. sm_pc t i = SmIn} \<le> unat k"
proof -
  have "sem_inv k t"
    using assms by (rule sem.reachable_inv)
  then show ?thesis
    by (simp add: sem_inv_def sem_owners_def)
qed

end
