(* ===== verification/Pmm.thy ===== *)
theory Pmm
  imports Sync
begin

section \<open>Physical page allocator (\<open>src/memory/pmm.c\<close>)\<close>

text \<open>
  The static variables of \<open>pmm.c\<close> are the record \<open>pmm\<close>; the 32-bit and 64-bit counters
  are naturals with the wrap-around of their width written out, and the bitmap is an array
  of \<open>PMM_BITMAP_BYTES\<close> bytes whose every access is checked: a call that would touch a
  byte behind the bitmap, or wait for a lock it holds, has the value \<open>None\<close>.
\<close>

abbreviation PAGE_SIZE :: nat where "PAGE_SIZE \<equiv> 4096"
abbreviation PMM_MAX_PAGES :: nat where "PMM_MAX_PAGES \<equiv> 1048576"
abbreviation PMM_BITMAP_BYTES :: nat where "PMM_BITMAP_BYTES \<equiv> 131072"

record pmm =
  page_bitmap :: "nat \<Rightarrow> u8"
  managed_pages :: nat
  reserved_pages :: nat
  used_pages :: nat
  allocation_requests :: nat
  free_requests :: nat
  failed_allocations :: nat
  peak_used_pages :: nat
  pmm_lock :: spinlock_t

definition page_set :: "nat \<Rightarrow> pmm \<Rightarrow> pmm option" where
  "page_set page s = do {
     b \<leftarrow> arr_get PMM_BITMAP_BYTES (page_bitmap s) (page div 8);
     m \<leftarrow> arr_set PMM_BITMAP_BYTES (page_bitmap s) (page div 8) (b OR push_bit (page mod 8) 1);
     Some (s\<lparr>page_bitmap := m\<rparr>)
   }"

definition page_clear :: "nat \<Rightarrow> pmm \<Rightarrow> pmm option" where
  "page_clear page s = do {
     b \<leftarrow> arr_get PMM_BITMAP_BYTES (page_bitmap s) (page div 8);
     m \<leftarrow> arr_set PMM_BITMAP_BYTES (page_bitmap s) (page div 8) (b AND NOT (push_bit (page mod 8) 1));
     Some (s\<lparr>page_bitmap := m\<rparr>)
   }"

definition page_used :: "nat \<Rightarrow> pmm \<Rightarrow> u8 option" where
  "page_used page s = do {
     b \<leftarrow> arr_get PMM_BITMAP_BYTES (page_bitmap s) (page div 8);
     Some (b AND push_bit (page mod 8) 1)
   }"

definition pmm_init_limit :: "nat \<Rightarrow> nat \<Rightarrow> nat \<Rightarrow> pmm \<Rightarrow> pmm option" where
  "pmm_init_limit memory_kib kernel_end mapped_limit s =
     (let total = (memory_kib * 1024) mod 2 ^ 64;
          mapped = (if mapped_limit = 0 \<or> mapped_limit > 0x100000000 then 0x40000000 else mapped_limit);
          total = (if total > mapped then mapped else total);
          managed = (total div PAGE_SIZE) mod 2 ^ 32;
          managed = (if managed > PMM_MAX_PAGES then PMM_MAX_PAGES else managed);
          reserved = (add64 kernel_end (PAGE_SIZE - 1) div PAGE_SIZE) mod 2 ^ 32;
          reserved = (if reserved > managed then managed else reserved);
          s = s\<lparr>pmm_lock := spinlock_init (pmm_lock s), managed_pages := managed,
                reserved_pages := reserved,
                page_bitmap := (\<lambda>i. if i < PMM_BITMAP_BYTES then 0xFF else page_bitmap s i)\<rparr>
      in do {
        s \<leftarrow> for_each page_clear [reserved ..< managed] s;
        Some (s\<lparr>used_pages := reserved, allocation_requests := 0, free_requests := 0,
                failed_allocations := 0, peak_used_pages := reserved\<rparr>)
      })"

definition pmm_init :: "nat \<Rightarrow> nat \<Rightarrow> pmm \<Rightarrow> pmm option" where
  "pmm_init memory_kib kernel_end s = pmm_init_limit memory_kib kernel_end 0x40000000 s"

text \<open>
  The inner loop of \<open>pmm_alloc_pages\<close> returns the number \<open>found\<close> of free pages from
  \<open>start\<close> on; the outer loop moves \<open>start\<close> past the used page the inner loop met.
\<close>

partial_function (option) alloc_probe :: "pmm \<Rightarrow> nat \<Rightarrow> nat \<Rightarrow> nat \<Rightarrow> nat option" where
  "alloc_probe s start count page =
     (if page < count
      then page_used (add32 start page) s \<bind> (\<lambda>u.
             if u \<noteq> 0 then Some page else alloc_probe s start count (page + 1))
      else Some page)"

partial_function (option) alloc_search :: "pmm \<Rightarrow> nat \<Rightarrow> nat \<Rightarrow> nat option option" where
  "alloc_search s count start =
     (if add32 start count \<le> managed_pages s
      then alloc_probe s start count 0 \<bind> (\<lambda>found.
             if found = count then Some (Some start)
             else alloc_search s count (add32 (add32 start found) 1))
      else Some None)"

definition pmm_alloc_pages :: "nat \<Rightarrow> pmm \<Rightarrow> (nat \<times> pmm) option" where
  "pmm_alloc_pages count s = do {
     lock \<leftarrow> spinlock_lock (pmm_lock s);
     let s = s\<lparr>pmm_lock := lock, allocation_requests := add64 (allocation_requests s) 1\<rparr>;
     if count = 0 \<or> count > managed_pages s then
       Some (0, s\<lparr>failed_allocations := add64 (failed_allocations s) 1,
                  pmm_lock := spinlock_unlock (pmm_lock s)\<rparr>)
     else do {
       hit \<leftarrow> alloc_search s count (reserved_pages s);
       case hit of
         Some start \<Rightarrow> do {
           s \<leftarrow> for_each (\<lambda>page. page_set (add32 start page)) [0 ..< count] s;
           let s = s\<lparr>used_pages := add32 (used_pages s) count\<rparr>;
           let s = (if used_pages s > peak_used_pages s
                    then s\<lparr>peak_used_pages := used_pages s\<rparr> else s);
           Some (start * PAGE_SIZE, s\<lparr>pmm_lock := spinlock_unlock (pmm_lock s)\<rparr>)
         }
       | None \<Rightarrow> Some (0, s\<lparr>failed_allocations := add64 (failed_allocations s) 1,
                            pmm_lock := spinlock_unlock (pmm_lock s)\<rparr>)
     }
   }"

definition free_page :: "nat \<Rightarrow> pmm \<Rightarrow> pmm option" where
  "free_page page s = do {
     u \<leftarrow> page_used page s;
     if u \<noteq> 0 then do {
       s \<leftarrow> page_clear page s;
       Some (s\<lparr>used_pages := sub32 (used_pages s) 1\<rparr>)
     } else Some s
   }"

definition pmm_free_pages :: "nat \<Rightarrow> nat \<Rightarrow> pmm \<Rightarrow> pmm option" where
  "pmm_free_pages address count s = do {
     let start = (address div PAGE_SIZE) mod 2 ^ 32;
     lock \<leftarrow> spinlock_lock (pmm_lock s);
     let s = s\<lparr>pmm_lock := lock, free_requests := add64 (free_requests s) 1\<rparr>;
     if count = 0 \<or> address mod PAGE_SIZE \<noteq> 0 \<or> start < reserved_pages s \<or>
        add32 start count > managed_pages s
     then Some (s\<lparr>pmm_lock := spinlock_unlock (pmm_lock s)\<rparr>)
     else do {
       s \<leftarrow> for_each (\<lambda>page. free_page (add32 start page)) [0 ..< count] s;
       Some (s\<lparr>pmm_lock := spinlock_unlock (pmm_lock s)\<rparr>)
     }
   }"

record pmm_stats_t =
  st_total_pages :: nat
  st_used_pages :: nat
  st_free_pages :: nat
  st_reserved_pages :: nat
  st_allocation_requests :: nat
  st_free_requests :: nat
  st_failed_allocations :: nat
  st_peak_used_pages :: nat

definition pmm_get_stats :: "pmm \<Rightarrow> (pmm_stats_t \<times> pmm) option" where
  "pmm_get_stats s = do {
     lock \<leftarrow> spinlock_lock (pmm_lock s);
     let s = s\<lparr>pmm_lock := lock\<rparr>;
     let stats = \<lparr>st_total_pages = managed_pages s, st_used_pages = used_pages s,
       st_free_pages = sub32 (managed_pages s) (used_pages s),
       st_reserved_pages = reserved_pages s,
       st_allocation_requests = allocation_requests s, st_free_requests = free_requests s,
       st_failed_allocations = failed_allocations s, st_peak_used_pages = peak_used_pages s\<rparr>;
     Some (stats, s\<lparr>pmm_lock := spinlock_unlock (pmm_lock s)\<rparr>)
   }"

text \<open>
  The self test writes through the address it gets, so it also takes the identity-mapped
  physical memory.
\<close>

definition pmm_self_test :: "pmm \<Rightarrow> (nat \<Rightarrow> u8) \<Rightarrow> (int \<times> pmm \<times> (nat \<Rightarrow> u8)) option" where
  "pmm_self_test s mem = do {
     (before, s) \<leftarrow> pmm_get_stats s;
     (pages, s) \<leftarrow> pmm_alloc_pages 3 s;
     if pages = 0 \<or> pages mod PAGE_SIZE \<noteq> 0 then Some (-1, s, mem)
     else do {
       (during, s) \<leftarrow> pmm_get_stats s;
       let mem = mem(pages := 0x4D, pages + (PAGE_SIZE - 1) := 0x56, pages + PAGE_SIZE := 0x48,
                     pages + (PAGE_SIZE * 3 - 1) := 0x11);
       if mem pages \<noteq> 0x4D \<or> mem (pages + (PAGE_SIZE - 1)) \<noteq> 0x56 \<or> mem (pages + PAGE_SIZE) \<noteq> 0x48 \<or>
          mem (pages + (PAGE_SIZE * 3 - 1)) \<noteq> 0x11 \<or>
          st_used_pages during \<noteq> add64 (st_used_pages before) 3
       then do {
         s \<leftarrow> pmm_free_pages pages 3 s;
         Some (-1, s, mem)
       } else do {
         s \<leftarrow> pmm_free_pages pages 3 s;
         (after, s) \<leftarrow> pmm_get_stats s;
         Some (if st_used_pages after = st_used_pages before \<and> st_free_pages after = st_free_pages before
               then 0 else -1, s, mem)
       }
     }
   }"

subsection \<open>The set of used pages\<close>

definition page_is_used :: "pmm \<Rightarrow> nat \<Rightarrow> bool" where
  "page_is_used s p \<longleftrightarrow> bit (page_bitmap s (p div 8)) (p mod 8)"

definition used_set :: "pmm \<Rightarrow> nat set" where
  "used_set s = {p. p < PMM_MAX_PAGES \<and> page_is_used s p}"

definition pmm_region :: "pmm \<Rightarrow> nat set" where
  "pmm_region s = {reserved_pages s ..< managed_pages s}"

text \<open>
  The invariant: the lock is free, no page outside the managed dynamic region is ever
  marked free, and \<open>used_pages\<close> counts the managed pages that are in use.
\<close>

definition pmm_core :: "pmm \<Rightarrow> bool" where
  "pmm_core s \<longleftrightarrow>
     reserved_pages s \<le> managed_pages s \<and>
     managed_pages s \<le> PMM_MAX_PAGES \<and> {..<PMM_MAX_PAGES} - pmm_region s \<subseteq> used_set s \<and>
     used_pages s = card (used_set s \<inter> {..<managed_pages s}) \<and> used_pages s \<le> peak_used_pages s"

definition pmm_inv :: "pmm \<Rightarrow> bool" where
  "pmm_inv s \<longleftrightarrow> sl_state (pmm_lock s) = 0 \<and> pmm_core s"

lemmas pmm_inv_defs = pmm_inv_def pmm_core_def

lemma page_index_inj: "p div 8 = q div 8 \<Longrightarrow> p mod 8 = q mod 8 \<Longrightarrow> p = (q :: nat)"
  by (metis div_mult_mod_eq)

lemma page_used_eq [simp]:
  "p < PMM_MAX_PAGES \<Longrightarrow> page_used p s = Some (page_bitmap s (p div 8) AND 2 ^ (p mod 8))"
  by (simp add: page_used_def)

lemma page_mask_iff: "page_bitmap s (p div 8) AND 2 ^ (p mod 8) \<noteq> 0 \<longleftrightarrow> page_is_used s p"
  by (simp only: bit_test_byte page_is_used_def)

lemma page_used_None: "PMM_MAX_PAGES \<le> p \<Longrightarrow> page_used p s = None"
  by (simp add: page_used_def)

lemma page_set_ok:
  assumes "p < PMM_MAX_PAGES"
  shows "\<exists>m. page_set p s = Some (s\<lparr>page_bitmap := m\<rparr>) \<and>
    (\<forall>q. page_is_used (s\<lparr>page_bitmap := m\<rparr>) q \<longleftrightarrow> q = p \<or> page_is_used s q)"
proof -
  have idx: "p div 8 < PMM_BITMAP_BYTES"
    using assms by simp
  have "(q div 8 = p div 8 \<and> q mod 8 = p mod 8) = (q = p)" for q :: nat
    using page_index_inj by blast
  then show ?thesis
    using idx
    by (intro exI [of _ "(page_bitmap s)(p div 8 := page_bitmap s (p div 8) OR 2 ^ (p mod 8))"])
      (auto simp: page_set_def page_is_used_def bit_set_byte)
qed

lemma page_clear_ok:
  assumes "p < PMM_MAX_PAGES"
  shows "\<exists>m. page_clear p s = Some (s\<lparr>page_bitmap := m\<rparr>) \<and>
    (\<forall>q. page_is_used (s\<lparr>page_bitmap := m\<rparr>) q \<longleftrightarrow> q \<noteq> p \<and> page_is_used s q)"
proof -
  have idx: "p div 8 < PMM_BITMAP_BYTES"
    using assms by simp
  have "(q div 8 = p div 8 \<and> q mod 8 = p mod 8) = (q = p)" for q :: nat
    using page_index_inj by blast
  then show ?thesis
    using idx
    by (intro exI [of _ "(page_bitmap s)(p div 8 := page_bitmap s (p div 8) AND NOT (2 ^ (p mod 8)))"])
      (auto simp: page_clear_def page_is_used_def bit_clear_byte)
qed

lemma set_pages_ok:
  assumes "\<forall>p \<in> set ps. f p < PMM_MAX_PAGES"
  shows "\<exists>m. for_each (\<lambda>p. page_set (f p)) ps s = Some (s\<lparr>page_bitmap := m\<rparr>) \<and>
    (\<forall>q. page_is_used (s\<lparr>page_bitmap := m\<rparr>) q \<longleftrightarrow> q \<in> f ` set ps \<or> page_is_used s q)"
  using assms
proof (induction ps arbitrary: s)
  case Nil
  then show ?case
    by (auto intro!: exI [of _ "page_bitmap s"])
next
  case (Cons p ps)
  then obtain m where m: "page_set (f p) s = Some (s\<lparr>page_bitmap := m\<rparr>)"
    "\<forall>q. page_is_used (s\<lparr>page_bitmap := m\<rparr>) q \<longleftrightarrow> q = f p \<or> page_is_used s q"
    using page_set_ok [of "f p" s] by auto
  show ?case
    using Cons.IH [of "s\<lparr>page_bitmap := m\<rparr>"] Cons.prems m by auto
qed

lemma clear_pages_ok:
  assumes "\<forall>p \<in> set ps. p < PMM_MAX_PAGES"
  shows "\<exists>m. for_each page_clear ps s = Some (s\<lparr>page_bitmap := m\<rparr>) \<and>
    (\<forall>q. page_is_used (s\<lparr>page_bitmap := m\<rparr>) q \<longleftrightarrow> q \<notin> set ps \<and> page_is_used s q)"
  using assms
proof (induction ps arbitrary: s)
  case Nil
  then show ?case
    by (auto intro!: exI [of _ "page_bitmap s"])
next
  case (Cons p ps)
  then obtain m where m: "page_clear p s = Some (s\<lparr>page_bitmap := m\<rparr>)"
    "\<forall>q. page_is_used (s\<lparr>page_bitmap := m\<rparr>) q \<longleftrightarrow> q \<noteq> p \<and> page_is_used s q"
    using page_clear_ok [of p s] by auto
  show ?case
    using Cons.IH [of "s\<lparr>page_bitmap := m\<rparr>"] Cons.prems m by auto
qed

subsection \<open>First fit\<close>

definition free_run :: "pmm \<Rightarrow> nat \<Rightarrow> nat \<Rightarrow> bool" where
  "free_run s start count \<longleftrightarrow> (\<forall>p. start \<le> p \<and> p < start + count \<longrightarrow> \<not> page_is_used s p)"

lemma alloc_probe_ok:
  assumes "start + count \<le> PMM_MAX_PAGES" and "page \<le> count"
  shows "\<exists>f. alloc_probe s start count page = Some f \<and> page \<le> f \<and> f \<le> count \<and>
    (\<forall>k. page \<le> k \<and> k < f \<longrightarrow> \<not> page_is_used s (start + k)) \<and>
    (f < count \<longrightarrow> page_is_used s (start + f))"
  using assms(2)
proof (induction "count - page" arbitrary: page)
  case 0
  then show ?case
    by (subst alloc_probe.simps) auto
next
  case (Suc n)
  then have page: "page < count" and lt: "start + page < PMM_MAX_PAGES"
    using assms(1) by auto
  have idx: "add32 start page = start + page"
    using lt by (intro add32_small) simp
  show ?case
  proof (cases "page_is_used s (start + page)")
    case True
    then show ?thesis
      using page lt page_mask_iff [of s "start + page"]
      by (subst alloc_probe.simps) (auto simp: idx)
  next
    case False
    have "n = count - (page + 1)" and "page + 1 \<le> count"
      using Suc.hyps(2) page by auto
    then obtain f where f: "alloc_probe s start count (page + 1) = Some f" "page + 1 \<le> f" "f \<le> count"
      "\<forall>k. page + 1 \<le> k \<and> k < f \<longrightarrow> \<not> page_is_used s (start + k)"
      "f < count \<longrightarrow> page_is_used s (start + f)"
      using Suc.hyps(1) by blast
    have "alloc_probe s start count page = Some f"
      using page lt False f(1) page_mask_iff [of s "start + page"]
      by (subst alloc_probe.simps) (simp add: idx)
    moreover have "\<not> page_is_used s (start + k)" if "page \<le> k" "k < f" for k
      using that f(4) False by (cases "k = page") auto
    ultimately show ?thesis
      using f by auto
  qed
qed

text \<open>\<open>hit\<close> is the lowest start of a run of \<open>count\<close> free pages from \<open>start\<close> on.\<close>

fun first_fit :: "pmm \<Rightarrow> nat \<Rightarrow> nat \<Rightarrow> nat option \<Rightarrow> bool" where
  "first_fit s count start None \<longleftrightarrow>
     (\<forall>k. start \<le> k \<and> k + count \<le> managed_pages s \<longrightarrow> \<not> free_run s k count)"
| "first_fit s count start (Some k) \<longleftrightarrow>
     start \<le> k \<and> k + count \<le> managed_pages s \<and> free_run s k count \<and>
     (\<forall>j. start \<le> j \<and> j < k \<longrightarrow> \<not> free_run s j count)"

lemma first_fit_skip:
  assumes "first_fit s count m hit" and "start \<le> m"
    and "\<And>j. start \<le> j \<Longrightarrow> j < m \<Longrightarrow> \<not> free_run s j count"
  shows "first_fit s count start hit"
proof (cases hit)
  case None
  then show ?thesis
    using assms by simp (meson not_le)
next
  case (Some k)
  then show ?thesis
    using assms by simp (meson not_le)
qed

lemma alloc_search_ok:
  assumes man: "managed_pages s \<le> PMM_MAX_PAGES" and cnt: "0 < count" "count \<le> PMM_MAX_PAGES"
    and "start \<le> managed_pages s"
  shows "\<exists>hit. alloc_search s count start = Some hit \<and> first_fit s count start hit"
  using assms(4)
proof (induction "managed_pages s - start" arbitrary: start rule: less_induct)
  case less
  have sum: "add32 start count = start + count"
    using less.prems man cnt by (intro add32_small) simp
  show ?case
  proof (cases "start + count \<le> managed_pages s")
    case False
    then show ?thesis
      by (subst alloc_search.simps) (auto simp: sum)
  next
    case True
    then obtain f where f: "alloc_probe s start count 0 = Some f" "f \<le> count"
      "\<forall>k < f. \<not> page_is_used s (start + k)" "f < count \<longrightarrow> page_is_used s (start + f)"
      using alloc_probe_ok [of start count 0 s] man by auto
    show ?thesis
    proof (cases "f = count")
      case full: True
      have "free_run s start count"
        using f(3) full by (auto simp: free_run_def dest!: le_Suc_ex)
      then show ?thesis
        using True f full by (subst alloc_search.simps) (auto simp: sum)
    next
      case False
      then have fl: "f < count" and used: "page_is_used s (start + f)"
        using f by auto
      have blocked: "\<not> free_run s j count" if "start \<le> j" "j < start + f + 1" for j
      proof -
        have "j \<le> start + f" and "start + f < j + count"
          using that fl by simp_all
        then show ?thesis
          using used unfolding free_run_def by blast
      qed
      have nxt: "add32 (add32 start f) 1 = start + f + 1"
        using True fl man by (simp add: wrap_simps)
      have "start + f + 1 \<le> managed_pages s" and "managed_pages s - (start + f + 1) < managed_pages s - start"
        using True fl by auto
      then obtain hit where hit: "alloc_search s count (start + f + 1) = Some hit"
        "first_fit s count (start + f + 1) hit"
        using less.hyps [of "start + f + 1"] by blast
      have "alloc_search s count start = Some hit"
        using True f(1) False hit(1) by (subst alloc_search.simps) (simp add: sum nxt [simplified])
      moreover have "first_fit s count start hit"
        by (rule first_fit_skip [OF hit(2)]) (use blocked in simp_all)
      ultimately show ?thesis
        by blast
    qed
  qed
qed

subsection \<open>Operations on an invariant state\<close>

lemma finite_used_set [simp]: "finite (used_set s)"
  by (simp add: used_set_def)

lemma pmm_region_less: "pmm_inv s \<Longrightarrow> p \<in> pmm_region s \<Longrightarrow> p < PMM_MAX_PAGES"
  by (simp add: pmm_inv_defs pmm_region_def)

lemma used_pages_le: "pmm_core s \<Longrightarrow> used_pages s \<le> managed_pages s"
  using card_mono [of "{..<managed_pages s}" "used_set s \<inter> {..<managed_pages s}"]
  by (simp add: pmm_core_def)

text \<open>Two states with the same bitmap, sizes and page count agree on the invariant.\<close>

lemma pmm_inv_cong:
  assumes "pmm_inv s" and "page_bitmap t = page_bitmap s" and "managed_pages t = managed_pages s"
    and "reserved_pages t = reserved_pages s" and "used_pages t = used_pages s"
    and "peak_used_pages t = peak_used_pages s" and "sl_state (pmm_lock t) = 0"
  shows "pmm_inv t \<and> used_set t = used_set s \<and> pmm_region t = pmm_region s"
  using assms by (simp add: pmm_inv_defs used_set_def page_is_used_def pmm_region_def)

lemma free_run_range:
  assumes inv: "pmm_inv s" and fit: "first_fit s count (reserved_pages s) (Some start)"
  shows "{start ..< start + count} \<subseteq> pmm_region s" "{start ..< start + count} \<inter> used_set s = {}"
  using fit by (auto simp: pmm_region_def used_set_def free_run_def)

lemma add32_run:
  assumes "start + count \<le> PMM_MAX_PAGES"
  shows "add32 start ` set [0 ..< count] = {start ..< start + count}"
    and "\<forall>p \<in> set [0 ..< count]. add32 start p < PMM_MAX_PAGES"
proof -
  have "add32 start ` set [0 ..< count] = (+) start ` {0 ..< count}"
    using assms by (intro image_cong) (auto simp: wrap_simps)
  then show "add32 start ` set [0 ..< count] = {start ..< start + count}"
    by (simp add: add.commute)
  show "\<forall>p \<in> set [0 ..< count]. add32 start p < PMM_MAX_PAGES"
    using assms by (auto simp: wrap_simps)
qed

lemma card_used_add:
  assumes inv: "pmm_inv s" and reg: "R \<subseteq> pmm_region s" and new: "R \<inter> used_set s = {}"
  shows "card ((used_set s \<union> R) \<inter> {..<managed_pages s}) = used_pages s + card R"
    and "used_pages s + card R \<le> managed_pages s"
proof -
  have "(used_set s \<union> R) \<inter> {..<managed_pages s} = used_set s \<inter> {..<managed_pages s} \<union> R"
    using reg by (auto simp: pmm_region_def)
  moreover have "finite R"
    using reg finite_subset by (auto simp: pmm_region_def)
  ultimately show card: "card ((used_set s \<union> R) \<inter> {..<managed_pages s}) = used_pages s + card R"
    using inv new
    by (simp only: pmm_inv_defs) (subst card_Un_disjoint, auto)
  show "used_pages s + card R \<le> managed_pages s"
    unfolding card [symmetric] using card_mono [of "{..<managed_pages s}"] by (simp add: Int_commute)
qed

lemma used_set_add:
  assumes "\<And>q. page_is_used t q \<longleftrightarrow> q \<in> {start ..< start + count} \<or> page_is_used s q"
    and "start + count \<le> PMM_MAX_PAGES"
  shows "used_set t = used_set s \<union> {start ..< start + count}"
proof -
  have "q \<in> used_set t \<longleftrightarrow> q \<in> used_set s \<union> {start ..< start + count}" for q
    using assms(2) by (simp add: used_set_def assms(1)) linarith
  then show ?thesis
    by blast
qed

lemma pmm_alloc_cases [consumes 1]:
  assumes inv: "pmm_inv s"
  obtains (fail) t where "pmm_alloc_pages count s = Some (0, t)" "pmm_inv t"
      "used_set t = used_set s" "pmm_region t = pmm_region s" "used_pages t = used_pages s"
      "reserved_pages t = reserved_pages s" "count = 0 \<or> first_fit s count (reserved_pages s) None"
  | (hit) start t where "pmm_alloc_pages count s = Some (start * PAGE_SIZE, t)" "pmm_inv t"
      "0 < count" "first_fit s count (reserved_pages s) (Some start)"
      "used_set t = used_set s \<union> {start ..< start + count}" "pmm_region t = pmm_region s"
      "used_pages t = used_pages s + count" "reserved_pages t = reserved_pages s"
proof -
  let ?s = "s\<lparr>pmm_lock := (pmm_lock s)\<lparr>sl_state := 1\<rparr>, allocation_requests := add64 (allocation_requests s) 1\<rparr>"
  let ?f = "?s\<lparr>failed_allocations := add64 (failed_allocations s) 1,
                pmm_lock := spinlock_unlock (pmm_lock ?s)\<rparr>"
  have free: "sl_state (pmm_lock s) = 0"
    using inv by (simp add: pmm_inv_defs)
  have failed: "pmm_inv ?f \<and> used_set ?f = used_set s \<and> pmm_region ?f = pmm_region s"
    by (rule pmm_inv_cong [OF inv]) (simp_all add: spinlock_unlock_def atomic_defs)
  show thesis
  proof (cases "count = 0 \<or> count > managed_pages s")
    case True
    then have "pmm_alloc_pages count s = Some (0, ?f)"
      using free by (simp add: pmm_alloc_pages_def)
    then show thesis
      using failed True by (intro fail [of ?f]) auto
  next
    case False
    then obtain h where h: "alloc_search ?s count (reserved_pages s) = Some h"
      "first_fit ?s count (reserved_pages s) h"
      using alloc_search_ok [of ?s count "reserved_pages s"] inv by (auto simp: pmm_inv_defs)
    have fit: "first_fit s count (reserved_pages s) h"
      using h(2) by (cases h) (simp_all add: free_run_def page_is_used_def)
    show thesis
    proof (cases h)
      case None
      then have "pmm_alloc_pages count s = Some (0, ?f)"
        using free False h(1) by (simp add: pmm_alloc_pages_def)
      then show thesis
        using failed fit None by (intro fail [of ?f]) auto
    next
      case (Some start)
      note range = free_run_range [OF inv fit [unfolded Some]]
      have small: "start + count \<le> PMM_MAX_PAGES"
        using fit inv by (simp add: Some pmm_inv_defs)
      obtain m where m: "for_each (\<lambda>p. page_set (add32 start p)) [0 ..< count] ?s = Some (?s\<lparr>page_bitmap := m\<rparr>)"
        "\<forall>q. page_is_used (?s\<lparr>page_bitmap := m\<rparr>) q \<longleftrightarrow> q \<in> {start ..< start + count} \<or> page_is_used ?s q"
        using set_pages_ok [OF add32_run(2) [OF small], of ?s] unfolding add32_run(1) [OF small] by blast
      note card = card_used_add [OF inv range, simplified]
      have sum: "add32 (used_pages s) count = used_pages s + count"
        using inv card(2) by (intro add32_small) (simp add: pmm_inv_defs)
      define t where "t = ?s\<lparr>page_bitmap := m, used_pages := used_pages s + count,
          peak_used_pages := max (used_pages s + count) (peak_used_pages s),
          pmm_lock := spinlock_unlock (pmm_lock ?s)\<rparr>"
      have alloc: "pmm_alloc_pages count s = Some (start * PAGE_SIZE, t)"
        using free False h(1) Some m(1) by (auto simp: pmm_alloc_pages_def sum t_def max_def)
      have "page_is_used t q \<longleftrightarrow> q \<in> {start ..< start + count} \<or> page_is_used s q" for q
        using m(2) [rule_format, of q] by (simp add: page_is_used_def t_def)
      then have used: "used_set t = used_set s \<union> {start ..< start + count}"
        using small by (rule used_set_add)
      have reg: "pmm_region t = pmm_region s"
        by (simp add: pmm_region_def t_def)
      have "pmm_inv t"
        using inv card(1) unfolding pmm_inv_defs used reg
        by (auto simp: t_def spinlock_unlock_def atomic_defs)
      then show thesis
        using alloc used reg fit False Some by (intro hit [of start t]) (auto simp: t_def)
    qed
  qed
qed

lemma free_page_ok:
  assumes core: "pmm_core s" and p: "p \<in> pmm_region s"
  shows "\<exists>m n. free_page p s = Some (s\<lparr>page_bitmap := m, used_pages := n\<rparr>) \<and>
    pmm_core (s\<lparr>page_bitmap := m, used_pages := n\<rparr>) \<and>
    used_set (s\<lparr>page_bitmap := m, used_pages := n\<rparr>) = used_set s - {p}"
proof -
  have small: "p < PMM_MAX_PAGES" and man: "p < managed_pages s"
    using core p by (simp_all add: pmm_core_def pmm_region_def)
  show ?thesis
  proof (cases "page_is_used s p")
    case False
    then have "free_page p s = Some (s\<lparr>page_bitmap := page_bitmap s, used_pages := used_pages s\<rparr>)"
      using small page_mask_iff [of s p] by (simp add: free_page_def)
    moreover have "p \<notin> used_set s"
      using False by (auto simp: used_set_def)
    ultimately show ?thesis
      using core by (auto intro!: exI [of _ "page_bitmap s"] exI [of _ "used_pages s"])
  next
    case True
    obtain m where m: "page_clear p s = Some (s\<lparr>page_bitmap := m\<rparr>)"
      "\<forall>q. page_is_used (s\<lparr>page_bitmap := m\<rparr>) q \<longleftrightarrow> q \<noteq> p \<and> page_is_used s q"
      using page_clear_ok [OF small] by blast
    let ?n = "used_pages s - 1"
    let ?t = "s\<lparr>page_bitmap := m, used_pages := ?n\<rparr>"
    have used: "used_set ?t = used_set s - {p}"
      using m(2) by (auto simp: used_set_def page_is_used_def)
    have "p \<in> used_set s \<inter> {..<managed_pages s}"
      using True small man by (simp add: used_set_def)
    moreover have "(used_set s - {p}) \<inter> {..<managed_pages s} = used_set s \<inter> {..<managed_pages s} - {p}"
      by blast
    ultimately have card: "card (used_set s \<inter> {..<managed_pages s}) =
        Suc (card ((used_set s - {p}) \<inter> {..<managed_pages s}))"
      using card.remove [of "used_set s \<inter> {..<managed_pages s}" p] by simp
    have "sub32 (used_pages s) 1 = ?n"
      using core card used_pages_le [OF core] by (intro sub32_small) (auto simp: pmm_core_def)
    then have "free_page p s = Some ?t"
      using m(1) True small page_mask_iff [of s p] by (simp add: free_page_def)
    moreover have "pmm_core ?t"
      using core card p unfolding pmm_core_def used by (auto simp: pmm_region_def)
    ultimately show ?thesis
      using used by blast
  qed
qed

lemma free_pages_ok:
  assumes "pmm_core s" and "f ` set ps \<subseteq> pmm_region s"
  shows "\<exists>m n. for_each (\<lambda>p. free_page (f p)) ps s = Some (s\<lparr>page_bitmap := m, used_pages := n\<rparr>) \<and>
    pmm_core (s\<lparr>page_bitmap := m, used_pages := n\<rparr>) \<and>
    used_set (s\<lparr>page_bitmap := m, used_pages := n\<rparr>) = used_set s - f ` set ps"
  using assms
proof (induction ps arbitrary: s)
  case Nil
  then show ?case
    by (auto intro!: exI [of _ "page_bitmap s"] exI [of _ "used_pages s"])
next
  case (Cons p ps)
  then obtain m n where m: "free_page (f p) s = Some (s\<lparr>page_bitmap := m, used_pages := n\<rparr>)"
    "pmm_core (s\<lparr>page_bitmap := m, used_pages := n\<rparr>)"
    "used_set (s\<lparr>page_bitmap := m, used_pages := n\<rparr>) = used_set s - {f p}"
    using free_page_ok [of s "f p"] by auto
  let ?t = "s\<lparr>page_bitmap := m, used_pages := n\<rparr>"
  have "f ` set ps \<subseteq> pmm_region ?t"
    using Cons.prems by (simp add: pmm_region_def)
  from Cons.IH [OF m(2) this] show ?case
    using m by (auto simp: Diff_insert2 [symmetric] insert_commute)
qed

lemma run_in_region:
  "0 < count \<Longrightarrow> {start ..< start + count} \<subseteq> pmm_region s \<longleftrightarrow>
     reserved_pages s \<le> start \<and> start + count \<le> managed_pages s"
  by (auto simp: pmm_region_def)

lemma pmm_free_ok:
  assumes inv: "pmm_inv s" and count: "0 < count" and run: "{start ..< start + count} \<subseteq> pmm_region s"
  shows "\<exists>t. pmm_free_pages (start * PAGE_SIZE) count s = Some t \<and> pmm_inv t \<and>
    used_set t = used_set s - {start ..< start + count} \<and> pmm_region t = pmm_region s \<and>
    reserved_pages t = reserved_pages s"
proof -
  let ?s = "s\<lparr>pmm_lock := (pmm_lock s)\<lparr>sl_state := 1\<rparr>, free_requests := add64 (free_requests s) 1\<rparr>"
  have bounds: "reserved_pages s \<le> start" "start + count \<le> managed_pages s"
    and small: "start + count \<le> PMM_MAX_PAGES"
    using inv run count by (auto simp: run_in_region pmm_inv_defs)
  have core: "pmm_core ?s" and used: "used_set ?s = used_set s"
    using inv by (simp_all add: pmm_inv_defs used_set_def page_is_used_def pmm_region_def)
  have "add32 start ` set [0 ..< count] \<subseteq> pmm_region ?s"
    unfolding add32_run(1) [OF small] using run by (simp add: pmm_region_def)
  then obtain m n where m:
    "for_each (\<lambda>p. free_page (add32 start p)) [0 ..< count] ?s = Some (?s\<lparr>page_bitmap := m, used_pages := n\<rparr>)"
    "pmm_core (?s\<lparr>page_bitmap := m, used_pages := n\<rparr>)"
    "used_set (?s\<lparr>page_bitmap := m, used_pages := n\<rparr>) = used_set s - {start ..< start + count}"
    using free_pages_ok [OF core, of "add32 start" "[0 ..< count]"]
    unfolding add32_run(1) [OF small] used by blast
  let ?t = "?s\<lparr>page_bitmap := m, used_pages := n, pmm_lock := spinlock_unlock (pmm_lock ?s)\<rparr>"
  have "pmm_free_pages (start * PAGE_SIZE) count s = Some ?t"
    using inv m(1) bounds count small
    by (simp add: pmm_free_pages_def pmm_inv_def add32_small)
  moreover have "pmm_inv ?t" and "used_set ?t = used_set s - {start ..< start + count}"
    using m(2,3)
    by (simp_all add: pmm_inv_defs used_set_def page_is_used_def pmm_region_def spinlock_unlock_def atomic_defs)
  ultimately show ?thesis
    by (auto simp: pmm_region_def)
qed

subsection \<open>The interface of a page allocator\<close>

text \<open>
  What the clients of the allocator (the DMA layer, the heap, the task table) rely on. A
  call never blocks on a released lock, the null address stands for failure, and a run of
  pages that has been handed out is disjoint from everything in use until it is freed.
\<close>

locale page_allocator =
  fixes alloc :: "nat \<Rightarrow> 's \<Rightarrow> (nat \<times> 's) option"
    and free :: "nat \<Rightarrow> nat \<Rightarrow> 's \<Rightarrow> 's option"
    and inv :: "'s \<Rightarrow> bool"
    and used :: "'s \<Rightarrow> nat set"
    and region :: "'s \<Rightarrow> nat set"
    and limit :: nat
  assumes alloc_law: "inv s \<Longrightarrow> \<exists>a t. alloc n s = Some (a, t) \<and> inv t \<and> region t = region s \<and>
      (a = 0 \<and> used t = used s \<or>
       (\<exists>p. 0 < p \<and> a = p * 4096 \<and> 0 < n \<and> {p ..< p + n} \<subseteq> region s \<and>
            {p ..< p + n} \<inter> used s = {} \<and> used t = used s \<union> {p ..< p + n}))"
    and free_law: "inv s \<Longrightarrow> 0 < n \<Longrightarrow> {p ..< p + n} \<subseteq> region s \<Longrightarrow>
      \<exists>t. free (p * 4096) n s = Some t \<and> inv t \<and> used t = used s - {p ..< p + n} \<and>
          region t = region s"
    and alloc_complete: "inv s \<Longrightarrow> alloc n s = Some (0, t) \<Longrightarrow> 0 < n \<Longrightarrow> {p ..< p + n} \<subseteq> region s \<Longrightarrow>
      {p ..< p + n} \<inter> used s \<noteq> {}"
    and region_limit: "inv s \<Longrightarrow> region s \<subseteq> {..<limit}"
begin

lemma alloc_free_restores:
  assumes "inv s" and "alloc n s = Some (a, t)" and "a \<noteq> 0"
  shows "\<exists>u. free a n t = Some u \<and> inv u \<and> used u = used s \<and> region u = region s"
proof -
  obtain p where p: "inv t" "region t = region s" "a = p * 4096" "0 < n" "{p ..< p + n} \<subseteq> region s"
    "{p ..< p + n} \<inter> used s = {}" "used t = used s \<union> {p ..< p + n}"
    using alloc_law [OF assms(1), of n] assms(2,3) by auto
  then obtain u where u: "free a n t = Some u" "inv u" "used u = used t - {p ..< p + n}" "region u = region t"
    using free_law [of t n p] by auto
  moreover have "used t - {p ..< p + n} = used s"
    using p(6,7) by blast
  ultimately show ?thesis
    using p(2) by auto
qed

lemma alloc_disjoint:
  assumes "inv s" and "alloc n s = Some (a, t)" and "a \<noteq> 0" and "alloc k t = Some (b, u)" and "b \<noteq> 0"
  shows "{a div 4096 ..< a div 4096 + n} \<inter> {b div 4096 ..< b div 4096 + k} = {}"
proof -
  obtain p where p: "inv t" "a = p * 4096" "used t = used s \<union> {p ..< p + n}"
    using alloc_law [OF assms(1), of n] assms(2,3) by auto
  obtain q where q: "b = q * 4096" "{q ..< q + k} \<inter> used t = {}"
    using alloc_law [OF p(1), of k] assms(4,5) by auto
  have "a div 4096 = p" and "b div 4096 = q"
    using p(2) q(1) by simp_all
  then show ?thesis
    using p(3) q(2) by blast
qed

end

text \<open>
  The allocator needs at least one reserved page, because page 0 has the null address. The
  kernel image occupies it: \<open>pmm_init\<close> gets the end of the kernel.
\<close>

definition pmm_ready :: "pmm \<Rightarrow> bool" where
  "pmm_ready s \<longleftrightarrow> pmm_inv s \<and> 0 < reserved_pages s"

lemma free_run_iff:
  assumes inv: "pmm_inv s" and run: "{p ..< p + count} \<subseteq> pmm_region s"
  shows "free_run s p count \<longleftrightarrow> {p ..< p + count} \<inter> used_set s = {}"
proof -
  have "p' \<in> used_set s \<longleftrightarrow> page_is_used s p'" if "p \<le> p'" "p' < p + count" for p'
    using that run pmm_region_less [OF inv, of p'] by (auto simp: used_set_def)
  then show ?thesis
    unfolding free_run_def by (meson atLeastLessThan_iff disjoint_iff)
qed

interpretation pages: page_allocator pmm_alloc_pages pmm_free_pages pmm_ready used_set pmm_region PMM_MAX_PAGES
proof
  fix s :: pmm and n :: nat
  assume ready: "pmm_ready s"
  then have inv: "pmm_inv s"
    by (simp add: pmm_ready_def)
  show "\<exists>a t. pmm_alloc_pages n s = Some (a, t) \<and> pmm_ready t \<and> pmm_region t = pmm_region s \<and>
      (a = 0 \<and> used_set t = used_set s \<or>
       (\<exists>p. 0 < p \<and> a = p * 4096 \<and> 0 < n \<and> {p ..< p + n} \<subseteq> pmm_region s \<and>
            {p ..< p + n} \<inter> used_set s = {} \<and> used_set t = used_set s \<union> {p ..< p + n}))"
    using inv
  proof (cases rule: pmm_alloc_cases [where count = n])
    case (fail t)
    then show ?thesis
      using ready by (auto simp: pmm_ready_def)
  next
    case (hit start t)
    then show ?thesis
      using ready free_run_range [OF inv hit(4)] by (auto simp: pmm_ready_def)
  qed
  show "\<exists>t. pmm_free_pages (p * 4096) n s = Some t \<and> pmm_ready t \<and>
      used_set t = used_set s - {p ..< p + n} \<and> pmm_region t = pmm_region s"
    if "0 < n" "{p ..< p + n} \<subseteq> pmm_region s" for p
    using pmm_free_ok [OF inv that] ready by (auto simp: pmm_ready_def)
  show "{p ..< p + n} \<inter> used_set s \<noteq> {}"
    if alloc: "pmm_alloc_pages n s = Some (0, t)" and run: "0 < n" "{p ..< p + n} \<subseteq> pmm_region s" for p t
    using inv
  proof (cases rule: pmm_alloc_cases [where count = n])
    case (fail u)
    then show ?thesis
      using run free_run_iff [OF inv run(2)] by (simp add: run_in_region)
  next
    case (hit start u)
    then show ?thesis
      using alloc ready by (simp add: pmm_ready_def)
  qed
  show "pmm_region s \<subseteq> {..<PMM_MAX_PAGES}"
    using inv by (auto simp: pmm_inv_defs pmm_region_def)
qed

lemma bit_full_byte: "k < 8 \<Longrightarrow> bit (0xFF :: u8) k"
proof -
  have "(0xFF :: u8) = - 1"
    by simp
  then show "k < 8 \<Longrightarrow> bit (0xFF :: u8) k"
    by (simp only: bit_minus_1_iff) simp
qed

lemma init_bitmap_ok:
  assumes man: "managed_pages s \<le> PMM_MAX_PAGES" and res: "reserved_pages s \<le> managed_pages s"
    and bm: "\<And>i. i < PMM_BITMAP_BYTES \<Longrightarrow> page_bitmap s i = 0xFF"
  shows "\<exists>m. for_each page_clear [reserved_pages s ..< managed_pages s] s = Some (s\<lparr>page_bitmap := m\<rparr>) \<and>
    used_set (s\<lparr>page_bitmap := m\<rparr>) = {..<PMM_MAX_PAGES} - pmm_region s"
proof -
  have "\<forall>p \<in> set [reserved_pages s ..< managed_pages s]. p < PMM_MAX_PAGES"
    using man by simp
  from clear_pages_ok [OF this, of s] obtain m where m:
    "for_each page_clear [reserved_pages s ..< managed_pages s] s = Some (s\<lparr>page_bitmap := m\<rparr>)"
    "\<forall>q. page_is_used (s\<lparr>page_bitmap := m\<rparr>) q \<longleftrightarrow>
       q \<notin> set [reserved_pages s ..< managed_pages s] \<and> page_is_used s q"
    by (elim exE conjE)
  have all: "page_is_used s q" if "q < PMM_MAX_PAGES" for q
  proof -
    have "page_bitmap s (q div 8) = 0xFF"
      using that by (intro bm) simp
    then show ?thesis
      unfolding page_is_used_def by (simp only:) (rule bit_full_byte, simp)
  qed
  have "used_set (s\<lparr>page_bitmap := m\<rparr>) = {..<PMM_MAX_PAGES} - pmm_region s"
    using m(2) all by (simp add: used_set_def pmm_region_def set_eq_iff) blast
  with m(1) show ?thesis
    by blast
qed

lemma if_greater_min: "(if a > b then b else a) = min a b" for a b :: nat
  by auto

lemma pmm_init_ok:
  "\<exists>t. pmm_init_limit kib kend lim s = Some t \<and> pmm_inv t \<and>
     used_set t = {..<PMM_MAX_PAGES} - pmm_region t \<and> used_pages t = reserved_pages t \<and>
     managed_pages t = (min ((kib * 1024) mod 2 ^ 64)
       (if lim = 0 \<or> lim > 0x100000000 then 0x40000000 else lim)) div PAGE_SIZE \<and>
     reserved_pages t = min ((add64 kend 4095 div PAGE_SIZE) mod 2 ^ 32) (managed_pages t)"
proof -
  define tot where "tot = min ((kib * 1024) mod 2 ^ 64)
    (if lim = 0 \<or> lim > 0x100000000 then 0x40000000 else lim)"
  define man where "man = tot div PAGE_SIZE"
  define res where "res = min ((add64 kend 4095 div PAGE_SIZE) mod 2 ^ 32) man"
  have "tot \<le> 0x100000000"
    by (auto simp: tot_def min_def)
  then have man: "man \<le> PMM_MAX_PAGES"
    by (simp add: man_def)
  define u where "u = s\<lparr>pmm_lock := spinlock_init (pmm_lock s), managed_pages := man,
    reserved_pages := res, page_bitmap := (\<lambda>i. if i < PMM_BITMAP_BYTES then 0xFF else page_bitmap s i)\<rparr>"
  obtain m where m: "for_each page_clear [res ..< man] u = Some (u\<lparr>page_bitmap := m\<rparr>)"
    "used_set (u\<lparr>page_bitmap := m\<rparr>) = {..<PMM_MAX_PAGES} - pmm_region u"
    using init_bitmap_ok [of u] man by (auto simp: u_def res_def)
  define t where "t = u\<lparr>page_bitmap := m, used_pages := res, allocation_requests := 0,
    free_requests := 0, failed_allocations := 0, peak_used_pages := res\<rparr>"
  have eq: "pmm_init_limit kib kend lim s =
      for_each page_clear [res ..< man] u \<bind>
        (\<lambda>s. Some (s\<lparr>used_pages := res, allocation_requests := 0, free_requests := 0,
          failed_allocations := 0, peak_used_pages := res\<rparr>))"
  proof -
    define mapped where "mapped = (if lim = 0 \<or> lim > 0x100000000 then 0x40000000 else lim)"
    have tot: "(if (kib * 1024) mod 2 ^ 64 > mapped then mapped else (kib * 1024) mod 2 ^ 64) = tot"
      unfolding tot_def mapped_def [symmetric] by (rule if_greater_min)
    have "man < 2 ^ 32"
      using man by simp
    then have mod: "tot div PAGE_SIZE mod 2 ^ 32 = man"
      unfolding man_def by (rule mod_less)
    have cut: "(if man > PMM_MAX_PAGES then PMM_MAX_PAGES else man) = man"
      using man by simp
    have "PAGE_SIZE - 1 = (4095 :: nat)"
      by simp
    then have low: "(if (add64 kend (PAGE_SIZE - 1) div PAGE_SIZE) mod 2 ^ 32 > man then man
        else (add64 kend (PAGE_SIZE - 1) div PAGE_SIZE) mod 2 ^ 32) = res"
      unfolding res_def by (simp only: if_greater_min)
    show ?thesis
      unfolding pmm_init_limit_def Let_def mapped_def [symmetric] tot mod cut low u_def ..
  qed
  have init: "pmm_init_limit kib kend lim s = Some t"
    by (simp add: eq m(1) t_def)
  have used: "used_set t = {..<PMM_MAX_PAGES} - pmm_region t"
    using m(2) by (simp add: t_def used_set_def page_is_used_def pmm_region_def)
  have "({..<PMM_MAX_PAGES} - {res ..< man}) \<inter> {..<man} = {..<res}"
    using man by (auto simp: res_def)
  then have "pmm_inv t"
    unfolding pmm_inv_defs used using man
    by (simp add: t_def u_def pmm_region_def spinlock_init_def atomic_defs res_def)
  moreover have "managed_pages t = man" "reserved_pages t = res" "used_pages t = res"
    by (simp_all add: t_def u_def)
  ultimately show ?thesis
    unfolding tot_def [symmetric] man_def [symmetric] using init used
    by (intro exI [of _ t] conjI) (simp_all only: res_def)
qed

text \<open>Reading the statistics only touches the lock.\<close>

lemma pmm_get_stats_ok:
  assumes "pmm_ready s"
  shows "\<exists>t st. pmm_get_stats s = Some (st, t) \<and> pmm_ready t \<and> used_set t = used_set s \<and>
    pmm_region t = pmm_region s \<and> used_pages t = used_pages s \<and> managed_pages t = managed_pages s \<and>
    st_used_pages st = used_pages s \<and> st_free_pages st = sub32 (managed_pages s) (used_pages s)"
proof -
  have inv: "pmm_inv s"
    using assms by (simp add: pmm_ready_def)
  let ?t = "s\<lparr>pmm_lock := spinlock_unlock ((pmm_lock s)\<lparr>sl_state := 1\<rparr>)\<rparr>"
  have "pmm_inv ?t \<and> used_set ?t = used_set s \<and> pmm_region ?t = pmm_region s"
    by (rule pmm_inv_cong [OF inv]) (simp_all add: spinlock_unlock_def atomic_defs)
  moreover have "sl_state (pmm_lock s) = 0"
    using inv by (simp add: pmm_inv_def)
  ultimately show ?thesis
    using assms by (simp add: pmm_get_stats_def pmm_ready_def)
qed

lemma pmm_region_managed:
  "pmm_region t = pmm_region s \<Longrightarrow> pmm_region s \<noteq> {} \<Longrightarrow> managed_pages t = managed_pages s"
  by (simp add: pmm_region_def) (metis atLeastLessThan_empty_iff2 atLeastLessThan_eq_iff not_less)

lemma pmm_used_pages_eq: "pmm_ready s \<Longrightarrow> used_pages s = card (used_set s \<inter> {..<managed_pages s})"
  by (simp add: pmm_ready_def pmm_inv_defs)

lemma pmm_used_pages_bound: "pmm_ready s \<Longrightarrow> used_pages s \<le> PMM_MAX_PAGES"
proof -
  assume s: "pmm_ready s"
  have "used_pages s \<le> card {..<managed_pages s}"
    unfolding pmm_used_pages_eq [OF s] by (rule card_mono) simp_all
  then show ?thesis
    using s by (simp add: pmm_ready_def pmm_inv_defs)
qed

text \<open>A run that was handed out can be freed in any later state with the same pages in use.\<close>

lemma pmm_free_after_alloc:
  assumes "pmm_ready s" and "pmm_alloc_pages n s = Some (a, t)" and "a \<noteq> 0"
    and "pmm_ready u" and "used_set u = used_set t" and "pmm_region u = pmm_region t"
  shows "\<exists>v. pmm_free_pages a n u = Some v \<and> pmm_ready v \<and> used_set v = used_set s \<and> pmm_region v = pmm_region s"
proof -
  obtain p where p: "pmm_region t = pmm_region s" "a = p * 4096" "0 < n" "{p ..< p + n} \<subseteq> pmm_region s"
    "{p ..< p + n} \<inter> used_set s = {}" "used_set t = used_set s \<union> {p ..< p + n}"
    using pages.alloc_law [OF assms(1), of n] assms(2,3) by auto
  then obtain v where "pmm_free_pages a n u = Some v" "pmm_ready v" "used_set v = used_set u - {p ..< p + n}"
    "pmm_region v = pmm_region u"
    using pages.free_law [OF assms(4), of n p] assms(6) by auto
  moreover have "used_set u - {p ..< p + n} = used_set s"
    using p(5,6) assms(5) by blast
  ultimately show ?thesis
    using p(1) assms(6) by auto
qed

text \<open>A machine with 8 MiB whose kernel ends at 2 MiB.\<close>

lemma pmm_boot_example:
  "\<exists>s. pmm_ready s \<and> pmm_region s = {512 ..< 2048} \<and> pmm_region s \<inter> used_set s = {} \<and>
     reserved_pages s = 512 \<and> managed_pages s = 2048"
proof -
  obtain t where "pmm_inv t" "used_set t = {..<PMM_MAX_PAGES} - pmm_region t"
      "managed_pages t = 2048" "reserved_pages t = 512"
    using pmm_init_ok [of 8192 "0x200000" "0x40000000" undefined] by (auto simp: add64_def)
  then show ?thesis
    by (intro exI [of _ t]) (auto simp: pmm_ready_def pmm_region_def)
qed

subsection \<open>Properties\<close>

text \<open>
  C3. \<open>pmm_alloc_pages\<close> is first fit and keeps the allocator's invariant. On a ready
  allocator every call returns with the lock released. It fails exactly when no run of
  \<open>count\<close> free pages exists in the managed region; otherwise the address it returns is the
  page-aligned start of the lowest such run, the run was free before, exactly its pages
  become used, and \<open>used_pages\<close> grows by \<open>count\<close>.
\<close>

theorem pmm_alloc_pages_first_fit:
  assumes "pmm_ready s"
  shows "\<exists>a t. pmm_alloc_pages count s = Some (a, t) \<and> pmm_ready t \<and>
    (if count = 0 \<or> (\<forall>p. {p ..< p + count} \<subseteq> pmm_region s \<longrightarrow> {p ..< p + count} \<inter> used_set s \<noteq> {})
     then a = 0 \<and> used_set t = used_set s \<and> used_pages t = used_pages s
     else \<exists>p. a = p * PAGE_SIZE \<and> a \<noteq> 0 \<and> {p ..< p + count} \<subseteq> pmm_region s \<and>
       {p ..< p + count} \<inter> used_set s = {} \<and> used_set t = used_set s \<union> {p ..< p + count} \<and>
       used_pages t = used_pages s + count \<and>
       (\<forall>q < p. {q ..< q + count} \<subseteq> pmm_region s \<longrightarrow> {q ..< q + count} \<inter> used_set s \<noteq> {}))"
proof -
  have inv: "pmm_inv s" and res: "0 < reserved_pages s"
    using assms by (simp_all add: pmm_ready_def)
  note run = free_run_iff [OF inv]
  from inv show ?thesis
  proof (cases rule: pmm_alloc_cases [where count = count])
    case (fail t)
    have "\<forall>p. {p ..< p + count} \<subseteq> pmm_region s \<longrightarrow> {p ..< p + count} \<inter> used_set s \<noteq> {}" if "0 < count"
      using fail(7) run that by (simp add: run_in_region)
    then show ?thesis
      using fail res by (auto simp: pmm_ready_def)
  next
    case (hit p t)
    note range = free_run_range [OF inv hit(4)]
    have low: "\<forall>q < p. {q ..< q + count} \<subseteq> pmm_region s \<longrightarrow> {q ..< q + count} \<inter> used_set s \<noteq> {}"
    proof (intro allI impI)
      fix q assume q: "q < p" "{q ..< q + count} \<subseteq> pmm_region s"
      then have "reserved_pages s \<le> q"
        using hit(3) by (simp add: run_in_region)
      then have "\<not> free_run s q count"
        using hit(4) q(1) by simp
      then show "{q ..< q + count} \<inter> used_set s \<noteq> {}"
        using run [OF q(2)] by simp
    qed
    have "p \<noteq> 0"
      using hit(4) res by simp
    have ex: "\<not> (count = 0 \<or> (\<forall>p. {p ..< p + count} \<subseteq> pmm_region s \<longrightarrow> {p ..< p + count} \<inter> used_set s \<noteq> {}))"
      using range hit(3) by blast
    have "pmm_ready t"
      using hit res by (simp add: pmm_ready_def)
    moreover have "\<exists>p'. p * PAGE_SIZE = p' * PAGE_SIZE \<and> p * PAGE_SIZE \<noteq> 0 \<and>
        {p' ..< p' + count} \<subseteq> pmm_region s \<and> {p' ..< p' + count} \<inter> used_set s = {} \<and>
        used_set t = used_set s \<union> {p' ..< p' + count} \<and> used_pages t = used_pages s + count \<and>
        (\<forall>q < p'. {q ..< q + count} \<subseteq> pmm_region s \<longrightarrow> {q ..< q + count} \<inter> used_set s \<noteq> {})"
      using range low \<open>p \<noteq> 0\<close> hit(2,5-) by (intro exI [of _ p] conjI) simp_all
    ultimately show ?thesis
      unfolding if_not_P [OF ex] using hit(1) by blast
  qed
qed

theorem pmm_alloc_pages_first_fit_witness:
  "\<exists>s a t. pmm_ready s \<and> pmm_alloc_pages 3 s = Some (a, t) \<and> a = 512 * PAGE_SIZE \<and> pmm_ready t"
proof -
  from pmm_boot_example obtain s where s: "pmm_ready s" "pmm_region s = {512 ..< 2048}" "pmm_region s \<inter> used_set s = {}"
    by blast
  have run: "{512 ..< 512 + 3} \<subseteq> pmm_region s" "{512 ..< 512 + 3} \<inter> used_set s = {}"
    using s(2,3) by auto
  then have cond: "\<not> (3 = (0 :: nat) \<or> (\<forall>p. {p ..< p + 3} \<subseteq> pmm_region s \<longrightarrow> {p ..< p + 3} \<inter> used_set s \<noteq> {}))"
    by fastforce
  from pmm_alloc_pages_first_fit [OF s(1), of 3, unfolded if_not_P [OF cond]] obtain a t p where
    p: "pmm_alloc_pages 3 s = Some (a, t)" "pmm_ready t" "a = p * PAGE_SIZE" "{p ..< p + 3} \<subseteq> pmm_region s"
    "\<forall>q < p. {q ..< q + 3} \<subseteq> pmm_region s \<longrightarrow> {q ..< q + 3} \<inter> used_set s \<noteq> {}"
    by blast
  have "p \<in> pmm_region s"
    using p(4) by force
  moreover have "\<not> 512 < p"
    using p(5) run by blast
  ultimately have "p = 512"
    using s(2) by simp
  then show ?thesis
    using s(1) p(1-3) by blast
qed

text \<open>
  C15. \<open>pmm_free_pages\<close> undoes \<open>pmm_alloc_pages\<close>: freeing a successful allocation
  with its page count gives back exactly the set of used pages, and the page count, of
  before, and both calls return.
\<close>

theorem pmm_alloc_free_roundtrip:
  assumes "pmm_ready s" and "pmm_alloc_pages count s = Some (a, t)" and "a \<noteq> 0"
  shows "\<exists>u. pmm_free_pages a count t = Some u \<and> pmm_ready u \<and> used_set u = used_set s \<and>
    used_pages u = used_pages s"
proof -
  obtain u where u: "pmm_free_pages a count t = Some u" "pmm_ready u" "used_set u = used_set s"
    "pmm_region u = pmm_region s"
    using pages.alloc_free_restores [OF assms] by blast
  have "pmm_region s \<noteq> {}"
    using pages.alloc_law [OF assms(1), of count] assms(2,3) by fastforce
  then have "managed_pages u = managed_pages s"
    using pmm_region_managed u(4) by blast
  then show ?thesis
    using u assms(1) by (simp add: pmm_ready_def pmm_inv_defs)
qed

theorem pmm_alloc_free_roundtrip_witness:
  "\<exists>s a t u. pmm_ready s \<and> pmm_alloc_pages 3 s = Some (a, t) \<and> a \<noteq> 0 \<and> pmm_free_pages a 3 t = Some u \<and>
     used_set u = used_set s"
proof -
  from pmm_boot_example obtain s where s: "pmm_ready s" "pmm_region s = {512 ..< 2048}" "pmm_region s \<inter> used_set s = {}"
    and reserved: "reserved_pages s = 512" "managed_pages s = 2048"
    by blast
  from s(1) have inv: "pmm_inv s" by (simp add: pmm_ready_def)
  have "512 + k \<notin> used_set s" if "k < 3" for k
    using s(2,3) that by (simp add: disjoint_iff)
  then have free: "free_run s 512 3"
    by (auto simp: free_run_def used_set_def le_iff_add)
  from inv obtain a t where "pmm_alloc_pages 3 s = Some (a, t)" "a \<noteq> 0"
    using free reserved by (cases rule: pmm_alloc_cases [where count = 3]) auto
  with pmm_alloc_free_roundtrip [OF s(1) this] s(1) show ?thesis
    by blast
qed

text \<open>
  \<open>pmm_self_test\<close> succeeds and leaves no trace in the page accounting whenever three
  consecutive pages are free.
\<close>

theorem pmm_self_test_passes:
  assumes "pmm_ready s" and "{p ..< p + 3} \<subseteq> pmm_region s" and "{p ..< p + 3} \<inter> used_set s = {}"
  shows "\<exists>t mem'. pmm_self_test s mem = Some (0, t, mem') \<and> pmm_ready t \<and> used_set t = used_set s \<and>
    used_pages t = used_pages s"
proof -
  obtain s1 st1 where s1: "pmm_get_stats s = Some (st1, s1)" "pmm_ready s1" "used_set s1 = used_set s"
      "pmm_region s1 = pmm_region s" "used_pages s1 = used_pages s" "managed_pages s1 = managed_pages s"
    and st1: "st_used_pages st1 = used_pages s" "st_free_pages st1 = sub32 (managed_pages s) (used_pages s)"
    using pmm_get_stats_ok [OF assms(1)] by blast
  have inv1: "pmm_inv s1"
    using s1(2) by (simp add: pmm_ready_def)
  obtain a s2 where a: "pmm_alloc_pages 3 s1 = Some (a, s2)" "a \<noteq> 0" "a mod PAGE_SIZE = 0"
      "pmm_ready s2" "used_pages s2 = used_pages s + 3"
    using inv1
  proof (cases rule: pmm_alloc_cases [where count = 3])
    case (fail t)
    have "free_run s1 p 3"
      using assms(2,3) pmm_region_less [OF inv1] unfolding s1(3,4) [symmetric]
      by (force simp: free_run_def used_set_def)
    then show ?thesis
      using fail(7) assms(2) unfolding s1(4) [symmetric] by (auto simp: run_in_region)
  next
    case (hit q t)
    then show ?thesis
      using that [of "q * PAGE_SIZE" t] s1(2,5) by (simp add: pmm_ready_def)
  qed
  obtain s3 st3 where s3: "pmm_get_stats s2 = Some (st3, s3)" "pmm_ready s3" "used_set s3 = used_set s2"
      "pmm_region s3 = pmm_region s2" "managed_pages s3 = managed_pages s2" "st_used_pages st3 = used_pages s + 3"
    using pmm_get_stats_ok [OF a(4)] a(5) by fastforce
  obtain s4 where s4: "pmm_free_pages a 3 s3 = Some s4" "pmm_ready s4" "used_set s4 = used_set s"
      "pmm_region s4 = pmm_region s"
    using pmm_free_after_alloc [OF s1(2) a(1,2) s3(2-4)] s1(3,4) by auto
  have man: "managed_pages s4 = managed_pages s"
    using pmm_region_managed [OF s4(4)] assms(2) by force
  then have used: "used_pages s4 = used_pages s"
    using s4(3) assms(1) s4(2) by (simp add: pmm_used_pages_eq)
  obtain s5 st5 where s5: "pmm_get_stats s4 = Some (st5, s5)" "pmm_ready s5" "used_set s5 = used_set s"
      "used_pages s5 = used_pages s" "st_used_pages st5 = used_pages s"
      "st_free_pages st5 = sub32 (managed_pages s) (used_pages s)"
    using pmm_get_stats_ok [OF s4(2)] s4(3) used man by fastforce
  have "add64 (used_pages s) 3 = used_pages s + 3"
    using pmm_used_pages_bound [OF assms(1)] by (intro add64_small) simp
  then show ?thesis
    using s1(1) a(1-3) s3(1,6) s4(1) s5 st1 by (simp add: pmm_self_test_def)
qed

text \<open>
  C32. \<open>pmm_init\<close> hands out exactly the mapped memory behind the kernel: it returns, its
  result satisfies the invariant, and a page belongs to the dynamic region, and is free,
  exactly when it starts at or after the end of the kernel and ends within the reported
  memory and the first GiB.
\<close>

theorem pmm_init_frees_memory_behind_kernel:
  assumes "0 < kernel_end" and "kernel_end < 2 ^ 43" and "memory_kib < 2 ^ 54" and "4 \<le> memory_kib"
  shows "\<exists>t. pmm_init memory_kib kernel_end s = Some t \<and> pmm_ready t \<and>
    pmm_region t \<inter> used_set t = {} \<and>
    (\<forall>p. p \<in> pmm_region t \<longleftrightarrow>
       kernel_end \<le> p * PAGE_SIZE \<and> (p + 1) * PAGE_SIZE \<le> min (memory_kib * 1024) 0x40000000)"
proof -
  from pmm_init_ok [of memory_kib kernel_end "0x40000000" s] obtain t where
      t: "pmm_init memory_kib kernel_end s = Some t" "pmm_inv t"
      "used_set t = {..<PMM_MAX_PAGES} - pmm_region t"
    and man: "managed_pages t = min ((memory_kib * 1024) mod 2 ^ 64)
      (if 0x40000000 = (0 :: nat) \<or> (0x40000000 :: nat) > 0x100000000 then 0x40000000 else 0x40000000) div PAGE_SIZE"
    and res: "reserved_pages t = min ((add64 kernel_end 4095 div PAGE_SIZE) mod 2 ^ 32) (managed_pages t)"
    unfolding pmm_init_def by (elim exE conjE)
  have man': "managed_pages t = min (memory_kib * 1024) 0x40000000 div PAGE_SIZE"
    using assms(3) by (simp add: man)
  have res': "reserved_pages t = min ((kernel_end + 4095) div PAGE_SIZE) (managed_pages t)"
    using assms(2) by (simp add: res add64_small)
  have "4096 \<le> min (memory_kib * 1024) 0x40000000"
    using assms(4) by simp
  then have "0 < managed_pages t"
    unfolding man' by (simp only: div_greater_zero_iff) simp
  moreover have "0 < (kernel_end + 4095) div PAGE_SIZE"
    using assms(1) by (simp only: div_greater_zero_iff) simp
  ultimately have "pmm_ready t"
    unfolding pmm_ready_def res' using t(2) by simp
  moreover have "p \<in> pmm_region t \<longleftrightarrow>
      kernel_end \<le> p * PAGE_SIZE \<and> (p + 1) * PAGE_SIZE \<le> min (memory_kib * 1024) 0x40000000" for p
  proof -
    have "(kernel_end + 4095) div PAGE_SIZE \<le> p \<longleftrightarrow> kernel_end \<le> p * PAGE_SIZE"
      by linarith
    moreover have "p < x div PAGE_SIZE \<longleftrightarrow> (p + 1) * PAGE_SIZE \<le> x" for x
      using less_eq_div_iff_mult_less_eq [of PAGE_SIZE "Suc p" x] by (simp add: Suc_le_eq)
    then have "p < managed_pages t \<longleftrightarrow> (p + 1) * PAGE_SIZE \<le> min (memory_kib * 1024) 0x40000000"
      unfolding man' .
    ultimately show ?thesis
      unfolding pmm_region_def res' by auto
  qed
  ultimately show ?thesis
    using t(1,3) by blast
qed

theorem pmm_init_frees_memory_behind_kernel_witness:
  "\<forall>s. \<exists>t. pmm_init 8192 0x200000 s = Some t \<and> pmm_ready t \<and> 512 \<in> pmm_region t \<and> 512 \<notin> used_set t"
proof
  fix s
  have "\<exists>t. pmm_init 8192 0x200000 s = Some t \<and> pmm_ready t \<and> pmm_region t \<inter> used_set t = {} \<and>
    (\<forall>p. p \<in> pmm_region t \<longleftrightarrow>
       0x200000 \<le> p * PAGE_SIZE \<and> (p + 1) * PAGE_SIZE \<le> min (8192 * 1024) 0x40000000)"
    by (rule pmm_init_frees_memory_behind_kernel) simp_all
  then obtain t where t: "pmm_init 8192 0x200000 s = Some t" "pmm_ready t" "pmm_region t \<inter> used_set t = {}"
    and region: "p \<in> pmm_region t \<longleftrightarrow>
       0x200000 \<le> p * PAGE_SIZE \<and> (p + 1) * PAGE_SIZE \<le> min (8192 * 1024) 0x40000000" for p
    by blast
  have "512 \<in> pmm_region t"
    by (subst region) simp
  with t show "\<exists>t. pmm_init 8192 0x200000 s = Some t \<and> pmm_ready t \<and> 512 \<in> pmm_region t \<and> 512 \<notin> used_set t"
    by blast
qed

text \<open>
  The bounds check of \<open>pmm_free_pages\<close> compares the 32-bit sum \<open>start + count\<close>. A
  count for which that sum wraps around to a small number passes the check, and the loop
  then leaves the bitmap: the call has no normal result.
\<close>

theorem pmm_free_pages_count_wrap:
  assumes "pmm_ready s" and "start \<in> pmm_region s" and "count < 2 ^ 32"
    and "2 ^ 32 \<le> start + count" and "start + count \<le> 2 ^ 32 + managed_pages s"
  shows "add32 start count \<le> managed_pages s \<and> pmm_free_pages (start * PAGE_SIZE) count s = None"
proof -
  have inv: "pmm_inv s"
    using assms(1) by (simp add: pmm_ready_def)
  have start: "start < PMM_MAX_PAGES" "reserved_pages s \<le> start"
    using pmm_region_less [OF inv assms(2)] assms(2) by (simp_all add: pmm_region_def)
  have guard: "add32 start count \<le> managed_pages s"
  proof -
    have "start + count - 2 ^ 32 < 2 ^ 32"
      using start(1) assms(3) by simp
    then have "add32 start count = start + count - 2 ^ 32"
      unfolding add32_def using assms(4) by (simp only: le_mod_geq mod_less)
    then show ?thesis
      using assms(5) by linarith
  qed
  have "for_each (\<lambda>page. free_page (add32 start page)) [0 ..< count] u = None" for u
  proof (rule for_each_None)
    show "PMM_MAX_PAGES - start \<in> set [0 ..< count]"
      using assms(4) start(1) by simp
    show "free_page (add32 start (PMM_MAX_PAGES - start)) v = None" for v
      using start(1) by (simp add: add32_small free_page_def page_used_def arr_get_def)
  qed
  moreover have "0 < count" "sl_state (pmm_lock s) = 0" "(start * PAGE_SIZE div PAGE_SIZE) mod 2 ^ 32 = start"
    using assms(4) start(1) inv by (simp_all add: pmm_inv_def)
  ultimately show ?thesis
    using guard start(2) by (simp add: pmm_free_pages_def)
qed

end
