(* ===== verification/Memory.thy ===== *)
theory Memory
  imports Prelude
begin

section \<open>Byte-addressed memory\<close>

text \<open>
  The flat memory the C code works on: a byte per address, little-endian fields of one to
  eight bytes, and the three byte loops (fill, copy, compare) that the components write out
  by hand. Addresses are naturals; pointer arithmetic does not wrap. The lemmas are the
  frame rules for fields at disjoint addresses, collected in \<open>mem_simps\<close>.
\<close>

type_synonym mem = "nat \<Rightarrow> u8"

named_theorems mem_simps "loads and stores of fields at disjoint addresses"

fun ld :: "mem \<Rightarrow> nat \<Rightarrow> nat \<Rightarrow> nat" where
  "ld m a 0 = 0"
| "ld m a (Suc n) = unat (m a) + 256 * ld m (a + 1) n"

fun st :: "mem \<Rightarrow> nat \<Rightarrow> nat \<Rightarrow> nat \<Rightarrow> mem" where
  "st m a 0 v = m"
| "st m a (Suc n) v = st (m(a := word_of_nat v)) (a + 1) n (v div 256)"

text \<open>\<open>for (i = 0; i < n; i++) p[i] = v;\<close>\<close>

fun fill_loop :: "nat \<Rightarrow> nat \<Rightarrow> nat \<Rightarrow> u8 \<Rightarrow> mem \<Rightarrow> mem" where
  "fill_loop i 0 a v m = m"
| "fill_loop i (Suc n) a v m = fill_loop (i + 1) n a v (m(a + i := v))"

abbreviation mem_fill :: "nat \<Rightarrow> nat \<Rightarrow> u8 \<Rightarrow> mem \<Rightarrow> mem" where
  "mem_fill a n v m \<equiv> fill_loop 0 n a v m"

text \<open>\<open>for (i = 0; i < n; i++) d[i] = s[i];\<close>\<close>

fun copy_loop :: "nat \<Rightarrow> nat \<Rightarrow> nat \<Rightarrow> nat \<Rightarrow> mem \<Rightarrow> mem" where
  "copy_loop i 0 d s m = m"
| "copy_loop i (Suc n) d s m = copy_loop (i + 1) n d s (m(d + i := m (s + i)))"

abbreviation mem_copy_fwd :: "nat \<Rightarrow> nat \<Rightarrow> nat \<Rightarrow> mem \<Rightarrow> mem" where
  "mem_copy_fwd d s n m \<equiv> copy_loop 0 n d s m"

text \<open>\<open>for (i = n; i != 0; i--) d[i - 1] = s[i - 1];\<close>\<close>

fun copy_back :: "nat \<Rightarrow> nat \<Rightarrow> nat \<Rightarrow> mem \<Rightarrow> mem" where
  "copy_back d s 0 m = m"
| "copy_back d s (Suc n) m = copy_back d s n (m(d + n := m (s + n)))"

subsection \<open>Fields\<close>

lemma ld_less: "ld m a n < 256 ^ n"
proof (induction n arbitrary: a)
  case (Suc n)
  have "unat (m a) < 256"
    by (rule order_less_le_trans [OF unsigned_less]) simp
  then show ?case
    using Suc [of "a + 1"] by simp
qed simp

lemma ld_cong: "(\<And>i. i < n \<Longrightarrow> m (a + i) = m' (a + i)) \<Longrightarrow> ld m a n = ld m' a n"
proof (induction n arbitrary: a)
  case (Suc n)
  have "ld m (a + 1) n = ld m' (a + 1) n"
    by (rule Suc.IH) (use Suc.prems [of "Suc _"] in simp)
  then show ?case
    using Suc.prems [of 0] by simp
qed simp

lemma st_outside [mem_simps]: "i < a \<or> a + n \<le> i \<Longrightarrow> st m a n v i = m i"
  by (induction n arbitrary: m a v) auto

lemma ld_same_bytes: "(\<And>i. a \<le> i \<Longrightarrow> i < a + n \<Longrightarrow> m i = m' i) \<Longrightarrow> ld m a n = ld m' a n"
  by (rule ld_cong) simp

lemma ld_st_other [mem_simps]: "b + k \<le> a \<or> a + n \<le> b \<Longrightarrow> ld (st m a n v) b k = ld m b k"
  by (rule ld_same_bytes) (auto intro: st_outside)

lemma ld_st_mod [mem_simps]: "ld (st m a n v) a n = v mod 256 ^ n"
proof (induction n arbitrary: m a v)
  case (Suc n)
  have "st (m(a := word_of_nat v)) (a + 1) n (v div 256) a = word_of_nat v"
    by (simp add: st_outside)
  then show ?case
    by (simp add: Suc unat_of_nat mod_mult2_eq)
qed simp

lemma ld_st_small: "v < 256 ^ n \<Longrightarrow> ld (st m a n v) a n = v"
  by (simp add: ld_st_mod)

declare ld.simps(2) [simp del] st.simps(2) [simp del]

subsection \<open>Byte loops\<close>

lemma fill_loop_eq:
  "fill_loop i n a v m = (\<lambda>x. if a + i \<le> x \<and> x < a + i + n then v else m x)"
  by (induction n arbitrary: i m) (auto simp: fun_eq_iff)

lemma mem_fill_eq [mem_simps]: "mem_fill a n v m x = (if a \<le> x \<and> x < a + n then v else m x)"
  by (simp add: fill_loop_eq)

lemma ld_fill_other [mem_simps]: "b + k \<le> a \<or> a + n \<le> b \<Longrightarrow> ld (mem_fill a n v m) b k = ld m b k"
  by (rule ld_same_bytes) (auto simp: mem_fill_eq)

text \<open>
  The forward copy is right when the target does not start inside the source, the backward
  copy when it does not end inside it.
\<close>

lemma copy_loop_eq:
  "d \<le> s \<or> s + i + n \<le> d + i \<Longrightarrow>
   copy_loop i n d s m = (\<lambda>x. if d + i \<le> x \<and> x < d + i + n then m (s + (x - d)) else m x)"
proof (induction n arbitrary: i m)
  case (Suc n)
  have "d \<le> s \<or> s + (i + 1) + n \<le> d + (i + 1)"
    using Suc.prems by auto
  from Suc.IH [OF this] show ?case
    using Suc.prems by (auto simp: fun_eq_iff)
qed (auto simp: fun_eq_iff)

lemma copy_back_eq:
  "s \<le> d \<or> d + n \<le> s \<Longrightarrow>
   copy_back d s n m = (\<lambda>x. if d \<le> x \<and> x < d + n then m (s + (x - d)) else m x)"
proof (induction n arbitrary: m)
  case (Suc n)
  have "s \<le> d \<or> d + n \<le> s"
    using Suc.prems by auto
  from Suc.IH [OF this] show ?case
    using Suc.prems by (auto simp: fun_eq_iff)
qed (auto simp: fun_eq_iff)

subsection \<open>The interface of a field of a byte buffer\<close>

text \<open>
  A codec reads and writes one fixed-width field at an offset of a buffer. Its laws are that
  a store is read back, that it touches only its own bytes, and that a load depends on
  nothing else; the clients get that fields at disjoint offsets are independent.
\<close>

locale field_codec =
  fixes byte :: "'m \<Rightarrow> nat \<Rightarrow> u8"
    and load :: "'m \<Rightarrow> nat \<Rightarrow> 'w"
    and store :: "'m \<Rightarrow> nat \<Rightarrow> 'w \<Rightarrow> 'm"
    and width :: nat
    and valid :: "'m \<Rightarrow> nat \<Rightarrow> bool"
  assumes load_store: "valid m a \<Longrightarrow> load (store m a v) a = v"
    and store_frame: "i < a \<or> a + width \<le> i \<Longrightarrow> byte (store m a v) i = byte m i"
    and load_bytes: "valid m a \<Longrightarrow> valid m' a \<Longrightarrow> (\<And>i. i < width \<Longrightarrow> byte m (a + i) = byte m' (a + i)) \<Longrightarrow>
      load m a = load m' a"
    and store_valid: "valid (store m a v) b \<longleftrightarrow> valid m b"
begin

lemma load_store_other:
  assumes "valid m b" and "b + width \<le> a \<or> a + width \<le> b"
  shows "load (store m a v) b = load m b"
proof (rule load_bytes)
  show "valid (store m a v) b" and "valid m b"
    using assms(1) by (simp_all add: store_valid)
  show "byte (store m a v) (b + i) = byte m (b + i)" if "i < width" for i
    using assms(2) that by (intro store_frame) auto
qed

lemma store_store_commute_load:
  assumes "valid m a" and "valid m b" and "b + width \<le> a \<or> a + width \<le> b"
  shows "load (store (store m a v) b w) a = v \<and> load (store (store m a v) b w) b = w"
  using assms load_store_other [of "store m a v" a b w] load_store [of m a v] load_store [of "store m a v" b w]
  by (auto simp: store_valid)

end

end
