(* ===== verification/Heap.thy ===== *)
theory Heap
  imports Memory Sync
begin

section \<open>Kernel heap (\<open>src/memory/heap.c\<close>)\<close>

text \<open>
  The heap is a doubly linked list of blocks in byte-addressed memory: every access to a
  field of a \<open>heap_block_t\<close> is a load or store of its bytes, at the offsets the C layout
  gives it (40 bytes in all). \<open>None\<close> is a call that does not return: it waits for a lock
  it holds, panics on a corrupted canary, or dereferences an address before the first
  possible block.
\<close>

abbreviation HEAP_BYTES :: nat where "HEAP_BYTES \<equiv> 1048576"
abbreviation HEAP_MAGIC :: nat where "HEAP_MAGIC \<equiv> 0x4D564848"
abbreviation HEAP_CANARY :: nat where "HEAP_CANARY \<equiv> 0xC0DEFACEBADC0FFE"
abbreviation HEAP_POISON :: u8 where "HEAP_POISON \<equiv> 0xDD"

record heap =
  hmem :: mem
  heap_first :: nat
  heap_used :: nat
  heap_allocations :: nat
  heap_failures :: nat
  heap_invalid_frees :: nat
  heap_lock :: spinlock_t

subsection \<open>The fields of a block header\<close>

definition blk_magic :: "heap \<Rightarrow> nat \<Rightarrow> nat" where "blk_magic s b = ld (hmem s) b 4"
definition blk_free :: "heap \<Rightarrow> nat \<Rightarrow> nat" where "blk_free s b = ld (hmem s) (b + 4) 1"
definition blk_size :: "heap \<Rightarrow> nat \<Rightarrow> nat" where "blk_size s b = ld (hmem s) (b + 8) 8"
definition blk_requested :: "heap \<Rightarrow> nat \<Rightarrow> nat" where "blk_requested s b = ld (hmem s) (b + 16) 8"
definition blk_next :: "heap \<Rightarrow> nat \<Rightarrow> nat" where "blk_next s b = ld (hmem s) (b + 24) 8"
definition blk_previous :: "heap \<Rightarrow> nat \<Rightarrow> nat" where "blk_previous s b = ld (hmem s) (b + 32) 8"

definition set_magic :: "nat \<Rightarrow> nat \<Rightarrow> heap \<Rightarrow> heap" where
  "set_magic b v s = s\<lparr>hmem := st (hmem s) b 4 v\<rparr>"
definition set_free :: "nat \<Rightarrow> nat \<Rightarrow> heap \<Rightarrow> heap" where
  "set_free b v s = s\<lparr>hmem := st (hmem s) (b + 4) 1 v\<rparr>"
definition set_size :: "nat \<Rightarrow> nat \<Rightarrow> heap \<Rightarrow> heap" where
  "set_size b v s = s\<lparr>hmem := st (hmem s) (b + 8) 8 v\<rparr>"
definition set_requested :: "nat \<Rightarrow> nat \<Rightarrow> heap \<Rightarrow> heap" where
  "set_requested b v s = s\<lparr>hmem := st (hmem s) (b + 16) 8 v\<rparr>"
definition set_next :: "nat \<Rightarrow> nat \<Rightarrow> heap \<Rightarrow> heap" where
  "set_next b v s = s\<lparr>hmem := st (hmem s) (b + 24) 8 v\<rparr>"
definition set_previous :: "nat \<Rightarrow> nat \<Rightarrow> heap \<Rightarrow> heap" where
  "set_previous b v s = s\<lparr>hmem := st (hmem s) (b + 32) 8 v\<rparr>"

definition block_canary :: "heap \<Rightarrow> nat \<Rightarrow> nat" where
  "block_canary s block = block + 40 + blk_size s block - 8"

definition canary_value :: "nat \<Rightarrow> nat" where
  "canary_value block = HEAP_CANARY XOR block"

text \<open>The constant \<open>~15u\<close> has 32 bits, so the mask is \<open>0xFFFFFFF0\<close>.\<close>

definition align16 :: "nat \<Rightarrow> nat" where
  "align16 v = add64 v 15 AND 0xFFFFFFF0"

subsection \<open>Operations\<close>

definition heap_format :: "heap \<Rightarrow> heap" where
  "heap_format s =
     (let b = heap_first s;
          s = set_magic b HEAP_MAGIC s;
          s = set_free b 1 s;
          s = set_size b (HEAP_BYTES - 40) s;
          s = set_requested b 0 s;
          s = set_next b 0 s;
          s = set_previous b 0 s
      in s\<lparr>heap_used := 0, heap_allocations := 0, heap_failures := 0, heap_invalid_frees := 0\<rparr>)"

definition kmalloc_split :: "nat \<Rightarrow> nat \<Rightarrow> heap \<Rightarrow> heap" where
  "kmalloc_split block sz s =
     (let split = block + 40 + sz;
          s = set_magic split HEAP_MAGIC s;
          s = set_free split 1 s;
          s = set_size split (sub64 (sub64 (blk_size s block) sz) 40) s;
          s = set_requested split 0 s;
          s = set_next split (blk_next s block) s;
          s = set_previous split block s;
          s = (if blk_next s split \<noteq> 0 then set_previous (blk_next s split) split s else s);
          s = set_next block split s
      in set_size block sz s)"

definition kmalloc_take :: "nat \<Rightarrow> nat \<Rightarrow> nat \<Rightarrow> heap \<Rightarrow> nat \<times> heap" where
  "kmalloc_take block sz requested s =
     (let s = (if blk_size s block \<ge> add64 (add64 sz 40) 16 then kmalloc_split block sz s else s);
          s = set_free block 0 s;
          s = set_requested block requested s;
          s = s\<lparr>hmem := st (hmem s) (block_canary s block) 8 (canary_value block)\<rparr>;
          s = s\<lparr>heap_used := add64 (heap_used s) (blk_size s block),
                heap_allocations := add64 (heap_allocations s) 1\<rparr>
      in (block + 40, s))"

partial_function (option) kmalloc_scan :: "nat \<Rightarrow> nat \<Rightarrow> nat \<Rightarrow> heap \<Rightarrow> (nat \<times> heap) option" where
  "kmalloc_scan block sz requested s =
     (if block = 0 then Some (0, s\<lparr>heap_failures := add64 (heap_failures s) 1\<rparr>)
      else if blk_magic s block \<noteq> HEAP_MAGIC then Some (0, s)
      else if blk_free s block \<noteq> 0 \<and> blk_size s block \<ge> sz
      then Some (kmalloc_take block sz requested s)
      else kmalloc_scan (blk_next s block) sz requested s)"

definition kmalloc_unlocked :: "nat \<Rightarrow> heap \<Rightarrow> (nat \<times> heap) option" where
  "kmalloc_unlocked sz s =
     (if sz = 0 then Some (0, s)
      else if sz > UINT64_MAX - 8 - 15 then Some (0, s\<lparr>heap_failures := add64 (heap_failures s) 1\<rparr>)
      else let aligned = align16 (add64 sz 8) in
        if aligned = 0 \<or> heap_first s = 0 then Some (0, s)
        else kmalloc_scan (heap_first s) aligned sz s)"

definition merge_next :: "nat \<Rightarrow> heap \<Rightarrow> heap" where
  "merge_next block s =
     (if blk_next s block \<noteq> 0 \<and> blk_free s (blk_next s block) \<noteq> 0 \<and>
         blk_magic s (blk_next s block) = HEAP_MAGIC
      then let s = set_size block (add64 (blk_size s block) (add64 40 (blk_size s (blk_next s block)))) s;
               s = set_next block (blk_next s (blk_next s block)) s
           in if blk_next s block \<noteq> 0 then set_previous (blk_next s block) block s else s
      else s)"

definition merge_previous :: "nat \<Rightarrow> heap \<Rightarrow> heap" where
  "merge_previous block s =
     (let previous = blk_previous s block in
      if previous \<noteq> 0 \<and> blk_free s previous \<noteq> 0 \<and> blk_magic s previous = HEAP_MAGIC
      then let s = set_size previous (add64 (blk_size s previous) (add64 40 (blk_size s block))) s;
               s = set_next previous (blk_next s block) s
           in if blk_next s block \<noteq> 0 then set_previous (blk_next s block) previous s else s
      else s)"

definition kfree_release :: "nat \<Rightarrow> heap \<Rightarrow> heap" where
  "kfree_release block s =
     (let s = set_free block 1 s;
          s = s\<lparr>hmem := mem_fill (block + 40) (blk_size s block) HEAP_POISON (hmem s)\<rparr>;
          s = set_requested block 0 s
      in s\<lparr>heap_used := sub64 (heap_used s) (blk_size s block),
           heap_allocations := sub64 (heap_allocations s) 1\<rparr>)"

definition kfree_unlocked :: "nat \<Rightarrow> heap \<Rightarrow> heap option" where
  "kfree_unlocked address s =
     (if address = 0 then Some s
      else if address < 40 then None
      else let block = address - 40 in
        if blk_magic s block \<noteq> HEAP_MAGIC \<or> blk_free s block \<noteq> 0
        then Some (s\<lparr>heap_invalid_frees := add64 (heap_invalid_frees s) 1\<rparr>)
        else if ld (hmem s) (block_canary s block) 8 \<noteq> canary_value block then None
        else Some (merge_previous block (merge_next block (kfree_release block s))))"

definition kmalloc :: "nat \<Rightarrow> heap \<Rightarrow> (nat \<times> heap) option" where
  "kmalloc sz s = do {
     lock \<leftarrow> spinlock_lock (heap_lock s);
     (result, s) \<leftarrow> kmalloc_unlocked sz (s\<lparr>heap_lock := lock\<rparr>);
     Some (result, s\<lparr>heap_lock := spinlock_unlock (heap_lock s)\<rparr>)
   }"

definition kfree :: "nat \<Rightarrow> heap \<Rightarrow> heap option" where
  "kfree address s = do {
     lock \<leftarrow> spinlock_lock (heap_lock s);
     s \<leftarrow> kfree_unlocked address (s\<lparr>heap_lock := lock\<rparr>);
     Some (s\<lparr>heap_lock := spinlock_unlock (heap_lock s)\<rparr>)
   }"

definition heap_total_bytes :: nat where "heap_total_bytes = HEAP_BYTES"
definition heap_used_bytes :: "heap \<Rightarrow> nat" where "heap_used_bytes s = heap_used s"
definition heap_allocation_count :: "heap \<Rightarrow> nat" where "heap_allocation_count s = heap_allocations s"

definition kcalloc :: "nat \<Rightarrow> nat \<Rightarrow> heap \<Rightarrow> (nat \<times> heap) option" where
  "kcalloc count sz s =
     (if count = 0 \<or> sz = 0 then Some (0, s)
      else if sz > UINT64_MAX div count then Some (0, s\<lparr>heap_failures := add64 (heap_failures s) 1\<rparr>)
      else let total = (count * sz) mod 2 ^ 64 in do {
        (address, s) \<leftarrow> kmalloc total s;
        if address = 0 then Some (0, s)
        else Some (address, s\<lparr>hmem := mem_fill address total 0 (hmem s)\<rparr>)
      })"

definition krealloc :: "nat \<Rightarrow> nat \<Rightarrow> heap \<Rightarrow> (nat \<times> heap) option" where
  "krealloc address sz s =
     (if address = 0 then kmalloc sz s
      else if sz = 0 then do { s \<leftarrow> kfree address s; Some (0, s) }
      else if address < 40 then None
      else do {
        lock \<leftarrow> spinlock_lock (heap_lock s);
        let s = s\<lparr>heap_lock := lock\<rparr>;
        let block = address - 40;
        let release = (\<lambda>s. s\<lparr>heap_lock := spinlock_unlock (heap_lock s)\<rparr>);
        if blk_magic s block \<noteq> HEAP_MAGIC \<or> blk_free s block \<noteq> 0
        then Some (0, release (s\<lparr>heap_invalid_frees := add64 (heap_invalid_frees s) 1\<rparr>))
        else if ld (hmem s) (block_canary s block) 8 \<noteq> canary_value block then None
        else if sz \<le> blk_requested s block
        then Some (address, release (set_requested block sz s))
        else do {
          (replacement, s) \<leftarrow> kmalloc_unlocked sz s;
          if replacement = 0 then Some (0, release s)
          else do {
            let s = s\<lparr>hmem := mem_copy_fwd replacement address (blk_requested s block) (hmem s)\<rparr>;
            s \<leftarrow> kfree_unlocked address s;
            Some (replacement, release s)
          }
        }
      })"

record heap_stats_t =
  total_bytes :: nat
  used_bytes :: nat
  free_bytes :: nat
  largest_free_block :: nat
  allocations :: nat
  allocation_failures :: nat
  invalid_frees :: nat
  blocks :: nat
  free_blocks :: nat

partial_function (option) stats_walk :: "nat \<Rightarrow> heap \<Rightarrow> heap_stats_t \<Rightarrow> heap_stats_t option" where
  "stats_walk block s stats =
     (if block \<noteq> 0 \<and> blk_magic s block = HEAP_MAGIC \<and> blocks stats < 65536
      then let stats = stats\<lparr>blocks := blocks stats + 1\<rparr>;
               stats = (if blk_free s block \<noteq> 0
                 then stats\<lparr>free_blocks := free_blocks stats + 1,
                   free_bytes := add64 (free_bytes stats) (blk_size s block),
                   largest_free_block := (if blk_size s block > largest_free_block stats
                     then blk_size s block else largest_free_block stats)\<rparr>
                 else stats)
           in stats_walk (blk_next s block) s stats
      else Some stats)"

definition heap_get_stats :: "heap \<Rightarrow> heap_stats_t option" where
  "heap_get_stats s = stats_walk (heap_first s) s
     \<lparr>total_bytes = heap_total_bytes, used_bytes = heap_used s, free_bytes = 0, largest_free_block = 0,
      allocations = heap_allocations s, allocation_failures = heap_failures s,
      invalid_frees = heap_invalid_frees s, blocks = 0, free_blocks = 0\<rparr>"

partial_function (option) validate_walk :: "nat \<Rightarrow> nat \<Rightarrow> nat \<Rightarrow> heap \<Rightarrow> int option" where
  "validate_walk block previous count s =
     (let heap_start = heap_first s;
          heap_end = add64 heap_start HEAP_BYTES;
          block_end = add64 (add64 block 40) (blk_size s block)
      in if block = 0 then Some 0
      else if block < heap_start \<or> add64 block 40 > heap_end \<or> blk_magic s block \<noteq> HEAP_MAGIC \<or>
         blk_previous s block \<noteq> previous then Some (- 1)
      else if block_end > heap_end \<or> count + 1 > 65536 then Some (- 1)
      else if blk_next s block \<noteq> 0 \<and> blk_next s block \<noteq> block_end then Some (- 1)
      else if blk_free s block = 0 \<and> ld (hmem s) (block_canary s block) 8 \<noteq> canary_value block
      then Some (- 1)
      else validate_walk (blk_next s block) block (count + 1) s)"

definition heap_validate :: "heap \<Rightarrow> int option" where
  "heap_validate s = validate_walk (heap_first s) 0 0 s"

text \<open>
  The self test writes a pattern through the first block and reads it back after the block
  has moved; \<open>release\<close> is its error exit.
\<close>

definition heap_self_test :: "heap \<Rightarrow> (int \<times> heap) option" where
  "heap_self_test s =
     (let used_before = heap_used_bytes s;
          allocations_before = heap_allocation_count s;
          release = (\<lambda>p q s. do { s \<leftarrow> kfree p s; s \<leftarrow> kfree q s; Some (- 1, s) })
      in do {
        (first, s) \<leftarrow> kmalloc 64 s;
        (second, s) \<leftarrow> kcalloc 32 4 s;
        if first = 0 \<or> second = 0 then release first second s
        else if \<exists>index \<in> {..<128}. hmem s (second + index) \<noteq> 0 then release second first s
        else do {
          let s = s\<lparr>hmem := fold (\<lambda>index m. m(first + index := word_of_nat index)) [0 ..< 64] (hmem s)\<rparr>;
          (resized, s) \<leftarrow> krealloc first 256 s;
          if resized = 0 then release second first s
          else do {
            let first = resized;
            if \<exists>index \<in> {..<64}. hmem s (first + index) \<noteq> word_of_nat index then release second first s
            else do {
              (resized, s) \<leftarrow> krealloc first 32 s;
              (overflow, s) \<leftarrow> (if resized \<noteq> first then Some (1, s) else kcalloc UINT64_MAX 2 s);
              if resized \<noteq> first \<or> overflow \<noteq> 0 then release second first s
              else do {
                s \<leftarrow> kfree second s;
                s \<leftarrow> kfree first s;
                valid \<leftarrow> heap_validate s;
                Some (if valid = 0 \<and> heap_used_bytes s = used_before \<and>
                  heap_allocation_count s = allocations_before then 0 else - 1, s)
              }
            }
          }
        }
      })"

end
