(* ===== verification/Heap_Spec.thy ===== *)
theory Heap_Spec
  imports Heap
begin

section \<open>The heap as a list of blocks\<close>

text \<open>
  The abstract heap is the list of its blocks in address order. \<open>seg\<close> says that memory
  holds such a list: headers at the addresses the sizes give, links in both directions, and
  a valid canary at the end of every block in use. The operations of \<open>heap.c\<close> are shown
  to implement first-fit allocation (\<open>abs_alloc\<close>) and release with coalescing
  (\<open>abs_free\<close>) on that list.
\<close>

record block =
  bfree :: bool
  bsize :: nat
  breq :: nat

definition hdr :: "mem \<Rightarrow> nat \<Rightarrow> block \<Rightarrow> nat \<Rightarrow> nat \<Rightarrow> bool" where
  "hdr m a b nxt prv \<longleftrightarrow> ld m a 4 = HEAP_MAGIC \<and> ld m (a + 4) 1 = (if bfree b then 1 else 0) \<and>
     ld m (a + 8) 8 = bsize b \<and> ld m (a + 16) 8 = breq b \<and> ld m (a + 24) 8 = nxt \<and> ld m (a + 32) 8 = prv"

fun extent :: "block list \<Rightarrow> nat" where
  "extent [] = 0"
| "extent (b # bs) = 40 + bsize b + extent bs"

abbreviation ptr :: "nat \<Rightarrow> block list \<Rightarrow> nat \<Rightarrow> nat" where
  "ptr a bs nxt \<equiv> (if bs = [] then nxt else a)"

fun seg :: "mem \<Rightarrow> nat \<Rightarrow> nat \<Rightarrow> block list \<Rightarrow> nat \<Rightarrow> bool" where
  "seg m prv a [] nxt \<longleftrightarrow> True"
| "seg m prv a (b # bs) nxt \<longleftrightarrow>
     hdr m a b (ptr (a + 40 + bsize b) bs nxt) prv \<and>
     (\<not> bfree b \<longrightarrow> 8 \<le> bsize b \<and> ld m (a + 40 + bsize b - 8) 8 = canary_value a) \<and>
     seg m a (a + 40 + bsize b) bs nxt"

fun no_free_pair :: "block list \<Rightarrow> bool" where
  "no_free_pair (b # c # bs) \<longleftrightarrow> \<not> (bfree b \<and> bfree c) \<and> no_free_pair (c # bs)"
| "no_free_pair _ \<longleftrightarrow> True"

definition used_blocks :: "block list \<Rightarrow> block list" where
  "used_blocks bs = filter (\<lambda>b. \<not> bfree b) bs"

definition heap_core :: "heap \<Rightarrow> block list \<Rightarrow> bool" where
  "heap_core s bs \<longleftrightarrow> seg (hmem s) 0 (heap_first s) bs 0 \<and> extent bs = HEAP_BYTES \<and>
     0 < heap_first s \<and> heap_first s + HEAP_BYTES < 2 ^ 64 \<and>
     heap_used s = sum_list (map bsize (used_blocks bs)) \<and>
     heap_allocations s = length (used_blocks bs) \<and> no_free_pair bs \<and>
     (\<forall>b \<in> set bs. bfree b \<longrightarrow> breq b = 0)"

definition heap_inv :: "heap \<Rightarrow> block list \<Rightarrow> bool" where
  "heap_inv s bs \<longleftrightarrow> sl_state (heap_lock s) = 0 \<and> heap_core s bs"

subsection \<open>The abstract operations\<close>

definition fits :: "nat \<Rightarrow> block \<Rightarrow> bool" where
  "fits n b \<longleftrightarrow> bfree b \<and> n \<le> bsize b"

definition carve :: "nat \<Rightarrow> nat \<Rightarrow> block \<Rightarrow> block list" where
  "carve n req b =
     (if n + 56 \<le> bsize b
      then [\<lparr>bfree = False, bsize = n, breq = req\<rparr>, \<lparr>bfree = True, bsize = bsize b - n - 40, breq = 0\<rparr>]
      else [\<lparr>bfree = False, bsize = bsize b, breq = req\<rparr>])"

definition abs_alloc :: "nat \<Rightarrow> nat \<Rightarrow> block list \<Rightarrow> (nat \<times> block list) option" where
  "abs_alloc n req bs =
     (let xs = takeWhile (\<lambda>b. \<not> fits n b) bs in
      case dropWhile (\<lambda>b. \<not> fits n b) bs of
        [] \<Rightarrow> None
      | b # ys \<Rightarrow> Some (extent xs + 40, xs @ carve n req b @ ys))"

definition join_right :: "block \<Rightarrow> block list \<Rightarrow> block list" where
  "join_right b ys =
     (case ys of
        [] \<Rightarrow> [b]
      | y # zs \<Rightarrow> if bfree y then b\<lparr>bsize := bsize b + 40 + bsize y\<rparr> # zs else b # ys)"

definition join_left :: "block list \<Rightarrow> block list \<Rightarrow> block list" where
  "join_left xs bs =
     (if xs \<noteq> [] \<and> bfree (last xs)
      then butlast xs @ (last xs)\<lparr>bsize := bsize (last xs) + 40 + bsize (hd bs)\<rparr> # tl bs
      else xs @ bs)"

definition abs_free :: "block list \<Rightarrow> block \<Rightarrow> block list \<Rightarrow> block list" where
  "abs_free xs b ys = join_left xs (join_right (b\<lparr>bfree := True, breq := 0\<rparr>) ys)"

subsection \<open>Segments\<close>

lemma extent_append [simp]: "extent (xs @ ys) = extent xs + extent ys"
  by (induction xs) auto

definition last_addr :: "nat \<Rightarrow> nat \<Rightarrow> block list \<Rightarrow> nat" where
  "last_addr p a xs = (if xs = [] then p else a + extent (butlast xs))"

lemma last_addr_Nil [simp]: "last_addr p a [] = p"
  by (simp add: last_addr_def)

lemma last_addr_Cons [simp]: "last_addr p a (x # xs) = last_addr a (a + 40 + bsize x) xs"
  by (simp add: last_addr_def)

lemma last_addr_snoc [simp]: "last_addr p a (xs @ [x]) = a + extent xs"
  by (simp add: last_addr_def)

lemma seg_append:
  "seg m p a (xs @ ys) nxt \<longleftrightarrow>
     seg m p a xs (ptr (a + extent xs) ys nxt) \<and> seg m (last_addr p a xs) (a + extent xs) ys nxt"
  by (induction xs arbitrary: p a) (auto simp: add.assoc)

lemma hdr_cong:
  "(\<And>i. a \<le> i \<Longrightarrow> i < a + 40 \<Longrightarrow> m i = m' i) \<Longrightarrow> hdr m a b nxt prv \<longleftrightarrow> hdr m' a b nxt prv"
  unfolding hdr_def
  using ld_same_bytes [of a 4 m m'] ld_same_bytes [of "a + 4" 1 m m'] ld_same_bytes [of "a + 8" 8 m m']
    ld_same_bytes [of "a + 16" 8 m m'] ld_same_bytes [of "a + 24" 8 m m'] ld_same_bytes [of "a + 32" 8 m m']
  by simp

text \<open>A segment does not depend on bytes outside its range.\<close>

lemma seg_cong:
  "(\<And>i. a \<le> i \<Longrightarrow> i < a + extent bs \<Longrightarrow> m i = m' i) \<Longrightarrow> seg m p a bs nxt \<longleftrightarrow> seg m' p a bs nxt"
proof (induction bs arbitrary: p a)
  case (Cons b bs)
  have "seg m a (a + 40 + bsize b) bs nxt \<longleftrightarrow> seg m' a (a + 40 + bsize b) bs nxt"
    by (rule Cons.IH) (use Cons.prems in simp)
  moreover have "hdr m a b n q \<longleftrightarrow> hdr m' a b n q" for n q
    by (rule hdr_cong) (use Cons.prems in simp)
  moreover have "8 \<le> bsize b \<Longrightarrow> ld m (a + 40 + bsize b - 8) 8 = ld m' (a + 40 + bsize b - 8) 8"
    by (rule ld_same_bytes) (use Cons.prems in simp)
  ultimately show ?case
    by auto
qed simp

text \<open>The back link of the first block can be redirected.\<close>

lemma hdr_previous:
  assumes "hdr m a b nxt p" and "\<And>i. a \<le> i \<Longrightarrow> i < a + 32 \<Longrightarrow> m' i = m i" and "ld m' (a + 32) 8 = q"
  shows "hdr m' a b nxt q"
  using assms(1,3) unfolding hdr_def
  using ld_same_bytes [of a 4 m' m] ld_same_bytes [of "a + 4" 1 m' m] ld_same_bytes [of "a + 8" 8 m' m]
    ld_same_bytes [of "a + 16" 8 m' m] ld_same_bytes [of "a + 24" 8 m' m] assms(2)
  by simp

lemma seg_previous:
  assumes "seg m p a ys nxt" and "\<And>i. a \<le> i \<Longrightarrow> i < a + 32 \<or> (a + 40 \<le> i \<and> i < a + extent ys) \<Longrightarrow> m' i = m i"
    and "ys \<noteq> [] \<Longrightarrow> ld m' (a + 32) 8 = q"
  shows "seg m' q a ys nxt"
proof (cases ys)
  case (Cons y zs)
  have "hdr m' a y (ptr (a + 40 + bsize y) zs nxt) q"
    by (rule hdr_previous [of m]) (use assms Cons in auto)
  moreover have "seg m' a (a + 40 + bsize y) zs nxt \<longleftrightarrow> seg m a (a + 40 + bsize y) zs nxt"
    by (rule seg_cong) (use assms(2) Cons in simp)
  moreover have "8 \<le> bsize y \<Longrightarrow> ld m' (a + 40 + bsize y - 8) 8 = ld m (a + 40 + bsize y - 8) 8"
    by (rule ld_same_bytes) (use assms(2) Cons in simp)
  ultimately show ?thesis
    using assms(1) Cons by auto
qed simp

subsection \<open>Allocation\<close>

lemma align16_eq: "align16 v = (add64 v 15 mod 2 ^ 32) div 16 * 16"
proof -
  have "(0xFFFFFFF0 :: nat) = push_bit 4 (mask 28)"
    by (simp add: mask_eq_exp_minus_1 push_bit_eq_mult)
  moreover have "w AND push_bit 4 (mask 28) = push_bit 4 (drop_bit 4 (take_bit 32 w))" for w :: nat
    by (rule bit_eqI) (auto simp: bit_simps)
  ultimately show ?thesis
    by (simp only: align16_def push_bit_eq_mult drop_bit_eq_div take_bit_eq_mod) simp
qed

lemma align16_request:
  assumes "n \<le> UINT64_MAX - 23"
  shows "align16 (add64 n 8) = ((n + 23) mod 2 ^ 32) div 16 * 16"
  using assms by (simp add: align16_eq add64_def add.commute)

lemma align16_enough:
  assumes "n + 23 < 2 ^ 32"
  shows "n + 8 \<le> align16 (add64 n 8)" and "align16 (add64 n 8) \<le> n + 23"
  using assms by (simp_all add: align16_request)

lemma align16_less: "align16 v < 2 ^ 32"
  unfolding align16_eq by (rule le_less_trans [OF div_times_less_eq_dividend]) simp

lemma align16_pos: "align16 v \<noteq> 0 \<Longrightarrow> 8 \<le> align16 v"
  unfolding align16_eq by simp

lemmas blk_defs = blk_magic_def blk_free_def blk_size_def blk_requested_def blk_next_def blk_previous_def
lemmas set_defs = set_magic_def set_free_def set_size_def set_requested_def set_next_def set_previous_def

lemma hdr_fields:
  assumes "hdr (hmem s) a b nxt prv"
  shows "blk_magic s a = HEAP_MAGIC" "blk_free s a = (if bfree b then 1 else 0)" "blk_size s a = bsize b"
    "blk_requested s a = breq b" "blk_next s a = nxt" "blk_previous s a = prv"
  using assms by (simp_all add: hdr_def blk_defs)

lemma seg_fields:
  assumes "seg (hmem s) p a (b # bs) nxt"
  shows "blk_magic s a = HEAP_MAGIC" "blk_free s a = (if bfree b then 1 else 0)" "blk_size s a = bsize b"
    "blk_requested s a = breq b" "blk_next s a = ptr (a + 40 + bsize b) bs nxt" "blk_previous s a = p"
  using hdr_fields [of s a b "ptr (a + 40 + bsize b) bs nxt" p] assms by simp_all

lemma ld64_less [simp]: "ld m a 8 < 18446744073709551616"
  using ld_less [of m a 8] by simp

text \<open>Splitting a free block that is large enough.\<close>

lemma kmalloc_split_ok:
  assumes seg: "seg (hmem s) p a (b # ys) 0" and free: "bfree b" and n: "n + 56 \<le> bsize b"
    and small: "a + extent (b # ys) < 2 ^ 64" and pos: "0 < a"
  defines "t \<equiv> kmalloc_split a n s"
  shows "seg (hmem t) p a (\<lparr>bfree = True, bsize = n, breq = breq b\<rparr> #
      \<lparr>bfree = True, bsize = bsize b - n - 40, breq = 0\<rparr> # ys) 0"
    and "\<And>i. i < a \<or> a + 80 + bsize b \<le> i \<Longrightarrow> hmem t i = hmem s i"
    and "t = s\<lparr>hmem := hmem t\<rparr>"
proof -
  let ?n = "ptr (a + 40 + bsize b) ys 0"
  have h: "hdr (hmem s) a b ?n p" and rest: "seg (hmem s) a (a + 40 + bsize b) ys 0"
    using seg by simp_all
  have sz: "sub64 (sub64 (bsize b) n) 40 = bsize b - n - 40"
    using n small by (simp add: sub64_small)
  define q where "q = a + 40 + n"
  define m1 where "m1 = st (st (st (hmem s) q 4 HEAP_MAGIC) (q + 4) 1 1) (q + 8) 8 (bsize b - n - 40)"
  define m2 where "m2 = st (st (st m1 (q + 16) 8 0) (q + 24) 8 ?n) (q + 32) 8 a"
  define m3 where "m3 = (if ?n \<noteq> 0 then st m2 (?n + 32) 8 q else m2)"
  have n_less: "?n < 256 ^ 8"
    using small by auto
  have mem: "hmem t = st (st m3 (a + 24) 8 q) (a + 8) 8 n"
    unfolding m3_def m2_def m1_def t_def kmalloc_split_def q_def Let_def blk_defs set_defs
    using h n_less by (simp add: hdr_def mem_simps sz)
  show "t = s\<lparr>hmem := hmem t\<rparr>"
    by (simp add: t_def kmalloc_split_def Let_def set_defs)
  show "\<And>i. i < a \<or> a + 80 + bsize b \<le> i \<Longrightarrow> hmem t i = hmem s i"
    unfolding mem m3_def m2_def m1_def q_def using n by (auto simp: st_outside)
  have sizes: "q < 256 ^ 8" "bsize b < 256 ^ 8" "a < 256 ^ 8"
    using small n by (simp_all add: q_def)
  have "hdr (hmem t) a \<lparr>bfree = True, bsize = n, breq = breq b\<rparr> q p"
    unfolding mem m3_def m2_def m1_def hdr_def using h n sizes free
    by (simp add: hdr_def mem_simps q_def)
  moreover have "hdr (hmem t) q \<lparr>bfree = True, bsize = bsize b - n - 40, breq = 0\<rparr> ?n a"
    unfolding mem m3_def m2_def m1_def hdr_def using n sizes n_less
    by (simp add: mem_simps q_def)
  moreover have "seg (hmem t) q (a + 40 + bsize b) ys 0"
  proof (rule seg_previous [OF rest])
    show "hmem t i = hmem s i" if "a + 40 + bsize b \<le> i"
      "i < a + 40 + bsize b + 32 \<or> (a + 40 + bsize b + 40 \<le> i \<and> i < a + 40 + bsize b + extent ys)" for i
      unfolding mem m3_def m2_def m1_def using that n by (auto simp: st_outside q_def)
    show "ld (hmem t) (a + 40 + bsize b + 32) 8 = q" if "ys \<noteq> []"
      unfolding mem m3_def using that n sizes(1) by (simp add: mem_simps q_def)
  qed
  moreover have "a + 40 + bsize b = q + 40 + (bsize b - n - 40)"
    using n by (simp add: q_def)
  ultimately show "seg (hmem t) p a (\<lparr>bfree = True, bsize = n, breq = breq b\<rparr> #
      \<lparr>bfree = True, bsize = bsize b - n - 40, breq = 0\<rparr> # ys) 0"
    by (cases "ys = []") (simp_all add: q_def ac_simps)
qed

lemma canary_value_less: "a < 2 ^ 64 \<Longrightarrow> canary_value a < 2 ^ 64"
proof -
  assume "a < 2 ^ 64"
  then have "take_bit 64 (canary_value a) = canary_value a"
    by (simp add: canary_value_def take_bit_xor take_bit_nat_eq_self)
  then show ?thesis
    by (metis take_bit_nat_less_exp)
qed

text \<open>Putting a free block to use.\<close>

definition mark_used :: "nat \<Rightarrow> nat \<Rightarrow> nat \<Rightarrow> mem \<Rightarrow> mem" where
  "mark_used a n req m = st (st (st m (a + 4) 1 0) (a + 16) 8 req) (a + 40 + n - 8) 8 (canary_value a)"

lemma mark_used_ok:
  assumes seg: "seg m p a (b # ys) nxt" and n: "8 \<le> bsize b"
    and small: "a < 2 ^ 64" "req < 2 ^ 64"
  shows "seg (mark_used a (bsize b) req m) p a (\<lparr>bfree = False, bsize = bsize b, breq = req\<rparr> # ys) nxt"
    and "\<And>i. i < a \<or> a + 40 + bsize b \<le> i \<Longrightarrow> mark_used a (bsize b) req m i = m i"
proof -
  let ?m = "mark_used a (bsize b) req m"
  show out: "\<And>i. i < a \<or> a + 40 + bsize b \<le> i \<Longrightarrow> ?m i = m i"
    using n by (auto simp: mark_used_def st_outside)
  have "hdr ?m a \<lparr>bfree = False, bsize = bsize b, breq = req\<rparr> (ptr (a + 40 + bsize b) ys nxt) p"
    using seg n small by (simp add: hdr_def mark_used_def mem_simps)
  moreover have "ld ?m (a + 40 + bsize b - 8) 8 = canary_value a"
    using canary_value_less [OF small(1)] by (simp add: mark_used_def mem_simps)
  moreover have "seg ?m a (a + 40 + bsize b) ys nxt \<longleftrightarrow> seg m a (a + 40 + bsize b) ys nxt"
    by (rule seg_cong) (simp add: out)
  ultimately show "seg ?m p a (\<lparr>bfree = False, bsize = bsize b, breq = req\<rparr> # ys) nxt"
    using seg n by (cases "ys = []") simp_all
qed

lemma kmalloc_take_ok:
  assumes seg: "seg (hmem s) p a (b # ys) 0" and fit: "fits n b" and n: "8 \<le> n" "n < 2 ^ 32"
    and small: "a + extent (b # ys) < 2 ^ 64" "req < 2 ^ 64" and pos: "0 < a"
  obtains t where "kmalloc_take a n req s = (a + 40, t)"
    "seg (hmem t) p a (carve n req b @ ys) 0"
    "\<And>i. i < a \<or> a + 80 + bsize b \<le> i \<Longrightarrow> hmem t i = hmem s i"
    "t = s\<lparr>hmem := hmem t, heap_used := add64 (heap_used s) (bsize (hd (carve n req b))),
           heap_allocations := add64 (heap_allocations s) 1\<rparr>"
proof -
  have free: "bfree b" and le: "n \<le> bsize b"
    using fit by (simp_all add: fits_def)
  have room: "add64 (add64 n 40) 16 = n + 56"
    using n by (simp add: add64_def)
  have size: "blk_size s a = bsize b"
    using seg by (rule seg_fields)
  define u where "u = (if n + 56 \<le> bsize b then kmalloc_split a n s else s)"
  define c where "c = hd (carve n req b)"
  have c: "bsize c \<le> bsize b" "n \<le> bsize c" "\<not> bfree c" "breq c = req"
    using le by (simp_all add: c_def carve_def)
  have whole: "\<lparr>bfree = True, bsize = bsize b, breq = breq b\<rparr> = b"
    using free by simp
  have u: "seg (hmem u) p a (c\<lparr>bfree := True, breq := breq b\<rparr> # tl (carve n req b) @ ys) 0"
    "\<And>i. i < a \<or> a + 80 + bsize b \<le> i \<Longrightarrow> hmem u i = hmem s i" "u = s\<lparr>hmem := hmem u\<rparr>"
  proof (atomize (full), cases "n + 56 \<le> bsize b")
    case True
    from kmalloc_split_ok [OF seg free this small(1) pos] True
    show "seg (hmem u) p a (c\<lparr>bfree := True, breq := breq b\<rparr> # tl (carve n req b) @ ys) 0 \<and>
      (\<forall>i. i < a \<or> a + 80 + bsize b \<le> i \<longrightarrow> hmem u i = hmem s i) \<and> u = s\<lparr>hmem := hmem u\<rparr>"
      by (simp add: u_def c_def carve_def del: seg.simps)
  next
    case False
    then show "seg (hmem u) p a (c\<lparr>bfree := True, breq := breq b\<rparr> # tl (carve n req b) @ ys) 0 \<and>
      (\<forall>i. i < a \<or> a + 80 + bsize b \<le> i \<longrightarrow> hmem u i = hmem s i) \<and> u = s\<lparr>hmem := hmem u\<rparr>"
      using seg by (simp add: u_def c_def carve_def whole del: seg.simps)
  qed
  define m where "m = hmem u"
  define t where "t = s\<lparr>hmem := mark_used a (bsize c) req m, heap_used := add64 (heap_used s) (bsize c),
    heap_allocations := add64 (heap_allocations s) 1\<rparr>"
  have u_eq: "u = s\<lparr>hmem := m\<rparr>"
    unfolding m_def by (rule u(3))
  have size': "ld m (a + 8) 8 = bsize c"
    using u(1) unfolding m_def by (simp add: hdr_def)
  have "kmalloc_take a n req s = (a + 40, t)"
    unfolding kmalloc_take_def Let_def room size u_def [symmetric] u_eq
    using size' n c(2)
    by (simp add: t_def mark_used_def block_canary_def blk_defs set_defs mem_simps)
  moreover have "carve n req b = \<lparr>bfree = False, bsize = bsize c, breq = req\<rparr> # tl (carve n req b)"
    by (simp add: c_def carve_def)
  then have "seg (hmem t) p a (carve n req b @ ys) 0"
    using mark_used_ok(1) [OF u(1), of req] n(1) c(2) small
    by (simp add: t_def m_def del: seg.simps) (metis append_Cons)
  ultimately show thesis
  proof (rule that)
    show "hmem t i = hmem s i" if i: "i < a \<or> a + 80 + bsize b \<le> i" for i
    proof -
      have "i < a \<or> a + 40 + bsize c \<le> i"
        using i c(1) by auto
      then have "mark_used a (bsize c) req (hmem u) i = hmem u i"
        using mark_used_ok(2) [OF u(1), of req i] n(1) c(2) small by (simp del: seg.simps)
      then show ?thesis
        using u(2) [OF i] by (simp add: t_def m_def)
    qed
    show "t = s\<lparr>hmem := hmem t, heap_used := add64 (heap_used s) (bsize (hd (carve n req b))),
           heap_allocations := add64 (heap_allocations s) 1\<rparr>"
      by (simp add: t_def c_def)
  qed
qed

subsection \<open>The scan and the invariant\<close>

text \<open>The bytes that belong to the owners of the blocks in use.\<close>

fun used_data :: "nat \<Rightarrow> block list \<Rightarrow> nat set" where
  "used_data a [] = {}"
| "used_data a (b # bs) = (if bfree b then {} else {a + 40 ..< a + 40 + bsize b}) \<union> used_data (a + 40 + bsize b) bs"

lemma used_data_append [simp]: "used_data a (xs @ ys) = used_data a xs \<union> used_data (a + extent xs) ys"
  by (induction xs arbitrary: a) (auto simp: add.assoc)

lemma used_data_range: "used_data a bs \<subseteq> {a + 40 ..< a + extent bs}"
proof (induction bs arbitrary: a)
  case (Cons b bs)
  show ?case
    using Cons.IH [of "a + 40 + bsize b"] by (auto simp: subset_iff)
qed simp

lemma no_free_pair_append:
  "no_free_pair (xs @ ys) \<longleftrightarrow> no_free_pair xs \<and> no_free_pair ys \<and>
     \<not> (xs \<noteq> [] \<and> ys \<noteq> [] \<and> bfree (last xs) \<and> bfree (hd ys))"
  by (induction xs rule: no_free_pair.induct; cases ys) auto

lemma used_blocks_simps [simp]:
  "used_blocks [] = []"
  "used_blocks (b # bs) = (if bfree b then used_blocks bs else b # used_blocks bs)"
  "used_blocks (xs @ ys) = used_blocks xs @ used_blocks ys"
  by (simp_all add: used_blocks_def)

lemma used_blocks_le:
  "sum_list (map bsize (used_blocks bs)) + length (used_blocks bs) \<le> extent bs"
  by (induction bs) auto

lemma scan_skip:
  "seg (hmem s) p a (xs @ ys) 0 \<Longrightarrow> \<forall>x \<in> set xs. \<not> fits n x \<Longrightarrow> 0 < a \<Longrightarrow>
   kmalloc_scan (ptr a (xs @ ys) 0) n req s = kmalloc_scan (ptr (a + extent xs) ys 0) n req s"
proof (induction xs arbitrary: p a)
  case (Cons x xs)
  have "seg (hmem s) p a (x # xs @ ys) 0"
    using Cons.prems(1) by simp
  then have "kmalloc_scan a n req s = kmalloc_scan (ptr (a + 40 + bsize x) (xs @ ys) 0) n req s"
    using Cons.prems(2,3) seg_fields [of s p a x "xs @ ys" 0]
    by (subst kmalloc_scan.simps) (auto simp: fits_def)
  also have "\<dots> = kmalloc_scan (ptr (a + 40 + bsize x + extent xs) ys 0) n req s"
    using Cons.prems by (intro Cons.IH [of a]) simp_all
  finally show ?case
    by (simp add: add.assoc)
qed simp

lemma carve_simps [simp]:
  assumes "fits n b"
  shows "extent (carve n req b) = 40 + bsize b" "carve n req b \<noteq> []"
    "used_blocks (carve n req b) = [hd (carve n req b)]"
    "c \<in> set (carve n req b) \<Longrightarrow> bfree c \<Longrightarrow> breq c = 0" "bsize (hd (carve n req b)) \<le> bsize b"
    "\<not> bfree (hd (carve n req b))" "n \<le> bsize (hd (carve n req b))" "breq (hd (carve n req b)) = req"
  using assms by (auto simp: carve_def fits_def split: if_splits)

lemma carve_no_free_pair:
  assumes "no_free_pair (xs @ b # ys)" and "fits n b"
  shows "no_free_pair (xs @ carve n req b @ ys)"
  using assms by (cases ys) (auto simp: no_free_pair_append carve_def fits_def)

lemma heap_core_carve:
  assumes core: "heap_core s (xs @ b # ys)" and fit: "fits n b"
    and seg: "seg m (last_addr 0 (heap_first s) xs) (heap_first s + extent xs) (carve n req b @ ys) 0"
    and out: "\<And>i. i < heap_first s + extent xs \<or> heap_first s + extent xs + 80 + bsize b \<le> i \<Longrightarrow> m i = hmem s i"
  shows "heap_core (s\<lparr>hmem := m, heap_used := add64 (heap_used s) (bsize (hd (carve n req b))),
      heap_allocations := add64 (heap_allocations s) 1\<rparr>) (xs @ carve n req b @ ys)"
    and "\<forall>i \<in> used_data (heap_first s) (xs @ b # ys). m i = hmem s i"
proof -
  let ?a = "heap_first s + extent xs"
  have "seg (hmem s) 0 (heap_first s) xs ?a"
    using core by (auto simp: heap_core_def seg_append)
  then have "seg m 0 (heap_first s) xs ?a"
    using out by (subst seg_cong [of _ _ m "hmem s"]) auto
  then have "seg m 0 (heap_first s) (xs @ carve n req b @ ys) 0"
    using seg fit by (simp add: seg_append)
  moreover have room: "heap_used s + heap_allocations s + bsize b < HEAP_BYTES"
    using core fit used_blocks_le [of xs] used_blocks_le [of ys] by (simp add: heap_core_def fits_def)
  then have "add64 (heap_used s) (bsize (hd (carve n req b))) = heap_used s + bsize (hd (carve n req b))"
    using carve_simps(5) [OF fit, of req] by (intro add64_small) simp
  moreover have "add64 (heap_allocations s) 1 = heap_allocations s + 1"
    using room by (intro add64_small) simp
  ultimately show "heap_core (s\<lparr>hmem := m, heap_used := add64 (heap_used s) (bsize (hd (carve n req b))),
      heap_allocations := add64 (heap_allocations s) 1\<rparr>) (xs @ carve n req b @ ys)"
    using core fit carve_no_free_pair [of xs b ys n req] carve_simps(4) [OF fit, of _ req]
    by (auto simp: heap_core_def fits_def)
  have "i < ?a \<or> ?a + 80 + bsize b \<le> i" if "i \<in> used_data (heap_first s) (xs @ b # ys)" for i
    using that fit used_data_range [of "heap_first s" xs] used_data_range [of "?a + 40 + bsize b" ys]
    by (auto simp: fits_def)
  then show "\<forall>i \<in> used_data (heap_first s) (xs @ b # ys). m i = hmem s i"
    using out by blast
qed

lemma kmalloc_scan_ok:
  assumes core: "heap_core s bs" and n: "8 \<le> n" "n < 2 ^ 32" and req: "req < 2 ^ 64"
  shows "case abs_alloc n req bs of
      None \<Rightarrow> kmalloc_scan (heap_first s) n req s = Some (0, s\<lparr>heap_failures := add64 (heap_failures s) 1\<rparr>)
    | Some (off, cs) \<Rightarrow> \<exists>t. kmalloc_scan (heap_first s) n req s = Some (heap_first s + off, t) \<and> heap_core t cs \<and>
        heap_first t = heap_first s \<and> heap_lock t = heap_lock s \<and>
        (\<forall>i \<in> used_data (heap_first s) bs. hmem t i = hmem s i)"
proof -
  define xs where "xs = takeWhile (\<lambda>b. \<not> fits n b) bs"
  define zs where "zs = dropWhile (\<lambda>b. \<not> fits n b) bs"
  have bs: "bs = xs @ zs" and skip: "\<forall>x \<in> set xs. \<not> fits n x"
    by (auto simp: xs_def zs_def dest: set_takeWhileD)
  have seg: "seg (hmem s) 0 (heap_first s) (xs @ zs) 0" and pos: "0 < heap_first s" and "bs \<noteq> []"
    using core by (auto simp: heap_core_def bs)
  then have scan: "kmalloc_scan (heap_first s) n req s = kmalloc_scan (ptr (heap_first s + extent xs) zs 0) n req s"
    using scan_skip [OF seg skip pos, of req] bs by auto
  show ?thesis
  proof (cases zs)
    case Nil
    then have "abs_alloc n req bs = None"
      by (simp add: abs_alloc_def zs_def [symmetric])
    then show ?thesis
      using scan Nil by (simp add: kmalloc_scan.simps)
  next
    case (Cons b ys)
    let ?a = "heap_first s + extent xs"
    have fit: "fits n b"
      using Cons hd_dropWhile [of "\<lambda>b. \<not> fits n b" bs] by (simp add: zs_def)
    have res: "abs_alloc n req bs = Some (extent xs + 40, xs @ carve n req b @ ys)"
      using Cons by (simp add: abs_alloc_def zs_def [symmetric] xs_def [symmetric])
    have left: "seg (hmem s) 0 (heap_first s) xs ?a" and right: "seg (hmem s) (last_addr 0 (heap_first s) xs) ?a (b # ys) 0"
      using seg unfolding Cons by (simp_all add: seg_append del: seg.simps)
    have small: "?a + extent (b # ys) < 2 ^ 64"
      using core by (simp add: heap_core_def bs Cons)
    have "kmalloc_scan ?a n req s = Some (kmalloc_take ?a n req s)"
      using fit pos seg_fields [OF right] by (subst kmalloc_scan.simps) (simp add: fits_def)
    moreover obtain t where t: "kmalloc_take ?a n req s = (?a + 40, t)"
      "seg (hmem t) (last_addr 0 (heap_first s) xs) ?a (carve n req b @ ys) 0"
      "\<And>i. i < ?a \<or> ?a + 80 + bsize b \<le> i \<Longrightarrow> hmem t i = hmem s i"
      and t_eq: "t = s\<lparr>hmem := hmem t, heap_used := add64 (heap_used s) (bsize (hd (carve n req b))),
           heap_allocations := add64 (heap_allocations s) 1\<rparr>"
      using kmalloc_take_ok [OF right fit n small req] pos by auto
    moreover have "heap_core t (xs @ carve n req b @ ys)"
      by (subst t_eq) (rule heap_core_carve(1) [OF core [unfolded bs Cons] fit t(2,3)])
    moreover have "heap_first t = heap_first s" "heap_lock t = heap_lock s"
      by (subst t_eq, simp)+
    moreover have "\<forall>i \<in> used_data (heap_first s) bs. hmem t i = hmem s i"
      unfolding bs Cons by (rule heap_core_carve(2) [OF core [unfolded bs Cons] fit t(2,3)])
    ultimately show ?thesis
      unfolding res scan using Cons by (simp add: add.assoc)
  qed
qed

subsection \<open>Release\<close>

text \<open>Both merges of \<open>kfree_unlocked\<close> append a block to the free block before it.\<close>

definition absorb :: "nat \<Rightarrow> nat \<Rightarrow> nat \<Rightarrow> mem \<Rightarrow> mem" where
  "absorb a n nxt m =
     (let m = st (st m (a + 8) 8 n) (a + 24) 8 nxt
      in if nxt \<noteq> 0 then st m (nxt + 32) 8 a else m)"

lemma absorb_ok:
  assumes seg: "seg m p a (x # y # zs) 0" and free: "bfree x" and small: "a + extent (x # y # zs) < 2 ^ 64"
  defines "n \<equiv> bsize x + 40 + bsize y"
  defines "m' \<equiv> absorb a n (ptr (a + 40 + n) zs 0) m"
  shows "seg m' p a (x\<lparr>bsize := n\<rparr> # zs) 0"
    and "\<And>i. i < a + 8 \<or> (a + 40 \<le> i \<and> i < a + 40 + n) \<or> a + 80 + n \<le> i \<or> a + 40 + n + extent zs \<le> i \<Longrightarrow> m' i = m i"
proof -
  let ?nxt = "ptr (a + 40 + n) zs 0"
  show "\<And>i. i < a + 8 \<or> (a + 40 \<le> i \<and> i < a + 40 + n) \<or> a + 80 + n \<le> i \<or> a + 40 + n + extent zs \<le> i \<Longrightarrow> m' i = m i"
    by (cases zs) (auto simp: m'_def absorb_def Let_def st_outside)
  have bounds: "n < 256 ^ 8" "?nxt < 256 ^ 8" "a < 256 ^ 8"
    using small by (simp_all add: n_def)
  have "hdr m a x (a + 40 + bsize x) p"
    using seg by simp
  then have "hdr m' a (x\<lparr>bsize := n\<rparr>) ?nxt p"
    using bounds free by (cases "zs = []") (simp_all add: hdr_def m'_def absorb_def Let_def mem_simps)
  moreover have "seg m (a + 40 + bsize x) (a + 40 + n) zs 0"
    using seg by (simp add: n_def ac_simps)
  then have "seg m' a (a + 40 + n) zs 0"
  proof (rule seg_previous)
    show "m' i = m i" if "a + 40 + n \<le> i" "i < a + 40 + n + 32 \<or> (a + 40 + n + 40 \<le> i \<and> i < a + 40 + n + extent zs)" for i
      using that by (auto simp: m'_def absorb_def Let_def st_outside)
    show "ld m' (a + 40 + n + 32) 8 = a" if "zs \<noteq> []"
      using that bounds(3) by (simp add: m'_def absorb_def Let_def mem_simps)
  qed
  ultimately show "seg m' p a (x\<lparr>bsize := n\<rparr> # zs) 0"
    using free by (cases "zs = []") simp_all
qed

lemma kfree_release_ok:
  assumes seg: "seg (hmem s) p a (b # ys) nxt" and used: "\<not> bfree b"
  obtains m where "kfree_release a s = s\<lparr>hmem := m, heap_used := sub64 (heap_used s) (bsize b),
      heap_allocations := sub64 (heap_allocations s) 1\<rparr>"
    "seg m p a (b\<lparr>bfree := True, breq := 0\<rparr> # ys) nxt"
    "\<And>i. i < a \<or> a + 40 + bsize b \<le> i \<Longrightarrow> m i = hmem s i"
proof -
  define m where "m = st (mem_fill (a + 40) (bsize b) HEAP_POISON (st (hmem s) (a + 4) 1 1)) (a + 16) 8 0"
  have h: "hdr (hmem s) a b (ptr (a + 40 + bsize b) ys nxt) p"
    using seg by simp
  have out: "m i = hmem s i" if "i < a \<or> a + 40 + bsize b \<le> i" for i
    using that by (auto simp: m_def st_outside mem_fill_eq)
  have "seg m a (a + 40 + bsize b) ys nxt \<longleftrightarrow> seg (hmem s) a (a + 40 + bsize b) ys nxt"
    by (rule seg_cong) (simp add: out)
  moreover have "hdr m a (b\<lparr>bfree := True, breq := 0\<rparr>) (ptr (a + 40 + bsize b) ys nxt) p"
    using h by (simp add: hdr_def m_def mem_simps)
  ultimately have "seg m p a (b\<lparr>bfree := True, breq := 0\<rparr> # ys) nxt"
    using seg by (cases "ys = []") simp_all
  moreover have "kfree_release a s = s\<lparr>hmem := m, heap_used := sub64 (heap_used s) (bsize b),
      heap_allocations := sub64 (heap_allocations s) 1\<rparr>"
    using h by (simp add: kfree_release_def Let_def set_defs blk_defs mem_simps hdr_def m_def)
  ultimately show thesis
    using that out by blast
qed

lemma merge_next_ok:
  assumes seg: "seg (hmem s) p a (b # ys) 0" and free: "bfree b" and small: "a + extent (b # ys) < 2 ^ 64"
    and pos: "0 < a"
  obtains m where "merge_next a s = s\<lparr>hmem := m\<rparr>" "seg m p a (join_right b ys) 0"
    "\<And>i. i < a + 8 \<or> i \<in> used_data (a + 40 + bsize b) ys \<Longrightarrow> m i = hmem s i"
proof (cases "\<exists>y zs. ys = y # zs \<and> bfree y")
  case True
  then obtain y zs where ys: "ys = y # zs" "bfree y"
    by blast
  define n where "n = bsize b + 40 + bsize y"
  define m where "m = absorb a n (ptr (a + 40 + n) zs 0) (hmem s)"
  have seg': "seg (hmem s) p a (b # y # zs) 0" and small': "a + extent (b # y # zs) < 2 ^ 64"
    using seg small ys(1) by simp_all
  then have "seg (hmem s) a (a + 40 + bsize b) (y # zs) 0"
    by simp
  note fb = seg_fields [OF seg'] and fy = seg_fields [OF this]
  have "add64 (bsize b) (add64 40 (bsize y)) = n"
    using small' by (simp add: n_def add64_small)
  then have "merge_next a s = s\<lparr>hmem := m\<rparr>"
    using fb fy ys(2) pos small'
    by (simp add: add.assoc merge_next_def Let_def m_def absorb_def n_def set_defs blk_defs mem_simps)
  moreover have "seg m p a (join_right b ys) 0"
  proof -
    have "join_right b ys = b\<lparr>bsize := n\<rparr> # zs"
      using ys by (simp add: join_right_def n_def)
    then show ?thesis
      using absorb_ok(1) [OF seg' free small'] by (simp only: m_def n_def)
  qed
  moreover have "m i = hmem s i" if "i < a + 8 \<or> i \<in> used_data (a + 40 + bsize b) ys" for i
  proof -
    have "i < a + 8 \<or> (a + 40 \<le> i \<and> i < a + 40 + n) \<or> a + 80 + n \<le> i \<or> a + 40 + n + extent zs \<le> i"
      using that ys used_data_range [of "a + 40 + bsize b + 40 + bsize y" zs] by (auto simp: n_def)
    then show ?thesis
      using absorb_ok(2) [OF seg' free small', of i] by (auto simp: m_def n_def)
  qed
  ultimately show thesis
    using that by blast
next
  case False
  have "merge_next a s = s"
  proof (cases ys)
    case Nil
    then show ?thesis
      using seg_fields [OF seg] by (simp add: merge_next_def)
  next
    case (Cons y zs)
    then have "seg (hmem s) a (a + 40 + bsize b) (y # zs) 0" and "\<not> bfree y"
      using seg False by simp_all
    then show ?thesis
      using seg_fields(5) [OF seg] seg_fields(2) [of s a "a + 40 + bsize b" y zs 0] Cons by (simp add: merge_next_def)
  qed
  moreover have "join_right b ys = b # ys"
    using False by (auto simp: join_right_def split: list.splits)
  ultimately show thesis
    using that [of "hmem s"] seg by simp
qed

lemma join_right_simps [simp]:
  "join_right b ys \<noteq> []" "extent (join_right b ys) = extent (b # ys)" "bfree (hd (join_right b ys)) = bfree b"
  "bfree b \<Longrightarrow> used_blocks (join_right b ys) = used_blocks ys"
  by (auto simp: join_right_def split: list.splits)

lemma merge_previous_ok:
  assumes seg: "seg (hmem s) 0 f (xs @ b # ys) 0" and pos: "0 < f" and small: "f + extent (xs @ b # ys) < 2 ^ 64"
  obtains m where "merge_previous (f + extent xs) s = s\<lparr>hmem := m\<rparr>" "seg m 0 f (join_left xs (b # ys)) 0"
    "\<And>i. i \<in> used_data f xs \<or> i \<in> used_data (f + extent xs + 40 + bsize b) ys \<or>
      (f + extent xs \<le> i \<and> i < f + extent xs + 40 + bsize b) \<Longrightarrow> m i = hmem s i"
proof (cases "xs \<noteq> [] \<and> bfree (last xs)")
  case True
  then obtain us x where xs: "xs = us @ [x]" "bfree x"
    by (metis append_butlast_last_id)
  let ?a = "f + extent us"
  define n where "n = bsize x + 40 + bsize b"
  define m where "m = absorb ?a n (ptr (?a + 40 + n) ys 0) (hmem s)"
  have left: "seg (hmem s) 0 f us ?a" and seg': "seg (hmem s) (last_addr 0 f us) ?a (x # b # ys) 0"
    and small': "?a + extent (x # b # ys) < 2 ^ 64"
    using seg small unfolding xs(1) by (simp_all add: seg_append)
  then have "seg (hmem s) ?a (?a + 40 + bsize x) (b # ys) 0"
    by simp
  note fx = seg_fields [OF seg'] and fb = seg_fields [OF this]
  have "add64 (bsize x) (add64 40 (bsize b)) = n"
    using small' by (simp add: n_def add64_small)
  then have "merge_previous (?a + 40 + bsize x) s = s\<lparr>hmem := m\<rparr>"
    using fx fb xs(2) pos small'
    by (simp add: add.assoc merge_previous_def Let_def m_def absorb_def n_def set_defs blk_defs mem_simps)
  moreover note ok = absorb_ok [OF seg' xs(2) small', folded n_def, folded m_def]
  have "seg m 0 f us ?a"
    using left ok(2) by (subst seg_cong [of _ _ m "hmem s"]) auto
  then have "seg m 0 f (join_left xs (b # ys)) 0"
    using ok(1) by (simp add: join_left_def xs seg_append n_def del: seg.simps)
  moreover have "m i = hmem s i" if "i \<in> used_data f xs \<or> i \<in> used_data (f + extent xs + 40 + bsize b) ys \<or>
      (f + extent xs \<le> i \<and> i < f + extent xs + 40 + bsize b)" for i
  proof -
    have "i < ?a + 8 \<or> (?a + 40 \<le> i \<and> i < ?a + 40 + n) \<or> ?a + 80 + n \<le> i \<or> ?a + 40 + n + extent ys \<le> i"
      using that xs used_data_range [of f us] used_data_range [of "f + extent xs + 40 + bsize b" ys]
      by (auto simp: n_def)
    then show ?thesis
      by (rule ok(2))
  qed
  ultimately show thesis
    using that by (simp add: xs(1) add.assoc)
next
  case False
  have b: "seg (hmem s) (last_addr 0 f xs) (f + extent xs) (b # ys) 0"
    using seg by (simp add: seg_append)
  have "merge_previous (f + extent xs) s = s"
  proof (cases xs rule: rev_cases)
    case Nil
    then show ?thesis
      using seg_fields(6) [OF b] by (simp add: merge_previous_def)
  next
    case (snoc us x)
    then have "seg (hmem s) (last_addr 0 f us) (f + extent us) (x # b # ys) 0" and "\<not> bfree x"
      using seg False by (simp_all add: seg_append)
    then show ?thesis
      using seg_fields(6) [OF b] seg_fields(2) [of s "last_addr 0 f us" "f + extent us" x "b # ys" 0] snoc
      by (simp add: merge_previous_def)
  qed
  moreover have "join_left xs (b # ys) = xs @ b # ys"
    using False by (auto simp: join_left_def)
  ultimately show thesis
    using that [of "hmem s"] seg by simp
qed

lemma join_right_used_data:
  "bfree b \<Longrightarrow> used_data a (join_right b ys) = used_data (a + 40 + bsize b) ys"
  by (auto simp: join_right_def add.assoc split: list.splits)

lemma join_left_simps:
  assumes "bs \<noteq> []" and "bfree (hd bs)"
  shows "extent (join_left xs bs) = extent xs + extent bs"
    and "used_blocks (join_left xs bs) = used_blocks xs @ used_blocks bs"
proof -
  obtain c cs where bs: "bs = c # cs" "bfree c"
    using assms by (cases bs) auto
  show "extent (join_left xs bs) = extent xs + extent bs"
    using bs by (cases xs rule: rev_cases) (auto simp: join_left_def)
  show "used_blocks (join_left xs bs) = used_blocks xs @ used_blocks bs"
    using bs by (cases xs rule: rev_cases) (auto simp: join_left_def)
qed

lemma no_free_pair_join_right:
  "no_free_pair ys \<Longrightarrow> no_free_pair (join_right b ys)"
  by (cases ys rule: no_free_pair.cases) (auto simp: join_right_def)

lemma no_free_pair_join_left:
  assumes "no_free_pair xs" and "no_free_pair (c # cs)" and "bfree c"
  shows "no_free_pair (join_left xs (c # cs))"
  using assms by (cases xs rule: rev_cases; cases cs) (auto simp: join_left_def no_free_pair_append)

lemma abs_free_simps:
  assumes "no_free_pair (xs @ b # ys)"
  shows "extent (abs_free xs b ys) = extent (xs @ b # ys)"
    and "used_blocks (abs_free xs b ys) = used_blocks xs @ used_blocks ys"
    and "no_free_pair (abs_free xs b ys)"
    and "\<forall>c \<in> set (xs @ b # ys). bfree c \<longrightarrow> breq c = 0 \<Longrightarrow> \<forall>c \<in> set (abs_free xs b ys). bfree c \<longrightarrow> breq c = 0"
proof -
  let ?b = "b\<lparr>bfree := True, breq := 0\<rparr>"
  have ys: "no_free_pair ys" and xs: "no_free_pair xs"
    using assms by (cases ys; simp add: no_free_pair_append)+
  show "extent (abs_free xs b ys) = extent (xs @ b # ys)"
    and "used_blocks (abs_free xs b ys) = used_blocks xs @ used_blocks ys"
    unfolding abs_free_def by (subst join_left_simps; simp)+
  show "no_free_pair (abs_free xs b ys)"
    using no_free_pair_join_left [OF xs, of "hd (join_right ?b ys)" "tl (join_right ?b ys)"]
      no_free_pair_join_right [OF ys, of ?b]
    unfolding abs_free_def by simp
  show "\<forall>c \<in> set (abs_free xs b ys). bfree c \<longrightarrow> breq c = 0" if "\<forall>c \<in> set (xs @ b # ys). bfree c \<longrightarrow> breq c = 0"
    using that by (cases xs rule: rev_cases; cases ys) (auto simp: abs_free_def join_left_def join_right_def)
qed

text \<open>The state after the accounting of a release, up to memory.\<close>

definition unaccount :: "block \<Rightarrow> heap \<Rightarrow> heap" where
  "unaccount b s = s\<lparr>heap_used := heap_used s - bsize b, heap_allocations := heap_allocations s - 1\<rparr>"

lemma unaccount_release:
  assumes core: "heap_core s (xs @ b # ys)" and used: "\<not> bfree b"
  obtains m where "kfree_release (heap_first s + extent xs) s = (unaccount b s)\<lparr>hmem := m\<rparr>"
    "seg m (last_addr 0 (heap_first s) xs) (heap_first s + extent xs) (b\<lparr>bfree := True, breq := 0\<rparr> # ys) 0"
    "\<And>i. i < heap_first s + extent xs \<or> heap_first s + extent xs + 40 + bsize b \<le> i \<Longrightarrow> m i = hmem s i"
proof -
  have seg: "seg (hmem s) (last_addr 0 (heap_first s) xs) (heap_first s + extent xs) (b # ys) 0"
    using core by (simp add: heap_core_def seg_append)
  have "heap_used s + heap_allocations s \<le> HEAP_BYTES"
    using core used_blocks_le [of "xs @ b # ys"] unfolding heap_core_def by simp
  then have "sub64 (heap_used s) (bsize b) = heap_used s - bsize b"
    and "sub64 (heap_allocations s) 1 = heap_allocations s - 1"
    using core used by (intro sub64_small; simp add: heap_core_def)+
  then have eq: "s\<lparr>hmem := m, heap_used := sub64 (heap_used s) (bsize b),
      heap_allocations := sub64 (heap_allocations s) 1\<rparr> = (unaccount b s)\<lparr>hmem := m\<rparr>" for m
    by (simp add: unaccount_def)
  show thesis
    by (rule kfree_release_ok [OF seg used, unfolded eq]) (rule that)
qed

lemma release_merge_next:
  assumes core: "heap_core s (xs @ b # ys)" and used: "\<not> bfree b"
  obtains m where "merge_next (heap_first s + extent xs) (kfree_release (heap_first s + extent xs) s) =
      (unaccount b s)\<lparr>hmem := m\<rparr>"
    "seg m 0 (heap_first s) (xs @ join_right (b\<lparr>bfree := True, breq := 0\<rparr>) ys) 0"
    "ld m (heap_first s + extent xs) 4 = HEAP_MAGIC" "ld m (heap_first s + extent xs + 4) 1 = 1"
    "\<And>i. i \<in> used_data (heap_first s) xs \<or> i \<in> used_data (heap_first s + extent xs + 40 + bsize b) ys \<Longrightarrow>
      m i = hmem s i"
proof -
  let ?f = "heap_first s" and ?b = "b\<lparr>bfree := True, breq := 0\<rparr>" and ?s = "unaccount b s"
  let ?a = "?f + extent xs"
  have left: "seg (hmem s) 0 ?f xs ?a" and small: "?a + extent (?b # ys) < 2 ^ 64" and pos: "0 < ?a"
    using core by (auto simp: heap_core_def seg_append)
  obtain m1 where m1: "kfree_release ?a s = ?s\<lparr>hmem := m1\<rparr>"
    "seg m1 (last_addr 0 ?f xs) ?a (?b # ys) 0" "\<And>i. i < ?a \<or> ?a + 40 + bsize b \<le> i \<Longrightarrow> m1 i = hmem s i"
    by (rule unaccount_release [OF core used]) (rule that)
  obtain m2 where m2: "merge_next ?a (?s\<lparr>hmem := m1\<rparr>) = ?s\<lparr>hmem := m1, hmem := m2\<rparr>"
    "seg m2 (last_addr 0 ?f xs) ?a (join_right ?b ys) 0"
    "\<And>i. i < ?a + 8 \<or> i \<in> used_data (?a + 40 + bsize ?b) ys \<Longrightarrow> m2 i = hmem (?s\<lparr>hmem := m1\<rparr>) i"
  proof (rule merge_next_ok [of "?s\<lparr>hmem := m1\<rparr>" "last_addr 0 ?f xs" ?a ?b ys])
    show "seg (hmem (?s\<lparr>hmem := m1\<rparr>)) (last_addr 0 ?f xs) ?a (?b # ys) 0"
      using m1(2) by simp
    show "bfree ?b"
      by simp
  qed (rule small, rule pos, rule that)
  show thesis
  proof (rule that [of m2])
    show "merge_next ?a (kfree_release ?a s) = ?s\<lparr>hmem := m2\<rparr>"
      using m1(1) m2(1) by simp
    have "seg m2 0 ?f xs ?a"
      using left m1(3) m2(3) by (subst seg_cong [of _ _ m2 "hmem s"]) auto
    then show "seg m2 0 ?f (xs @ join_right ?b ys) 0"
      using m2(2) by (simp add: seg_append)
    have "ld m2 ?a 4 = ld m1 ?a 4" and "ld m2 (?a + 4) 1 = ld m1 (?a + 4) 1"
      by (rule ld_same_bytes, simp add: m2(3))+
    then show "ld m2 ?a 4 = HEAP_MAGIC" "ld m2 (?a + 4) 1 = 1"
      using m1(2) by (simp_all add: hdr_def)
    show "m2 i = hmem s i" if "i \<in> used_data ?f xs \<or> i \<in> used_data (?a + 40 + bsize b) ys" for i
      using that m1(3) [of i] m2(3) [of i] used_data_range [of ?f xs] used_data_range [of "?a + 40 + bsize b" ys]
      by auto
  qed
qed

lemma kfree_unlocked_ok:
  assumes core: "heap_core s (xs @ b # ys)" and used: "\<not> bfree b"
  shows "\<exists>t. kfree_unlocked (heap_first s + extent xs + 40) s = Some t \<and> heap_core t (abs_free xs b ys) \<and>
    heap_first t = heap_first s \<and> heap_lock t = heap_lock s \<and> heap_failures t = heap_failures s \<and>
    blk_magic t (heap_first s + extent xs) = HEAP_MAGIC \<and> blk_free t (heap_first s + extent xs) = 1 \<and>
    (\<forall>i \<in> used_data (heap_first s) xs \<union> used_data (heap_first s + extent xs + 40 + bsize b) ys. hmem t i = hmem s i)"
proof -
  let ?f = "heap_first s" and ?b = "b\<lparr>bfree := True, breq := 0\<rparr>"
  let ?a = "?f + extent xs"
  have all: "seg (hmem s) 0 ?f (xs @ b # ys) 0" and pos: "0 < ?f" and small: "?f + extent (xs @ b # ys) < 2 ^ 64"
    and nfp: "no_free_pair (xs @ b # ys)"
    using core by (simp_all add: heap_core_def del: extent_append)
  then have left: "seg (hmem s) 0 ?f xs ?a" and seg: "seg (hmem s) (last_addr 0 ?f xs) ?a (b # ys) 0"
    by (simp_all add: seg_append)
  let ?s = "unaccount b s"
  obtain m2 where m2: "merge_next ?a (kfree_release ?a s) = ?s\<lparr>hmem := m2\<rparr>"
    "seg m2 0 ?f (xs @ join_right ?b ys) 0" "ld m2 ?a 4 = HEAP_MAGIC" "ld m2 (?a + 4) 1 = 1"
    "\<And>i. i \<in> used_data ?f xs \<or> i \<in> used_data (?a + 40 + bsize b) ys \<Longrightarrow> m2 i = hmem s i"
    by (rule release_merge_next [OF core used]) (rule that)
  define c where "c = hd (join_right ?b ys)"
  define cs where "cs = tl (join_right ?b ys)"
  have c: "join_right ?b ys = c # cs" "bfree c" "extent (c # cs) = extent (b # ys)"
    "used_data (?a + 40 + bsize c) cs = used_data (?a + 40 + bsize b) ys"
    using join_right_simps(2) [of ?b ys] join_right_used_data [of ?b ?a ys] join_right_simps(3) [of ?b ys]
    by (simp_all add: c_def cs_def del: join_right_simps(2,3)) (cases "join_right ?b ys"; simp)
  obtain m3 where m3: "merge_previous ?a (?s\<lparr>hmem := m2\<rparr>) = ?s\<lparr>hmem := m2, hmem := m3\<rparr>"
    "seg m3 0 ?f (join_left xs (c # cs)) 0"
    "\<And>i. i \<in> used_data ?f xs \<or> i \<in> used_data (?a + 40 + bsize c) cs \<or>
      (?a \<le> i \<and> i < ?a + 40 + bsize c) \<Longrightarrow> m3 i = hmem (?s\<lparr>hmem := m2\<rparr>) i"
  proof (rule merge_previous_ok [of "?s\<lparr>hmem := m2\<rparr>" ?f xs c cs])
    show "seg (hmem (?s\<lparr>hmem := m2\<rparr>)) 0 ?f (xs @ c # cs) 0"
      using m2(2) c(1) by simp
    show "?f + extent (xs @ c # cs) < 2 ^ 64"
      using small c(3) by simp
  qed (rule pos, rule that)
  let ?t = "?s\<lparr>hmem := m3\<rparr>"
  have "kfree_unlocked (?a + 40) s = Some ?t"
    using seg_fields [OF seg] seg used m2(1) m3(1) by (simp add: kfree_unlocked_def block_canary_def)
  moreover have "heap_core ?t (abs_free xs b ys)"
  proof -
    have "seg m3 0 ?f (abs_free xs b ys) 0"
      using m3(2) by (simp add: abs_free_def c(1))
    moreover have "\<forall>c \<in> set (abs_free xs b ys). bfree c \<longrightarrow> breq c = 0"
      using core by (intro abs_free_simps(4) [OF nfp]) (simp add: heap_core_def)
    ultimately show ?thesis
      using core used unfolding heap_core_def abs_free_simps(1,2) [OF nfp]
      by (simp add: unaccount_def abs_free_simps(3) [OF nfp])
  qed
  moreover have "ld m3 ?a 4 = ld m2 ?a 4" and "ld m3 (?a + 4) 1 = ld m2 (?a + 4) 1"
    by (rule ld_same_bytes, simp add: m3(3))+
  then have "blk_magic ?t ?a = HEAP_MAGIC \<and> blk_free ?t ?a = 1"
    using m2(3,4) by (simp add: blk_defs)
  moreover have "\<forall>i \<in> used_data ?f xs \<union> used_data (?a + 40 + bsize b) ys. m3 i = hmem s i"
    using m2(5) m3(3) c(4) by auto
  ultimately show ?thesis
    by (simp add: unaccount_def)
qed

end
