(* ===== verification/Heap_Props.thy ===== *)
theory Heap_Props
  imports Heap_Spec
begin

section \<open>Correctness of the kernel heap\<close>

text \<open>
  The public operations of \<open>heap.c\<close> against the list of blocks: allocation is first fit
  and hands out fresh memory, release undoes it exactly, contents survive every operation on
  other blocks, the consistency check accepts every reachable heap, and the statistics add
  up to the size of the heap.
\<close>

lemma heap_core_update [simp]:
  "heap_core (s\<lparr>heap_lock := l\<rparr>) bs = heap_core s bs"
  "heap_core (s\<lparr>heap_failures := k\<rparr>) bs = heap_core s bs"
  "heap_core (s\<lparr>heap_invalid_frees := k\<rparr>) bs = heap_core s bs"
  by (simp_all add: heap_core_def)

lemma spinlock_roundtrip [simp]: "sl_state (spinlock_unlock l) = 0"
  by (simp add: spinlock_unlock_def atomic_defs)

text \<open>\<open>kmalloc\<close> in terms of the abstract allocation.\<close>

lemma kmalloc_ok:
  assumes inv: "heap_inv s bs" and sz: "0 < sz" "sz \<le> UINT64_MAX - 23" and n: "align16 (add64 sz 8) \<noteq> 0"
  shows "case abs_alloc (align16 (add64 sz 8)) sz bs of
      None \<Rightarrow> \<exists>t. kmalloc sz s = Some (0, t) \<and> heap_inv t bs \<and> heap_first t = heap_first s \<and>
        hmem t = hmem s \<and> heap_failures t = add64 (heap_failures s) 1
    | Some (off, cs) \<Rightarrow> \<exists>t. kmalloc sz s = Some (heap_first s + off, t) \<and> heap_inv t cs \<and>
        heap_first t = heap_first s \<and> (\<forall>i \<in> used_data (heap_first s) bs. hmem t i = hmem s i)"
proof -
  let ?s = "s\<lparr>heap_lock := (heap_lock s)\<lparr>sl_state := 1\<rparr>\<rparr>"
  have core: "heap_core ?s bs" and lock: "sl_state (heap_lock s) = 0" and pos: "heap_first s \<noteq> 0"
    using inv by (auto simp: heap_inv_def heap_core_def)
  have "kmalloc_unlocked sz ?s = kmalloc_scan (heap_first ?s) (align16 (add64 sz 8)) sz ?s"
    using sz n pos by (simp add: kmalloc_unlocked_def Let_def)
  moreover have "sz < 2 ^ 64"
    using sz(2) by simp
  note ok = kmalloc_scan_ok [OF core align16_pos [OF n] align16_less this]
  ultimately show ?thesis
    using ok lock core
    by (auto simp: kmalloc_def heap_inv_def split: option.splits)
qed

lemma kmalloc_zero: "heap_inv s bs \<Longrightarrow> \<exists>t. kmalloc 0 s = Some (0, t) \<and> heap_inv t bs"
  by (simp add: kmalloc_def kmalloc_unlocked_def heap_inv_def)

lemma kfree_ok:
  assumes inv: "heap_inv s (xs @ b # ys)" and used: "\<not> bfree b"
  shows "\<exists>t. kfree (heap_first s + extent xs + 40) s = Some t \<and> heap_inv t (abs_free xs b ys) \<and>
    heap_first t = heap_first s \<and> heap_failures t = heap_failures s \<and>
    blk_magic t (heap_first s + extent xs) = HEAP_MAGIC \<and> blk_free t (heap_first s + extent xs) = 1 \<and>
    (\<forall>i \<in> used_data (heap_first s) xs \<union> used_data (heap_first s + extent xs + 40 + bsize b) ys. hmem t i = hmem s i)"
proof -
  let ?s = "s\<lparr>heap_lock := (heap_lock s)\<lparr>sl_state := 1\<rparr>\<rparr>"
  have core: "heap_core ?s (xs @ b # ys)" and lock: "sl_state (heap_lock s) = 0"
    using inv by (auto simp: heap_inv_def)
  from kfree_unlocked_ok [OF core used] lock show ?thesis
    by (auto simp: kfree_def heap_inv_def blk_defs)
qed

text \<open>The split of a successful first-fit search.\<close>

lemma abs_alloc_cases:
  assumes "abs_alloc n req bs = Some (off, cs)"
  obtains xs b ys where "bs = xs @ b # ys" "cs = xs @ carve n req b @ ys" "fits n b" "off = extent xs + 40"
    "\<forall>x \<in> set xs. \<not> fits n x"
proof -
  obtain b ys where d: "dropWhile (\<lambda>b. \<not> fits n b) bs = b # ys"
    using assms by (auto simp: abs_alloc_def Let_def split: list.splits)
  let ?xs = "takeWhile (\<lambda>b. \<not> fits n b) bs"
  have "fits n b"
    using hd_dropWhile [of "\<lambda>b. \<not> fits n b" bs] d by simp
  moreover have "bs = ?xs @ b # ys"
    by (metis d takeWhile_dropWhile_id)
  moreover have "\<forall>x \<in> set ?xs. \<not> fits n x"
    by (auto dest: set_takeWhileD)
  moreover have "cs = ?xs @ carve n req b @ ys" "off = extent ?xs + 40"
    using assms d by (simp_all add: abs_alloc_def Let_def)
  ultimately show thesis
    using that by blast
qed

lemma abs_alloc_None: "abs_alloc n req bs = None \<longleftrightarrow> (\<forall>b \<in> set bs. \<not> fits n b)"
proof -
  have "abs_alloc n req bs = None \<longleftrightarrow> dropWhile (\<lambda>b. \<not> fits n b) bs = []"
    by (cases "dropWhile (\<lambda>b. \<not> fits n b) bs") (simp_all add: abs_alloc_def Let_def del: dropWhile_eq_Nil_conv)
  then show ?thesis
    by simp
qed

text \<open>Freeing what was just carved out restores the list.\<close>

lemma abs_free_carve:
  assumes nfp: "no_free_pair (xs @ b # ys)" and fit: "fits n b" and req: "breq b = 0"
  shows "abs_free xs (hd (carve n r b)) (tl (carve n r b) @ ys) = xs @ b # ys"
proof -
  have free: "bfree b"
    using fit by (simp add: fits_def)
  have ys: "\<not> bfree y" if "ys = y # zs" for y zs
    using nfp free that by (simp add: no_free_pair_append)
  have xs: "\<not> (xs \<noteq> [] \<and> bfree (last xs))"
    using nfp free by (simp add: no_free_pair_append)
  have "join_right ((hd (carve n r b))\<lparr>bfree := True, breq := 0\<rparr>) (tl (carve n r b) @ ys) = b # ys"
    using ys free req fit by (cases ys) (auto simp: carve_def join_right_def fits_def)
  then show ?thesis
    using xs by (auto simp: abs_free_def join_left_def)
qed

subsection \<open>Writing through the blocks in use\<close>

text \<open>The bytes an owner may write: its block without the canary.\<close>

fun user_data :: "nat \<Rightarrow> block list \<Rightarrow> nat set" where
  "user_data a [] = {}"
| "user_data a (b # bs) = (if bfree b then {} else {a + 40 ..< a + 40 + bsize b - 8}) \<union> user_data (a + 40 + bsize b) bs"

lemma user_data_append [simp]: "user_data a (xs @ ys) = user_data a xs \<union> user_data (a + extent xs) ys"
  by (induction xs arbitrary: a) (auto simp: add.assoc)

lemma user_data_range: "user_data a bs \<subseteq> {a + 40 ..< a + extent bs}"
proof (induction bs arbitrary: a)
  case (Cons b bs)
  show ?case
    using Cons.IH [of "a + 40 + bsize b"] by (auto simp: subset_iff)
qed simp

lemma seg_user_data:
  "(\<And>i. i \<notin> user_data a bs \<Longrightarrow> m i = m' i) \<Longrightarrow> seg m p a bs nxt \<longleftrightarrow> seg m' p a bs nxt"
proof (induction bs arbitrary: p a m')
  case (Cons b bs)
  let ?a = "a + 40 + bsize b"
  have later: "user_data ?a bs \<subseteq> {?a + 40 ..< ?a + extent bs}"
    by (rule user_data_range)
  define m'' where "m'' = (\<lambda>i. if i < ?a then m i else m' i)"
  have "seg m a ?a bs nxt \<longleftrightarrow> seg m'' a ?a bs nxt"
  proof (rule Cons.IH)
    show "m i = m'' i" if "i \<notin> user_data ?a bs" for i
      using that Cons.prems [of i] by (auto simp: m''_def split: if_splits)
  qed
  also have "\<dots> \<longleftrightarrow> seg m' a ?a bs nxt"
    by (rule seg_cong) (simp add: m''_def)
  finally have "seg m a ?a bs nxt \<longleftrightarrow> seg m' a ?a bs nxt" .
  moreover have "hdr m a b n q \<longleftrightarrow> hdr m' a b n q" for n q
  proof (rule hdr_cong)
    show "m i = m' i" if "a \<le> i" "i < a + 40" for i
      using that later by (intro Cons.prems) auto
  qed
  moreover have "ld m (?a - 8) 8 = ld m' (?a - 8) 8" if "8 \<le> bsize b"
  proof (rule ld_same_bytes)
    show "m i = m' i" if "?a - 8 \<le> i" "i < ?a - 8 + 8" for i
      using that later by (intro Cons.prems) auto
  qed
  ultimately show ?case
    by auto
qed simp

lemma heap_core_write:
  assumes "heap_core s bs" and "\<And>i. i \<notin> user_data (heap_first s) bs \<Longrightarrow> m i = hmem s i"
  shows "heap_core (s\<lparr>hmem := m\<rparr>) bs"
  using assms seg_user_data [of "heap_first s" bs m "hmem s" 0 0] by (simp add: heap_core_def)

subsection \<open>Walks over all blocks\<close>

lemma validate_walk_ok:
  "seg (hmem s) p a bs 0 \<Longrightarrow> heap_first s \<le> a \<Longrightarrow> 0 < a \<Longrightarrow> a + extent bs = heap_first s + HEAP_BYTES \<Longrightarrow>
   heap_first s + HEAP_BYTES < 2 ^ 64 \<Longrightarrow> cnt + length bs \<le> 65536 \<Longrightarrow>
   validate_walk (ptr a bs 0) p cnt s = Some 0"
proof (induction bs arbitrary: p a cnt)
  case Nil
  then show ?case
    by (simp add: validate_walk.simps)
next
  case (Cons b bs)
  note fields = seg_fields [OF Cons.prems(1)]
  let ?a = "a + 40 + bsize b"
  have arith: "add64 (heap_first s) HEAP_BYTES = heap_first s + HEAP_BYTES" "add64 a 40 = a + 40"
    "add64 (a + 40) (bsize b) = ?a"
    using Cons.prems(4,5) by (simp_all add: add64_small)
  have canary: "\<not> bfree b \<Longrightarrow> ld (hmem s) (block_canary s a) 8 = canary_value a"
    using Cons.prems(1) fields(3) by (simp add: block_canary_def)
  have "validate_walk a p cnt s = validate_walk (ptr ?a bs 0) a (cnt + 1) s"
    using Cons.prems(2-6) fields canary
    by (subst validate_walk.simps) (simp add: arith Let_def)
  also have "\<dots> = Some 0"
    using Cons.prems by (intro Cons.IH) simp_all
  finally show ?case
    by simp
qed

lemma length_blocks_le: "40 * length bs \<le> extent bs"
  by (induction bs) auto

definition add_block :: "heap_stats_t \<Rightarrow> block \<Rightarrow> heap_stats_t" where
  "add_block stats b =
     (if bfree b
      then stats\<lparr>blocks := blocks stats + 1, free_blocks := free_blocks stats + 1,
        free_bytes := free_bytes stats + bsize b, largest_free_block := max (largest_free_block stats) (bsize b)\<rparr>
      else stats\<lparr>blocks := blocks stats + 1\<rparr>)"

lemma stats_walk_ok:
  "seg (hmem s) p a bs 0 \<Longrightarrow> 0 < a \<Longrightarrow> blocks stats + length bs \<le> 65536 \<Longrightarrow>
   free_bytes stats + extent bs < 2 ^ 64 \<Longrightarrow> stats_walk (ptr a bs 0) s stats = Some (foldl add_block stats bs)"
proof (induction bs arbitrary: p a stats)
  case Nil
  then show ?case
    by (simp add: stats_walk.simps)
next
  case (Cons b bs)
  note fields = seg_fields [OF Cons.prems(1)]
  let ?a = "a + 40 + bsize b"
  have add: "add64 (free_bytes stats) (bsize b) = free_bytes stats + bsize b"
    using Cons.prems(4) by (simp add: add64_small)
  have "stats_walk a s stats = stats_walk (ptr ?a bs 0) s (add_block stats b)"
    using Cons.prems(2,3) fields
    by (subst stats_walk.simps) (simp add: add Let_def add_block_def max_def)
  also have "\<dots> = Some (foldl add_block (add_block stats b) bs)"
  proof (rule Cons.IH)
    show "seg (hmem s) a ?a bs 0"
      using Cons.prems(1) by simp
  qed (use Cons.prems in \<open>simp_all add: add_block_def\<close>)
  finally show ?case
    by simp
qed

lemma foldl_add_block:
  "blocks (foldl add_block z bs) = blocks z + length bs"
  "free_blocks (foldl add_block z bs) = free_blocks z + length (filter bfree bs)"
  "free_bytes (foldl add_block z bs) = free_bytes z + sum_list (map bsize (filter bfree bs))"
  "largest_free_block (foldl add_block z bs) = Max (set (largest_free_block z # map bsize (filter bfree bs)))"
  "used_bytes (foldl add_block z bs) = used_bytes z" "total_bytes (foldl add_block z bs) = total_bytes z"
  "allocations (foldl add_block z bs) = allocations z"
proof -
  have "largest_free_block (foldl add_block z bs) = foldl max (largest_free_block z) (map bsize (filter bfree bs))"
    by (induction bs arbitrary: z) (simp_all add: add_block_def)
  also have "foldl max k ks = fold max ks k" for k :: nat and ks
    by (induction ks arbitrary: k) (simp_all add: max.commute)
  finally show "largest_free_block (foldl add_block z bs) = Max (set (largest_free_block z # map bsize (filter bfree bs)))"
    by (simp only: Max.set_eq_fold)
qed (induction bs arbitrary: z; simp add: add_block_def)+

lemma extent_split:
  "extent bs = sum_list (map bsize (filter bfree bs)) + sum_list (map bsize (used_blocks bs)) + 40 * length bs"
  by (induction bs) auto

lemma length_split: "length bs = length (filter bfree bs) + length (used_blocks bs)"
  by (induction bs) auto

subsection \<open>Fresh blocks\<close>

lemma carve_data:
  assumes "fits n b"
  shows "{a + 40 ..< a + 40 + n} \<subseteq> used_data a (carve n r b)"
    and "{a + 40 ..< a + 40 + n - 8} \<subseteq> user_data a (carve n r b)"
  using assms by (auto simp: carve_def fits_def)

lemma abs_alloc_fresh:
  assumes "abs_alloc n req bs = Some (off, cs)"
  shows "{f + off ..< f + off + n} \<subseteq> used_data f cs"
    and "{f + off ..< f + off + n - 8} \<subseteq> user_data f cs"
    and "{f + off ..< f + off + n} \<inter> used_data f bs = {}"
    and "f + off + n \<le> f + extent bs" and "0 < off" and "extent cs = extent bs"
proof -
  obtain xs b ys where c: "bs = xs @ b # ys" "cs = xs @ carve n req b @ ys" "fits n b" "off = extent xs + 40"
    by (rule abs_alloc_cases [OF assms])
  have free: "bfree b" and n: "n \<le> bsize b"
    using c(3) by (simp_all add: fits_def)
  show "{f + off ..< f + off + n} \<subseteq> used_data f cs" and "{f + off ..< f + off + n - 8} \<subseteq> user_data f cs"
    using carve_data [OF c(3), of "f + extent xs" req] by (auto simp: c(2,4) add.assoc)
  show "{f + off ..< f + off + n} \<inter> used_data f bs = {}"
    using used_data_range [of f xs] used_data_range [of "f + extent xs + 40 + bsize b" ys] free n
    by (auto simp: c(1,4))
  show "f + off + n \<le> f + extent bs" "0 < off" "extent cs = extent bs"
    using n c(3) by (simp_all add: c(1,2,4))
qed

text \<open>Writing through a fresh block keeps the heap and everybody else's data.\<close>

lemma write_fresh:
  assumes "heap_core t cs" and "abs_alloc n r bs = Some (off, cs)" and "k + 8 \<le> n" and "heap_first t = f"
    and out: "\<And>i. i \<notin> {f + off ..< f + off + k} \<Longrightarrow> m i = hmem t i"
  shows "heap_core (t\<lparr>hmem := m\<rparr>) cs" and "i \<in> used_data f bs \<Longrightarrow> m i = hmem t i"
proof -
  have "{f + off ..< f + off + k} \<subseteq> {f + off ..< f + off + n - 8}" "{f + off ..< f + off + k} \<subseteq> {f + off ..< f + off + n}"
    using assms(3) by auto
  then have sub: "{f + off ..< f + off + k} \<subseteq> user_data f cs" "{f + off ..< f + off + k} \<inter> used_data f bs = {}"
    using abs_alloc_fresh(2,3) [OF assms(2), of f] by blast+
  show "heap_core (t\<lparr>hmem := m\<rparr>) cs"
    using sub(1) assms(4) by (intro heap_core_write [OF assms(1)] out) blast
  show "i \<in> used_data f bs \<Longrightarrow> m i = hmem t i"
    using sub(2) by (intro out) blast
qed

text \<open>A block in use is still there, at the same address, after an allocation.\<close>

lemma carve_keeps:
  assumes eq: "xs @ b # ys = us @ c # vs" and used: "\<not> bfree b" and fit: "fits n c"
  obtains xs' ys' where "us @ carve n r c @ vs = xs' @ b # ys'" "extent xs' = extent xs"
proof -
  have "b \<noteq> c"
    using used fit by (auto simp: fits_def)
  from eq consider (left) zs where "us = xs @ b # zs" | (right) zs where "xs = us @ c # zs" "vs = zs @ b # ys"
    using \<open>b \<noteq> c\<close> by (auto simp: append_eq_append_conv2 Cons_eq_append_conv append_eq_Cons_conv)
  then show thesis
  proof cases
    case left
    then show thesis
      by (intro that [of xs "zs @ carve n r c @ vs"]) simp_all
  next
    case right
    then show thesis
      using fit by (intro that [of "us @ carve n r c @ zs" ys]) simp_all
  qed
qed

lemma abs_alloc_keeps:
  assumes "abs_alloc n r (xs @ b # ys) = Some (off, cs)" and used: "\<not> bfree b"
  obtains xs' ys' where "cs = xs' @ b # ys'" "extent xs' = extent xs"
proof -
  obtain us c vs where c: "xs @ b # ys = us @ c # vs" "cs = us @ carve n r c @ vs" "fits n c"
    by (rule abs_alloc_cases [OF assms(1)])
  show thesis
    by (rule carve_keeps [OF c(1) used c(3)]) (rule that, simp add: c(2), simp)
qed

text \<open>Changing the recorded request of a block in use.\<close>

lemma set_requested_core:
  assumes core: "heap_core s (xs @ b # ys)" and used: "\<not> bfree b" and v: "v < 2 ^ 64"
  shows "heap_core (set_requested (heap_first s + extent xs) v s) (xs @ b\<lparr>breq := v\<rparr> # ys)"
proof -
  let ?a = "heap_first s + extent xs"
  let ?m = "st (hmem s) (?a + 16) 8 v"
  have left: "seg (hmem s) 0 (heap_first s) xs ?a" and right: "seg (hmem s) (last_addr 0 (heap_first s) xs) ?a (b # ys) 0"
    using core by (simp_all add: heap_core_def seg_append)
  have "seg ?m 0 (heap_first s) xs ?a"
    using left by (subst seg_cong [of _ _ ?m "hmem s"]) (simp_all add: st_outside)
  moreover have "seg ?m ?a (?a + 40 + bsize b) ys 0"
    using right by (subst seg_cong [of _ _ ?m "hmem s"]) (simp_all add: st_outside)
  moreover have "hdr ?m ?a (b\<lparr>breq := v\<rparr>) (ptr (?a + 40 + bsize b) ys 0) (last_addr 0 (heap_first s) xs)"
    using right v by (simp add: hdr_def mem_simps)
  moreover have "ld ?m (?a + 40 + bsize b - 8) 8 = canary_value ?a" "8 \<le> bsize b"
    using right used by (simp_all add: mem_simps)
  ultimately have "seg ?m 0 (heap_first s) (xs @ b\<lparr>breq := v\<rparr> # ys) 0"
    by (cases "ys = []") (simp_all add: seg_append)
  moreover have "no_free_pair (xs @ b\<lparr>breq := v\<rparr> # ys)"
    using core by (cases ys) (auto simp: heap_core_def no_free_pair_append)
  ultimately show ?thesis
    using core used by (simp add: heap_core_def set_requested_def)
qed

subsection \<open>A fresh heap\<close>

lemma heap_format_inv:
  assumes "sl_state (heap_lock s) = 0" and "0 < heap_first s" and "heap_first s + HEAP_BYTES < 2 ^ 64"
  shows "heap_inv (heap_format s) [\<lparr>bfree = True, bsize = HEAP_BYTES - 40, breq = 0\<rparr>]"
  using assms by (simp add: heap_format_def Let_def set_defs heap_inv_def heap_core_def hdr_def mem_simps)

definition heap_example :: heap where
  "heap_example = heap_format \<lparr>hmem = (\<lambda>_. 0), heap_first = 0x201000, heap_used = 0, heap_allocations = 0,
     heap_failures = 0, heap_invalid_frees = 0, heap_lock = \<lparr>sl_state = 0\<rparr>\<rparr>"

lemma heap_example_inv: "heap_inv heap_example [\<lparr>bfree = True, bsize = HEAP_BYTES - 40, breq = 0\<rparr>]"
  unfolding heap_example_def by (rule heap_format_inv) simp_all

lemma heap_example_first [simp]: "heap_first heap_example = 0x201000"
  by (simp add: heap_example_def heap_format_def Let_def set_defs)

subsection \<open>Zeroed blocks\<close>

lemma kcalloc_overflow:
  assumes "0 < count"
  shows "sz > UINT64_MAX div count \<longleftrightarrow> 2 ^ 64 \<le> count * sz"
proof -
  have "sz \<le> UINT64_MAX div count \<longleftrightarrow> sz * count \<le> UINT64_MAX"
    by (rule less_eq_div_iff_mult_less_eq [OF assms])
  moreover have "sz * count \<le> UINT64_MAX \<longleftrightarrow> \<not> 2 ^ 64 \<le> count * sz"
    unfolding mult.commute [of sz] by (rule iffI) simp_all
  ultimately show ?thesis
    by linarith
qed

lemma kmalloc_then_zero:
  assumes inv: "heap_inv s bs" and amount: "0 < amount" "amount + 23 < 2 ^ 32"
  shows "\<exists>p t cs. (kmalloc amount s \<bind> (\<lambda>(address, s).
      if address = 0 then Some (0, s) else Some (address, s\<lparr>hmem := mem_fill address amount 0 (hmem s)\<rparr>))) = Some (p, t) \<and>
    heap_inv t cs \<and>
    (if p = 0 then cs = bs \<and> hmem t = hmem s
     else abs_alloc (align16 (add64 amount 8)) amount bs = Some (p - heap_first s, cs) \<and>
       (\<forall>i < amount. hmem t (p + i) = 0) \<and> (\<forall>i \<in> used_data (heap_first s) bs. hmem t i = hmem s i))"
proof -
  let ?n = "align16 (add64 amount 8)"
  have n: "amount + 8 \<le> ?n"
    by (rule align16_enough(1) [OF amount(2)])
  have "amount \<le> UINT64_MAX - 23" "?n \<noteq> 0"
    using amount(2) n by auto
  note ok = kmalloc_ok [OF inv amount(1) this]
  show ?thesis
  proof (cases "abs_alloc ?n amount bs")
    case None
    then obtain t where "kmalloc amount s = Some (0, t)" "heap_inv t bs" "hmem t = hmem s"
      using ok by auto
    then show ?thesis
      by (intro exI [of _ 0] exI [of _ t] exI [of _ bs]) simp
  next
    case (Some r)
    obtain off cs where r: "r = (off, cs)"
      by (cases r)
    note alloc = Some [unfolded r]
    let ?p = "heap_first s + off"
    obtain t where t: "kmalloc amount s = Some (?p, t)" "heap_inv t cs" "heap_first t = heap_first s"
      "\<forall>i \<in> used_data (heap_first s) bs. hmem t i = hmem s i"
      using ok alloc by auto
    let ?m = "mem_fill ?p amount 0 (hmem t)"
    have "heap_core t cs"
      using t(2) by (simp add: heap_inv_def)
    moreover have "?m i = hmem t i" if "i \<notin> {?p ..< ?p + amount}" for i
      using that by (auto simp: mem_fill_eq)
    ultimately have "heap_core (t\<lparr>hmem := ?m\<rparr>) cs" and "\<forall>i \<in> used_data (heap_first s) bs. ?m i = hmem t i"
      using write_fresh [of t cs, OF _ alloc n t(3), of ?m] by blast+
    then have "heap_inv (t\<lparr>hmem := ?m\<rparr>) cs" and "\<forall>i \<in> used_data (heap_first s) bs. ?m i = hmem s i"
      using t(2,4) by (simp_all add: heap_inv_def)
    then show ?thesis
      using t(1) alloc abs_alloc_fresh(5) [OF alloc]
      by (intro exI [of _ ?p] exI [of _ "t\<lparr>hmem := ?m\<rparr>"] exI [of _ cs]) (simp add: mem_fill_eq)
  qed
qed

subsection \<open>The blocks in use\<close>

text \<open>The addresses handed out, each with its block.\<close>

fun live :: "nat \<Rightarrow> block list \<Rightarrow> (nat \<times> block) set" where
  "live a [] = {}"
| "live a (b # bs) = (if bfree b then {} else {(a + 40, b)}) \<union> live (a + 40 + bsize b) bs"

lemma live_append [simp]: "live a (xs @ ys) = live a xs \<union> live (a + extent xs) ys"
  by (induction xs arbitrary: a) (auto simp: add.assoc)

lemma live_range: "(p, c) \<in> live a bs \<Longrightarrow> a + 40 \<le> p \<and> p + bsize c \<le> a + extent bs"
  by (induction bs arbitrary: a) (fastforce split: if_splits)+

lemma live_data: "(p, c) \<in> live a bs \<Longrightarrow> i < bsize c \<Longrightarrow> p + i \<in> used_data a bs"
  by (induction bs arbitrary: a) (fastforce split: if_splits)+

lemma live_alloc:
  assumes "abs_alloc n r bs = Some (off, cs)"
  obtains c where "live f cs = insert (f + off, c) (live f bs)" "breq c = r" "n \<le> bsize c"
proof -
  obtain xs b ys where c: "bs = xs @ b # ys" "cs = xs @ carve n r b @ ys" "fits n b" "off = extent xs + 40"
    by (rule abs_alloc_cases [OF assms])
  have "live a (carve n r b) = {(a + 40, hd (carve n r b))}" for a
    by (simp add: carve_def)
  then have "live f cs = insert (f + off, hd (carve n r b)) (live f bs)"
    using c(3) by (simp add: c(1,2,4) fits_def add.assoc)
  then show thesis
    by (rule that) (use c(3) in simp_all)
qed

lemma live_free: "live a (abs_free xs b ys) = live a xs \<union> live (a + extent xs + 40 + bsize b) ys"
proof -
  let ?j = "join_right (b\<lparr>bfree := True, breq := 0\<rparr>) ys"
  obtain c zs where j: "?j = c # zs"
    using join_right_simps(1) by (cases "?j") auto
  then have free: "bfree c"
    using join_right_simps(3) [of "b\<lparr>bfree := True, breq := 0\<rparr>" ys] by simp
  have "live (a + 40 + bsize c) zs = live (a + 40 + bsize b) ys" for a
    using j by (cases ys) (auto simp: join_right_def add.assoc split: if_splits)
  from this [of "a + extent xs"] show ?thesis
    unfolding abs_free_def j using free by (cases xs rule: rev_cases) (auto simp: join_left_def add.assoc)
qed

lemma live_replace:
  assumes "\<not> bfree b" and "bsize c = bsize b" and "bfree c = bfree b"
  shows "live f (xs @ c # ys) = insert (f + extent xs + 40, c) (live f (xs @ b # ys) - {(f + extent xs + 40, b)})"
proof -
  have "(f + extent xs + 40, b) \<notin> live f xs" "(f + extent xs + 40, b) \<notin> live (f + extent xs + 40 + bsize b) ys"
    if "0 < bsize b"
    using that live_range [of "f + extent xs + 40" b f xs] live_range [of "f + extent xs + 40" b "f + extent xs + 40 + bsize b" ys] by auto
  then show ?thesis
    using assms live_range [of "f + extent xs + 40" b f xs]
      live_range [of "f + extent xs + 40" b "f + extent xs + 40 + bsize b" ys] by auto
qed

text \<open>The other blocks lie outside a block in use and its header.\<close>

lemma live_apart:
  assumes "(p, c) \<in> live f (xs @ b # ys)" and "(p, c) \<noteq> (f + extent xs + 40, b)" and "i < bsize c"
  shows "f + extent xs + 40 + bsize b \<le> p + i \<or> p + i < f + extent xs"
  using assms live_range [of p c f xs] live_range [of p c "f + extent xs + 40 + bsize b" ys] by (auto split: if_splits)

text \<open>Allocating one block and then freeing another replaces the one by the other.\<close>

lemma live_moved:
  assumes alloc: "abs_alloc n r (xs @ b # ys) = Some (off, xs' @ b # ys')" and ext: "extent xs' = extent xs"
    and used: "\<not> bfree b" and pos: "0 < n" "0 < bsize b"
  obtains c where "live f (abs_free xs' b ys') =
      insert (f + off, c) (live f (xs @ b # ys) - {(f + extent xs + 40, b)})" "breq c = r" "n \<le> bsize c"
proof -
  let ?p = "f + extent xs + 40"
  obtain c where c: "live f (xs' @ b # ys') = insert (f + off, c) (live f (xs @ b # ys))" "breq c = r" "n \<le> bsize c"
    by (rule live_alloc [OF alloc])
  have "(?p, b) \<notin> live f xs'" "(?p, b) \<notin> live (?p + bsize b) ys'"
    using live_range [of ?p b f xs'] live_range [of ?p b "?p + bsize b" ys'] ext by auto
  moreover have "live f (xs' @ b # ys') = live f xs' \<union> {(?p, b)} \<union> live (?p + bsize b) ys'"
    using used ext by simp
  moreover have "live f (abs_free xs' b ys') = live f xs' \<union> live (?p + bsize b) ys'"
    using ext by (simp add: live_free)
  ultimately have "live f (abs_free xs' b ys') = insert (f + off, c) (live f (xs @ b # ys)) - {(?p, b)}"
    unfolding c(1) [symmetric] by blast
  moreover have "f + off \<noteq> ?p"
  proof
    assume "f + off = ?p"
    then have "?p \<in> {f + off ..< f + off + n} \<inter> used_data f (xs @ b # ys)"
      using used pos by simp
    then show False
      using abs_alloc_fresh(3) [OF alloc, of f] by blast
  qed
  then have "insert (f + off, c) L - {(?p, b)} = insert (f + off, c) (L - {(?p, b)})" for L
    by (simp add: insert_Diff_if)
  ultimately show thesis
    using that [OF _ c(2,3)] by simp
qed

subsection \<open>Moving a block\<close>

text \<open>
  The growing branch of \<open>krealloc\<close>, with the lock held: allocate, copy, release. The
  old contents arrive in the new block.
\<close>

lemma grow_ok:
  assumes core: "heap_core s (xs @ b # ys)" and used: "\<not> bfree b" and fit: "breq b + 8 \<le> bsize b"
    and sz: "breq b < sz" "sz + 23 < 2 ^ 32"
    and alloc: "abs_alloc (align16 (add64 sz 8)) sz (xs @ b # ys) = Some (off, cs)"
    and t: "heap_core t cs" "heap_first t = heap_first s"
      "\<forall>i \<in> used_data (heap_first s) (xs @ b # ys). hmem t i = hmem s i"
  defines "p \<equiv> heap_first s + extent xs + 40" and "q \<equiv> heap_first s + off"
  shows "blk_requested t (heap_first s + extent xs) = breq b \<and>
    (\<exists>u ds. kfree_unlocked p (t\<lparr>hmem := mem_copy_fwd q p (breq b) (hmem t)\<rparr>) = Some u \<and> heap_core u ds \<and>
       heap_lock u = heap_lock t \<and> heap_first u = heap_first s \<and> (\<forall>i < breq b. hmem u (q + i) = hmem s (p + i)) \<and>
       (\<exists>c. live (heap_first s) ds = insert (q, c) (live (heap_first s) (xs @ b # ys) - {(p, b)}) \<and> breq c = sz \<and> sz + 8 \<le> bsize c) \<and>
       (\<forall>a d. (a, d) \<in> live (heap_first s) (xs @ b # ys) - {(p, b)} \<longrightarrow> (\<forall>i < bsize d. hmem u (a + i) = hmem s (a + i))))"
proof -
  let ?f = "heap_first s" and ?n = "align16 (add64 sz 8)" and ?k = "breq b"
  define m where "m = mem_copy_fwd q p ?k (hmem t)"
  have n: "sz + 8 \<le> ?n"
    by (rule align16_enough(1) [OF sz(2)])
  obtain xs' ys' where cs: "cs = xs' @ b # ys'" "extent xs' = extent xs"
    by (rule abs_alloc_keeps [OF alloc used])
  have "seg (hmem t) (last_addr 0 ?f xs') (?f + extent xs) (b # ys') 0"
    using t(1,2) unfolding cs(1) by (simp add: heap_core_def seg_append cs(2))
  note req = seg_fields(4) [OF this]
  have old: "{p ..< p + bsize b} \<subseteq> used_data ?f (xs @ b # ys)"
    using used by (auto simp: p_def)
  have new: "{q ..< q + ?n} \<inter> used_data ?f (xs @ b # ys) = {}" "{q ..< q + ?n} \<subseteq> used_data ?f cs"
    using abs_alloc_fresh(1,3) [OF alloc, of ?f] by (simp_all add: q_def)
  have apart: "q + ?n \<le> p \<or> p + bsize b \<le> q"
  proof (rule ccontr)
    assume "\<not> ?thesis"
    then have "max p q \<in> {p ..< p + bsize b} \<inter> {q ..< q + ?n}"
      using n fit by (auto simp: max_def)
    then show False
      using old new(1) by blast
  qed
  have m: "m i = (if q \<le> i \<and> i < q + ?k then hmem t (p + (i - q)) else hmem t i)" for i
  proof -
    have "q \<le> p \<or> p + 0 + ?k \<le> q + 0"
      using apart n sz(1) fit by auto
    then show ?thesis
      unfolding m_def by (subst copy_loop_eq) simp_all
  qed
  have "heap_core (t\<lparr>hmem := m\<rparr>) cs"
    by (rule write_fresh(1) [OF t(1) alloc _ t(2), of ?k]) (use n sz(1) m in \<open>auto simp: q_def\<close>)
  then have "heap_core (t\<lparr>hmem := m\<rparr>) (xs' @ b # ys')"
    by (simp add: cs(1))
  from kfree_unlocked_ok [OF this used] t(2) cs(2) obtain u where
    u: "kfree_unlocked p (t\<lparr>hmem := m\<rparr>) = Some u" "heap_core u (abs_free xs' b ys')" "heap_lock u = heap_lock t"
      "heap_first u = ?f"
      "\<forall>i \<in> used_data ?f xs' \<union> used_data (p + bsize b) ys'. hmem u i = m i"
    by (auto simp: p_def add.commute add.left_commute)
  have copied: "hmem u (q + i) = hmem s (p + i)" if i: "i < ?k" for i
  proof -
    have "q + i \<in> used_data ?f cs"
      using new(2) i n sz(1) by auto
    moreover have "q + i \<notin> {p ..< p + bsize b}"
      using apart i n sz(1) by auto
    ultimately have "q + i \<in> used_data ?f xs' \<union> used_data (p + bsize b) ys'"
      unfolding cs(1) using used cs(2) by (auto simp: p_def)
    then have "hmem u (q + i) = hmem t (p + i)"
      using u(5) m i by simp
    also have "p + i \<in> {p ..< p + bsize b}"
      using i fit by simp
    then have "hmem t (p + i) = hmem s (p + i)"
      using t(3) old by blast
    finally show ?thesis .
  qed
  have len: "0 < ?n" "0 < bsize b"
    using n fit by auto
  obtain c where ds: "live ?f (abs_free xs' b ys') = insert (q, c) (live ?f (xs @ b # ys) - {(p, b)})"
    and c: "breq c = sz" "?n \<le> bsize c"
    unfolding q_def p_def by (rule live_moved [OF alloc [unfolded cs(1)] cs(2) used len])
  have "hmem u (a + i) = hmem s (a + i)" if d: "(a, d) \<in> live ?f (xs @ b # ys) - {(p, b)}" and i: "i < bsize d" for a d i
  proof -
    have "(a, d) \<in> live ?f xs' \<union> live (p + bsize b) ys'"
      using d ds cs(2) unfolding live_free p_def by auto
    then have "a + i \<in> used_data ?f xs' \<union> used_data (p + bsize b) ys'"
      using live_data [OF _ i] by blast
    moreover have old: "a + i \<in> used_data ?f (xs @ b # ys)"
      using d by (intro live_data [OF _ i]) blast
    moreover have "\<not> (q \<le> a + i \<and> a + i < q + ?k)"
    proof
      assume "q \<le> a + i \<and> a + i < q + ?k"
      then have "a + i \<in> {q ..< q + ?n}"
        using n sz(1) by simp
      then show False
        using old new(1) by blast
    qed
    ultimately show ?thesis
      using u(5) m t(3) by metis
  qed
  moreover have "sz + 8 \<le> bsize c"
    using c(2) n by simp
  ultimately show ?thesis
    using req u(1-4) ds c(1) copied unfolding m_def by blast
qed

subsection \<open>Properties\<close>

text \<open>
  C2. \<open>kmalloc\<close> implements first-fit allocation on the list of blocks. For a request below
  4 GiB it returns null exactly when no free block can hold the rounded request (the memory
  is then unchanged and the failure is counted); otherwise the list changes by splitting the
  first block that fits, the bytes handed out are inside the heap and belonged to no block in
  use, and no byte of any block in use changes.
\<close>

theorem kmalloc_first_fit:
  assumes "heap_inv s bs" and "0 < sz" and "sz + 23 < 2 ^ 32"
  defines "n \<equiv> align16 (add64 sz 8)"
  shows "\<exists>p t. kmalloc sz s = Some (p, t) \<and> heap_first t = heap_first s \<and>
    (if \<forall>b \<in> set bs. \<not> (bfree b \<and> n \<le> bsize b)
     then p = 0 \<and> heap_inv t bs \<and> hmem t = hmem s \<and> heap_failures t = add64 (heap_failures s) 1
     else \<exists>off cs. abs_alloc n sz bs = Some (off, cs) \<and> p = heap_first s + off \<and> p \<noteq> 0 \<and> heap_inv t cs \<and>
       {p ..< p + sz} \<subseteq> user_data (heap_first s) cs \<and> {p ..< p + sz} \<inter> used_data (heap_first s) bs = {} \<and>
       p + sz \<le> heap_first s + HEAP_BYTES \<and>
       (\<forall>i \<in> used_data (heap_first s) bs. hmem t i = hmem s i))"
proof -
  have enough: "sz + 8 \<le> n"
    using align16_enough(1) [OF assms(3)] by (simp add: n_def)
  then have "n \<noteq> 0"
    by simp
  note ok = kmalloc_ok [OF assms(1,2), folded n_def, OF _ this]
  have none: "(\<forall>b \<in> set bs. \<not> (bfree b \<and> n \<le> bsize b)) \<longleftrightarrow> abs_alloc n sz bs = None"
    by (simp add: abs_alloc_None fits_def)
  show ?thesis
  proof (cases "abs_alloc n sz bs")
    case None
    then show ?thesis
      unfolding none using ok assms(3) by auto
  next
    case (Some r)
    obtain off cs where r: "r = (off, cs)"
      by (cases r)
    have len: "extent bs = HEAP_BYTES"
      using assms(1) by (simp add: heap_inv_def heap_core_def)
    note fresh = abs_alloc_fresh(1-4) [OF Some [unfolded r], of "heap_first s"]
      abs_alloc_fresh(5) [OF Some [unfolded r]]
    let ?p = "heap_first s + off"
    have "{?p ..< ?p + sz} \<subseteq> user_data (heap_first s) cs"
      by (rule order_trans [OF _ fresh(2)]) (use enough in auto)
    moreover have "{?p ..< ?p + sz} \<inter> used_data (heap_first s) bs = {}"
    proof -
      have "{?p ..< ?p + sz} \<subseteq> {?p ..< ?p + n}"
        using enough by auto
      then show ?thesis
        using fresh(3) by blast
    qed
    moreover have "?p + sz \<le> heap_first s + HEAP_BYTES"
      using fresh(4) enough len by simp
    ultimately show ?thesis
      unfolding none using ok Some fresh(5) assms(3) by (auto simp: r)
  qed
qed

theorem kmalloc_first_fit_witness:
  "\<exists>t. kmalloc 100 heap_example = Some (0x201028, t)"
proof -
  have "heap_inv heap_example [\<lparr>bfree = True, bsize = HEAP_BYTES - 40, breq = 0\<rparr>]"
    by (rule heap_example_inv)
  from kmalloc_first_fit [OF this, of 100] show ?thesis
    by (auto simp: align16_request abs_alloc_def fits_def)
qed

text \<open>
  C12. Releasing a block undoes its allocation exactly: \<open>kfree\<close> after a successful
  \<open>kmalloc\<close> coalesces the block with its neighbours back into the very list of blocks of
  before, whatever the size, and keeps the bytes of all other blocks in use.
\<close>

theorem kmalloc_kfree_restores:
  assumes "heap_inv s bs" and "kmalloc sz s = Some (p, t)" and "p \<noteq> 0" and "sz < 2 ^ 64"
  shows "\<exists>u. kfree p t = Some u \<and> heap_inv u bs \<and> heap_used u = heap_used s \<and>
    heap_allocations u = heap_allocations s \<and> (\<forall>i \<in> used_data (heap_first s) bs. hmem u i = hmem s i)"
proof -
  let ?n = "align16 (add64 sz 8)" and ?f = "heap_first s"
  have sz: "0 < sz" "sz \<le> UINT64_MAX - 23" "?n \<noteq> 0"
    using assms(2,3) by (auto simp: kmalloc_def kmalloc_unlocked_def Let_def split: if_splits bind_splits)
  from kmalloc_ok [OF assms(1) sz] assms(2,3) obtain off cs where
    r: "abs_alloc ?n sz bs = Some (off, cs)" "p = ?f + off" "heap_inv t cs" "heap_first t = ?f"
    "\<forall>i \<in> used_data ?f bs. hmem t i = hmem s i"
    by (auto split: option.splits)
  obtain xs b ys where c: "bs = xs @ b # ys" "cs = xs @ carve ?n sz b @ ys" "fits ?n b" "off = extent xs + 40"
    by (rule abs_alloc_cases [OF r(1)])
  let ?h = "hd (carve ?n sz b)" and ?l = "tl (carve ?n sz b)"
  have cs: "cs = xs @ ?h # ?l @ ys"
    using carve_simps(2) [OF c(3), of sz] by (cases "carve ?n sz b") (simp_all add: c(2))
  have b: "bfree b" "breq b = 0" and nfp: "no_free_pair (xs @ b # ys)"
    using assms(1) c(3) by (simp_all add: heap_inv_def heap_core_def c(1) fits_def)
  obtain u where u: "kfree (?f + extent xs + 40) t = Some u" "heap_inv u (abs_free xs ?h (?l @ ys))"
    "\<forall>i \<in> used_data ?f xs \<union> used_data (?f + extent xs + 40 + bsize ?h) (?l @ ys). hmem u i = hmem t i"
    using kfree_ok [OF r(3) [unfolded cs]] c(3) r(4) by auto
  have inv: "heap_inv u bs"
    using u(2) by (simp only: abs_free_carve [OF nfp c(3) b(2)] c(1))
  have "used_data ?f bs \<subseteq> used_data ?f xs \<union> used_data (?f + extent xs + 40 + bsize ?h) (?l @ ys)"
    using b(1) c(3) by (auto simp: c(1) carve_def fits_def add.assoc)
  then have "\<forall>i \<in> used_data ?f bs. hmem u i = hmem s i"
    using u(3) r(5) by auto
  then show ?thesis
    using u(1) inv assms(1) r(2) c(4) by (auto simp: heap_inv_def heap_core_def add.assoc)
qed

theorem kmalloc_kfree_restores_witness:
  "\<exists>t u. kmalloc 100 heap_example = Some (0x201028, t) \<and> kfree 0x201028 t = Some u \<and>
     heap_inv u [\<lparr>bfree = True, bsize = HEAP_BYTES - 40, breq = 0\<rparr>]"
proof -
  obtain t where "kmalloc 100 heap_example = Some (0x201028, t)"
    using kmalloc_ok [OF heap_example_inv, of 100] by (auto simp: align16_request abs_alloc_def fits_def)
  with kmalloc_kfree_restores [OF heap_example_inv this] show ?thesis
    by auto
qed

text \<open>
  A double free is detected: right after \<open>kfree\<close> has released a block, a second
  \<open>kfree\<close> of the same address changes nothing but the count of invalid frees, even when
  the block has been merged with its neighbours in between.
\<close>

theorem kfree_twice_detected:
  assumes "heap_inv s (xs @ b # ys)" and "\<not> bfree b"
  defines "p \<equiv> heap_first s + extent xs + 40"
  shows "\<exists>t u. kfree p s = Some t \<and> heap_inv t (abs_free xs b ys) \<and> kfree p t = Some u \<and>
    heap_inv u (abs_free xs b ys) \<and> hmem u = hmem t \<and>
    heap_invalid_frees u = add64 (heap_invalid_frees t) 1"
proof -
  obtain t where t: "kfree p s = Some t" "heap_inv t (abs_free xs b ys)"
    "blk_magic t (heap_first s + extent xs) = HEAP_MAGIC" "blk_free t (heap_first s + extent xs) = 1"
    using kfree_ok [OF assms(1,2)] by (auto simp: p_def)
  have lock: "sl_state (heap_lock t) = 0" and core: "heap_core t (abs_free xs b ys)"
    using t(2) by (simp_all add: heap_inv_def)
  define l where "l = spinlock_unlock ((heap_lock t)\<lparr>sl_state := 1\<rparr>)"
  have "kfree p t = Some (t\<lparr>heap_lock := l, heap_invalid_frees := add64 (heap_invalid_frees t) 1\<rparr>)"
    using t(3,4) lock by (simp add: kfree_def kfree_unlocked_def p_def blk_defs Let_def l_def)
  moreover have "heap_inv (t\<lparr>heap_lock := l, heap_invalid_frees := add64 (heap_invalid_frees t) 1\<rparr>) (abs_free xs b ys)"
    using core by (simp add: heap_inv_def heap_core_def l_def)
  ultimately show ?thesis
    using t(1,2) by auto
qed

text \<open>A heap with one small block in use.\<close>

lemma heap_example_used:
  "\<exists>t. kmalloc 100 heap_example = Some (0x201028, t) \<and> heap_first t = 0x201000 \<and>
     heap_inv t [\<lparr>bfree = False, bsize = 112, breq = 100\<rparr>, \<lparr>bfree = True, bsize = HEAP_BYTES - 192, breq = 0\<rparr>]"
  using kmalloc_ok [OF heap_example_inv, of 100]
  by (auto simp: align16_request abs_alloc_def fits_def carve_def)

text \<open>
  C13. The heap accounts for every byte. On every heap that satisfies the invariant
  \<open>heap_validate\<close> succeeds, and \<open>heap_get_stats\<close> returns: each block is either free or
  allocated, the used bytes, the free bytes and the 40-byte headers add up to the size of
  the heap, and \<open>largest_free_block\<close> is the largest size of a free block.
\<close>

theorem heap_accounts_for_every_byte:
  assumes "heap_inv s bs"
  shows "heap_validate s = Some 0 \<and>
    (\<exists>st. heap_get_stats s = Some st \<and> blocks st = length bs \<and> free_blocks st + allocations st = blocks st \<and>
       used_bytes st + free_bytes st + 40 * blocks st = total_bytes st \<and>
       largest_free_block st = Max (insert 0 {bsize b |b. b \<in> set bs \<and> bfree b}))"
proof -
  have core: "seg (hmem s) 0 (heap_first s) bs 0" "extent bs = HEAP_BYTES" "0 < heap_first s"
    "heap_first s + HEAP_BYTES < 2 ^ 64" "heap_used s = sum_list (map bsize (used_blocks bs))"
    "heap_allocations s = length (used_blocks bs)"
    using assms by (simp_all add: heap_inv_def heap_core_def)
  then have bs: "bs \<noteq> []"
    by auto
  have len: "length bs \<le> 65536"
    using length_blocks_le [of bs] core(2) by simp
  have "heap_validate s = Some 0"
    using validate_walk_ok [OF core(1) _ core(3) _ core(4), of 0] core(2) bs len by (simp add: heap_validate_def)
  moreover define z where "z = \<lparr>total_bytes = heap_total_bytes, used_bytes = heap_used s, free_bytes = 0,
    largest_free_block = 0, allocations = heap_allocations s, allocation_failures = heap_failures s,
    invalid_frees = heap_invalid_frees s, blocks = 0, free_blocks = 0\<rparr>"
  have "heap_get_stats s = Some (foldl add_block z bs)"
    using stats_walk_ok [OF core(1,3), of z] len core(2) bs by (simp add: heap_get_stats_def z_def)
  moreover have "set (0 # map bsize (filter bfree bs)) = insert 0 {bsize b |b. b \<in> set bs \<and> bfree b}"
    by auto
  ultimately show ?thesis
    using extent_split [of bs] length_split [of bs] core(2,5,6)
    by (simp add: foldl_add_block z_def heap_total_bytes_def)
qed

theorem heap_accounts_for_every_byte_witness:
  "heap_validate heap_example = Some 0"
  using heap_accounts_for_every_byte [OF heap_example_inv] by simp

text \<open>
  C38. \<open>align16\<close> masks with the 32-bit constant \<open>~15u\<close>, so a request of 4 GiB is rounded to
  16 bytes: on a heap of 1 MiB with any free block of 16 bytes, \<open>kmalloc\<close> of 4 GiB succeeds
  and returns an address whose requested range reaches far beyond the end of the heap.
\<close>

theorem kmalloc_4gib_succeeds:
  assumes "heap_inv s bs" and "b \<in> set bs" and "bfree b" and "16 \<le> bsize b"
  shows "align16 (add64 0x100000000 8) = 16 \<and>
    (\<exists>p t. kmalloc 0x100000000 s = Some (p, t) \<and> p \<noteq> 0 \<and> heap_first s + HEAP_BYTES < p + 0x100000000)"
proof -
  have n: "align16 (add64 0x100000000 8) = 16"
    by (simp add: align16_request)
  have "abs_alloc 16 0x100000000 bs \<noteq> None"
    using assms(2-4) by (auto simp: abs_alloc_None fits_def)
  then obtain off cs where r: "abs_alloc 16 0x100000000 bs = Some (off, cs)"
    by auto
  then show ?thesis
    using kmalloc_ok [OF assms(1), of "0x100000000"] abs_alloc_fresh(5) [OF r] n by auto
qed

theorem kmalloc_4gib_succeeds_witness:
  "\<exists>p t. kmalloc 0x100000000 heap_example = Some (p, t) \<and> p \<noteq> 0"
  using kmalloc_4gib_succeeds [OF heap_example_inv, of "\<lparr>bfree = True, bsize = HEAP_BYTES - 40, breq = 0\<rparr>"] by auto

text \<open>
  \<open>kcalloc\<close> returns null when \<open>count * size\<close> does not fit 64 bits. Otherwise, for a
  amount below 4 GiB, a block it returns is entirely zero, the heap stays consistent, and no
  byte of any other block in use changes.
\<close>

theorem kcalloc_zeroed:
  assumes "heap_inv s bs" and "0 < count" and "0 < sz" and "sz < 2 ^ 64" and "count < 2 ^ 64"
    and "count * sz + 23 < 2 ^ 32 \<or> 2 ^ 64 \<le> count * sz"
  shows "\<exists>p t cs. kcalloc count sz s = Some (p, t) \<and> heap_inv t cs \<and>
    (2 ^ 64 \<le> count * sz \<longrightarrow> p = 0) \<and>
    (if p = 0 then cs = bs \<and> hmem t = hmem s
     else abs_alloc (align16 (add64 (count * sz) 8)) (count * sz) bs = Some (p - heap_first s, cs) \<and>
       (\<forall>i < count * sz. hmem t (p + i) = 0) \<and> (\<forall>i \<in> used_data (heap_first s) bs. hmem t i = hmem s i))"
proof (cases "2 ^ 64 \<le> count * sz")
  case True
  have "heap_inv (s\<lparr>heap_failures := add64 (heap_failures s) 1\<rparr>) bs"
    using assms(1) by (simp add: heap_inv_def)
  then show ?thesis
    using True kcalloc_overflow [OF assms(2)] assms(2,3)
    by (intro exI [of _ 0] exI [of _ "s\<lparr>heap_failures := add64 (heap_failures s) 1\<rparr>"] exI [of _ bs])
      (simp add: kcalloc_def)
next
  case False
  define amount where "amount = count * sz"
  have amount: "0 < amount" "amount + 23 < 2 ^ 32"
    using assms(2,3,6) False by (auto simp: amount_def)
  have calloc: "kcalloc count sz s = kmalloc amount s \<bind> (\<lambda>(address, s).
      if address = 0 then Some (0, s) else Some (address, s\<lparr>hmem := mem_fill address amount 0 (hmem s)\<rparr>))"
    unfolding amount_def using kcalloc_overflow [OF assms(2)] False assms(2,3) by (simp add: kcalloc_def Let_def)
  have "\<exists>p t cs. (kmalloc amount s \<bind> (\<lambda>(address, s).
      if address = 0 then Some (0, s) else Some (address, s\<lparr>hmem := mem_fill address amount 0 (hmem s)\<rparr>))) = Some (p, t) \<and>
    heap_inv t cs \<and>
    (if p = 0 then cs = bs \<and> hmem t = hmem s
     else abs_alloc (align16 (add64 amount 8)) amount bs = Some (p - heap_first s, cs) \<and>
       (\<forall>i < amount. hmem t (p + i) = 0) \<and> (\<forall>i \<in> used_data (heap_first s) bs. hmem t i = hmem s i))"
    by (rule kmalloc_then_zero [OF assms(1) amount])
  then show ?thesis
    unfolding calloc amount_def [symmetric] using False by (auto simp: amount_def [symmetric])
qed

text \<open>The two ways of \<open>krealloc\<close> with a block in use: it stays where it is, or it moves.\<close>

lemma krealloc_start:
  assumes "heap_inv s (xs @ b # ys)" and "\<not> bfree b"
  defines "a \<equiv> heap_first s + extent xs" and "u \<equiv> s\<lparr>heap_lock := (heap_lock s)\<lparr>sl_state := 1\<rparr>\<rparr>"
  shows "spinlock_lock (heap_lock s) = Some ((heap_lock s)\<lparr>sl_state := 1\<rparr>)" "heap_core u (xs @ b # ys)" "0 < heap_first s"
    "blk_magic u a = HEAP_MAGIC" "blk_free u a = 0" "blk_requested u a = breq b"
    "ld (hmem s) (block_canary u a) 8 = canary_value a"
proof -
  show "spinlock_lock (heap_lock s) = Some ((heap_lock s)\<lparr>sl_state := 1\<rparr>)" "0 < heap_first s"
    and core: "heap_core u (xs @ b # ys)"
    using assms(1) by (simp_all add: heap_inv_def heap_core_def u_def)
  have "seg (hmem u) (last_addr 0 (heap_first s) xs) a (b # ys) 0"
    using core by (simp add: heap_core_def seg_append a_def u_def)
  note fields = seg_fields [OF this]
  show "blk_magic u a = HEAP_MAGIC" "blk_free u a = 0" "blk_requested u a = breq b"
    using fields assms(2) by simp_all
  show "ld (hmem s) (block_canary u a) 8 = canary_value a"
    using core assms(2) fields(3) by (simp add: block_canary_def heap_core_def seg_append a_def u_def)
qed

lemma krealloc_stay:
  assumes inv: "heap_inv s (xs @ b # ys)" and used: "\<not> bfree b" and sz: "0 < sz" "sz < 2 ^ 64" "sz \<le> breq b"
  defines "f \<equiv> heap_first s"
  defines "p \<equiv> f + extent xs + 40"
  obtains t where "krealloc p sz s = Some (p, t)" "heap_inv t (xs @ b\<lparr>breq := sz\<rparr> # ys)" "heap_first t = f"
    "\<And>i. f + extent xs + 24 \<le> i \<or> i < f + extent xs \<Longrightarrow> hmem t i = hmem s i"
proof -
  let ?s = "s\<lparr>heap_lock := (heap_lock s)\<lparr>sl_state := 1\<rparr>\<rparr>"
  let ?t = "set_requested (f + extent xs) sz ?s"
  let ?u = "?t\<lparr>heap_lock := spinlock_unlock (heap_lock ?t)\<rparr>"
  note start = krealloc_start [OF inv used]
  have "heap_core ?t (xs @ b\<lparr>breq := sz\<rparr> # ys)"
    using set_requested_core [OF start(2) used sz(2)] by (simp add: f_def)
  then have "heap_inv ?u (xs @ b\<lparr>breq := sz\<rparr> # ys)"
    by (simp add: heap_inv_def)
  moreover have "krealloc p sz s = Some (p, ?u)"
    using start sz(1,3) by (simp add: krealloc_def p_def f_def Let_def)
  moreover have "heap_first ?u = f" "\<And>i. f + extent xs + 24 \<le> i \<or> i < f + extent xs \<Longrightarrow> hmem ?u i = hmem s i"
    by (auto simp: set_requested_def f_def intro!: st_outside)
  ultimately show thesis
    using that by blast
qed

lemma krealloc_grow:
  assumes inv: "heap_inv s (xs @ b # ys)" and used: "\<not> bfree b" and sz: "0 < sz" "sz + 23 < 2 ^ 32" "breq b < sz"
  defines "f \<equiv> heap_first s" and "n \<equiv> align16 (add64 sz 8)"
  defines "p \<equiv> f + extent xs + 40"
  shows "case abs_alloc n sz (xs @ b # ys) of
      None \<Rightarrow> \<exists>t. krealloc p sz s = Some (0, t) \<and> heap_inv t (xs @ b # ys) \<and> heap_first t = f \<and> hmem t = hmem s
    | Some (off, cs) \<Rightarrow> \<exists>t. heap_core t cs \<and> heap_first t = f \<and> (\<forall>i \<in> used_data f (xs @ b # ys). hmem t i = hmem s i) \<and>
        (blk_requested t (f + extent xs) = breq b \<longrightarrow>
         (\<forall>u. kfree_unlocked p (t\<lparr>hmem := mem_copy_fwd (f + off) p (breq b) (hmem t)\<rparr>) = Some u \<longrightarrow>
           krealloc p sz s = Some (f + off, u\<lparr>heap_lock := spinlock_unlock (heap_lock u)\<rparr>)))"
proof -
  let ?s = "s\<lparr>heap_lock := (heap_lock s)\<lparr>sl_state := 1\<rparr>\<rparr>"
  note start = krealloc_start [OF inv used]
  have n: "sz \<le> UINT64_MAX - 23" "n \<noteq> 0"
    using sz(2) align16_enough(1) [OF sz(2)] by (auto simp: n_def)
  have unlocked: "kmalloc_unlocked sz ?s = kmalloc_scan (heap_first ?s) n sz ?s"
    using n sz(1) start(3) by (simp add: kmalloc_unlocked_def Let_def n_def)
  have "sz < 2 ^ 64"
    using sz(2) by simp
  note ok = kmalloc_scan_ok [OF start(2) align16_pos [OF n(2) [unfolded n_def]] align16_less this, folded n_def]
  have realloc: "krealloc p sz s = do {
      (replacement, t) \<leftarrow> kmalloc_unlocked sz ?s;
      if replacement = 0 then Some (0, t\<lparr>heap_lock := spinlock_unlock (heap_lock t)\<rparr>)
      else do {
        u \<leftarrow> kfree_unlocked p (t\<lparr>hmem := mem_copy_fwd replacement p (blk_requested t (f + extent xs)) (hmem t)\<rparr>);
        Some (replacement, u\<lparr>heap_lock := spinlock_unlock (heap_lock u)\<rparr>) } }"
    using start sz(1,3) unfolding krealloc_def p_def f_def Let_def add_diff_cancel_right' by simp
  show ?thesis
  proof (cases "abs_alloc n sz (xs @ b # ys)")
    case None
    then obtain t where t: "kmalloc_unlocked sz ?s = Some (0, t)" "heap_core t (xs @ b # ys)" "heap_first t = f" "hmem t = hmem s"
      using ok start(2) unlocked by (auto simp: f_def)
    then show ?thesis
      unfolding realloc None by (simp add: heap_inv_def)
  next
    case (Some r)
    then obtain off cs t where r: "r = (off, cs)" and t: "kmalloc_unlocked sz ?s = Some (f + off, t)" "heap_core t cs"
        "heap_first t = f" "\<forall>i \<in> used_data f (xs @ b # ys). hmem t i = hmem s i"
      using ok unlocked by (cases r) (auto simp: f_def)
    have "0 < f"
      using start(3) by (simp add: f_def)
    then have moved: "krealloc p sz s = Some (f + off, u\<lparr>heap_lock := spinlock_unlock (heap_lock u)\<rparr>)"
      if "blk_requested t (f + extent xs) = breq b"
        "kfree_unlocked p (t\<lparr>hmem := mem_copy_fwd (f + off) p (breq b) (hmem t)\<rparr>) = Some u" for u
      unfolding realloc t(1) using that by simp
    show ?thesis
      unfolding Some r option.case prod.case
      by (intro exI [of _ t] conjI allI impI) (fact t(2-4) | rule moved, assumption+)+
  qed
qed

text \<open>
  C14. \<open>krealloc\<close> resizes one block and leaves the rest alone. For a block in use that holds its
  recorded request and a new size below 4 GiB it returns null exactly when the block must grow and
  no free block can hold the rounded size; then nothing has changed. Otherwise the blocks in use
  are the old ones with this one replaced by the block at the returned address, which records the
  new size and has room for it; a block that need not grow stays where it is. The first
  \<open>min old new\<close> bytes are those of the old block, every other block keeps all its bytes, and the
  heap stays consistent.
\<close>

theorem krealloc_keeps_contents:
  assumes inv: "heap_inv s (xs @ b # ys)" and used: "\<not> bfree b" and fit: "breq b + 8 \<le> bsize b"
    and sz: "0 < sz" "sz + 23 < 2 ^ 32"
  defines "p \<equiv> heap_first s + extent xs + 40" and "old \<equiv> live (heap_first s) (xs @ b # ys)"
  shows "\<exists>q t cs. krealloc p sz s = Some (q, t) \<and> heap_inv t cs \<and> heap_first t = heap_first s \<and>
    (q = 0 \<longleftrightarrow> breq b < sz \<and> (\<forall>c \<in> set (xs @ b # ys). \<not> (bfree c \<and> align16 (add64 sz 8) \<le> bsize c))) \<and>
    (if q = 0 then cs = xs @ b # ys \<and> hmem t = hmem s
     else (\<exists>c. live (heap_first t) cs = insert (q, c) (old - {(p, b)}) \<and> breq c = sz \<and> sz + 8 \<le> bsize c) \<and>
       (sz \<le> breq b \<longrightarrow> q = p) \<and> (\<forall>i < min sz (breq b). hmem t (q + i) = hmem s (p + i)) \<and>
       (\<forall>a d. (a, d) \<in> old - {(p, b)} \<longrightarrow> (\<forall>i < bsize d. hmem t (a + i) = hmem s (a + i))))"
proof (cases "sz \<le> breq b")
  case True
  have "sz < 2 ^ 64"
    using sz(2) by simp
  from krealloc_stay [OF inv used sz(1) this True] obtain t where
    t: "krealloc p sz s = Some (p, t)" "heap_inv t (xs @ b\<lparr>breq := sz\<rparr> # ys)" "heap_first t = heap_first s"
      "\<And>i. heap_first s + extent xs + 24 \<le> i \<or> i < heap_first s + extent xs \<Longrightarrow> hmem t i = hmem s i"
    unfolding p_def by blast
  have "live (heap_first t) (xs @ b\<lparr>breq := sz\<rparr> # ys) = insert (p, b\<lparr>breq := sz\<rparr>) (old - {(p, b)})"
    unfolding old_def p_def t(3) by (rule live_replace [OF used]) simp_all
  moreover have "hmem t (a + i) = hmem s (a + i)" if "(a, d) \<in> old - {(p, b)}" "i < bsize d" for a d i
    using that live_apart [of a d "heap_first s" xs b ys i] by (intro t(4)) (auto simp: old_def p_def simp del: live_append)
  moreover have "hmem t (p + i) = hmem s (p + i)" for i
    by (intro t(4)) (simp add: p_def)
  moreover have "p \<noteq> 0" "breq (b\<lparr>breq := sz\<rparr>) = sz" "sz + 8 \<le> bsize (b\<lparr>breq := sz\<rparr>)" "\<not> breq b < sz"
    using True fit by (simp_all add: p_def)
  ultimately show ?thesis
    using t(1-3) by (intro exI [of _ p] exI [of _ t] exI [of _ "xs @ b\<lparr>breq := sz\<rparr> # ys"]) (simp only: if_False simp_thms, blast)
next
  case False
  let ?n = "align16 (add64 sz 8)" and ?f = "heap_first s"
  have grow: "breq b < sz"
    using False by simp
  note ok = krealloc_grow [OF inv used sz grow]
  show ?thesis
  proof (cases "abs_alloc ?n sz (xs @ b # ys)")
    case None
    then have "\<forall>c \<in> set (xs @ b # ys). \<not> (bfree c \<and> ?n \<le> bsize c)"
      unfolding abs_alloc_None fits_def .
    moreover obtain t where "krealloc p sz s = Some (0, t)" "heap_inv t (xs @ b # ys)" "heap_first t = ?f" "hmem t = hmem s"
      using ok None unfolding p_def by auto
    ultimately show ?thesis
      using grow by (intro exI [of _ 0] exI [of _ t] exI [of _ "xs @ b # ys"]) (simp only: if_True simp_thms)
  next
    case (Some r)
    then obtain off cs where alloc: "abs_alloc ?n sz (xs @ b # ys) = Some (off, cs)"
      by (cases r) auto
    then obtain t where t: "heap_core t cs" "heap_first t = ?f" "\<forall>i \<in> used_data ?f (xs @ b # ys). hmem t i = hmem s i"
      and realloc: "\<And>u. blk_requested t (?f + extent xs) = breq b \<Longrightarrow>
        kfree_unlocked p (t\<lparr>hmem := mem_copy_fwd (?f + off) p (breq b) (hmem t)\<rparr>) = Some u \<Longrightarrow>
        krealloc p sz s = Some (?f + off, u\<lparr>heap_lock := spinlock_unlock (heap_lock u)\<rparr>)"
      using ok unfolding p_def by auto
    have core: "heap_core s (xs @ b # ys)" "?f \<noteq> 0"
      using inv by (simp_all add: heap_inv_def heap_core_def)
    from grow_ok [OF core(1) used fit grow sz(2) alloc t] obtain u ds where
      u: "blk_requested t (?f + extent xs) = breq b" "heap_core u ds" "heap_first u = ?f"
        "kfree_unlocked p (t\<lparr>hmem := mem_copy_fwd (?f + off) p (breq b) (hmem t)\<rparr>) = Some u"
        "\<forall>i < breq b. hmem u (?f + off + i) = hmem s (p + i)"
      and live: "\<exists>c. live ?f ds = insert (?f + off, c) (old - {(p, b)}) \<and> breq c = sz \<and> sz + 8 \<le> bsize c"
        "\<forall>a d. (a, d) \<in> old - {(p, b)} \<longrightarrow> (\<forall>i < bsize d. hmem u (a + i) = hmem s (a + i))"
      unfolding p_def old_def by blast
    define v where "v = u\<lparr>heap_lock := spinlock_unlock (heap_lock u)\<rparr>"
    have v: "krealloc p sz s = Some (?f + off, v)" "heap_inv v ds" "heap_first v = ?f" "hmem v = hmem u"
      using realloc [OF u(1,4)] u(2,3) by (simp_all add: v_def heap_inv_def)
    have "\<not> (\<forall>c \<in> set (xs @ b # ys). \<not> (bfree c \<and> ?n \<le> bsize c))"
      using alloc abs_alloc_None [of ?n sz "xs @ b # ys"] unfolding fits_def by force
    moreover have "?f + off \<noteq> 0" "\<forall>i < min sz (breq b). hmem v (?f + off + i) = hmem s (p + i)"
      using core(2) u(5) v(4) by simp_all
    ultimately show ?thesis
      using v live False unfolding v(4) [symmetric]
      by (intro exI [of _ "?f + off"] exI [of _ v] exI [of _ ds]) (simp only: if_False simp_thms)
  qed
qed

text \<open>A block of 100 bytes grows to 256 bytes in the free block behind it.\<close>

theorem krealloc_keeps_contents_witness:
  "\<exists>s q t. krealloc 0x201028 256 s = Some (q, t) \<and> q \<noteq> 0 \<and> hmem t (q + 7) = hmem s 0x20102F"
proof -
  obtain s where s: "heap_first s = 0x201000"
    "heap_inv s ([] @ \<lparr>bfree = False, bsize = 112, breq = 100\<rparr> # [\<lparr>bfree = True, bsize = HEAP_BYTES - 192, breq = 0\<rparr>])"
    using heap_example_used by auto
  have "align16 (add64 256 8) \<le> HEAP_BYTES - 192"
    by (simp add: align16_request)
  then obtain q t where "krealloc 0x201028 256 s = Some (q, t)" "q \<noteq> 0"
    "\<forall>i < 100. hmem t (q + i) = hmem s (0x201028 + i)"
    using krealloc_keeps_contents [OF s(2), of 256] s(1) by (auto split: if_splits)
  then show ?thesis
    by (intro exI [of _ s] exI [of _ q] exI [of _ t]) (auto dest: spec [of _ 7])
qed

end
