(* ===== verification/Util_Arith.thy ===== *)
theory Util_Arith
  imports Prelude
begin

section \<open>Integer utilities (\<open>src/core/util.c\<close>)\<close>

text \<open>
  The arithmetic and bit-manipulation functions of \<open>util.c\<close>, on words of the width the C
  code uses; \<open>int64_t\<close> values are integers in the range of that type. A result pointer is
  a \<open>cell\<close>: \<open>None\<close> for the null pointer, \<open>Some v\<close> for a variable that holds \<open>v\<close>; a
  function with such a parameter returns its status and the variable after the call.
\<close>

type_synonym 'a cell = "'a option"

abbreviation MVH_U64_MAX :: u64 where "MVH_U64_MAX \<equiv> - 1"
abbreviation INT64_MAX :: int where "INT64_MAX \<equiv> 9223372036854775807"
abbreviation INT64_MIN :: int where "INT64_MIN \<equiv> - 9223372036854775808"

definition is_i64 :: "int \<Rightarrow> bool" where
  "is_i64 v \<longleftrightarrow> INT64_MIN \<le> v \<and> v \<le> INT64_MAX"

lemma unat_drop_bit_less:
  fixes v :: "'a::len word"
  shows "v \<noteq> 0 \<Longrightarrow> 0 < n \<Longrightarrow> unat (drop_bit n v) < unat v"
proof -
  assume "v \<noteq> 0" and "0 < n"
  then have "0 < unat v" and "(2 :: nat) \<le> 2 ^ n"
    by (simp_all add: unat_gt_0 self_le_power)
  moreover have "unat (drop_bit n v) = unat v div 2 ^ n"
    by (rule trans [OF unat_drop_bit_eq drop_bit_eq_div])
  ultimately show ?thesis
    by (simp add: div_less_dividend)
qed

subsection \<open>Minimum, maximum, clamping\<close>

definition mvh_min_u64 :: "u64 \<Rightarrow> u64 \<Rightarrow> u64" where
  "mvh_min_u64 left right = (if left < right then left else right)"
definition mvh_max_u64 :: "u64 \<Rightarrow> u64 \<Rightarrow> u64" where
  "mvh_max_u64 left right = (if left > right then left else right)"
definition mvh_clamp_u64 :: "u64 \<Rightarrow> u64 \<Rightarrow> u64 \<Rightarrow> u64" where
  "mvh_clamp_u64 v minimum maximum =
     (if v < minimum then minimum else if v > maximum then maximum else v)"
definition mvh_min_u32 :: "u32 \<Rightarrow> u32 \<Rightarrow> u32" where
  "mvh_min_u32 left right = (if left < right then left else right)"
definition mvh_max_u32 :: "u32 \<Rightarrow> u32 \<Rightarrow> u32" where
  "mvh_max_u32 left right = (if left > right then left else right)"
definition mvh_clamp_u32 :: "u32 \<Rightarrow> u32 \<Rightarrow> u32 \<Rightarrow> u32" where
  "mvh_clamp_u32 v minimum maximum =
     (if v < minimum then minimum else if v > maximum then maximum else v)"
definition mvh_min_i64 :: "int \<Rightarrow> int \<Rightarrow> int" where
  "mvh_min_i64 left right = (if left < right then left else right)"
definition mvh_max_i64 :: "int \<Rightarrow> int \<Rightarrow> int" where
  "mvh_max_i64 left right = (if left > right then left else right)"
definition mvh_clamp_i64 :: "int \<Rightarrow> int \<Rightarrow> int \<Rightarrow> int" where
  "mvh_clamp_i64 v minimum maximum =
     (if v < minimum then minimum else if v > maximum then maximum else v)"

subsection \<open>Powers of two and alignment\<close>

definition mvh_is_power_of_two_u64 :: "u64 \<Rightarrow> bool" where
  "mvh_is_power_of_two_u64 v \<longleftrightarrow> v \<noteq> 0 \<and> v AND (v - 1) = 0"

definition mvh_align_up_u64 :: "u64 \<Rightarrow> u64 \<Rightarrow> u64" where
  "mvh_align_up_u64 v alignment =
     (if \<not> mvh_is_power_of_two_u64 alignment then 0
      else let mask = alignment - 1 in
        if v > MVH_U64_MAX - mask then 0 else (v + mask) AND NOT mask)"

definition mvh_align_down_u64 :: "u64 \<Rightarrow> u64 \<Rightarrow> u64" where
  "mvh_align_down_u64 v alignment =
     (if mvh_is_power_of_two_u64 alignment then v AND NOT (alignment - 1) else 0)"

text \<open>The loop \<open>for (shift = 1; shift < 64; shift <<= 1) value |= value >> shift;\<close>.\<close>

definition smear :: "u64 \<Rightarrow> u64" where
  "smear v = fold (\<lambda>shift v. v OR drop_bit shift v) [1, 2, 4, 8, 16, 32] v"

definition mvh_next_power_of_two_u64 :: "u64 \<Rightarrow> u64" where
  "mvh_next_power_of_two_u64 v =
     (if v \<le> 1 then 1
      else if v > push_bit 63 1 then 0
      else smear (v - 1) + 1)"

subsection \<open>Checked arithmetic\<close>

definition mvh_checked_add_u64 :: "u64 \<Rightarrow> u64 \<Rightarrow> u64 cell \<Rightarrow> int \<times> u64 cell" where
  "mvh_checked_add_u64 left right result =
     (if result = None \<or> left > MVH_U64_MAX - right then (- 1, result)
      else (0, Some (left + right)))"

definition mvh_checked_mul_u64 :: "u64 \<Rightarrow> u64 \<Rightarrow> u64 cell \<Rightarrow> int \<times> u64 cell" where
  "mvh_checked_mul_u64 left right result =
     (if result = None \<or> (left \<noteq> 0 \<and> right > MVH_U64_MAX div left) then (- 1, result)
      else (0, Some (left * right)))"

definition mvh_checked_sub_u64 :: "u64 \<Rightarrow> u64 \<Rightarrow> u64 cell \<Rightarrow> int \<times> u64 cell" where
  "mvh_checked_sub_u64 left right result =
     (if result = None \<or> left < right then (- 1, result) else (0, Some (left - right)))"

definition mvh_checked_add_i64 :: "int \<Rightarrow> int \<Rightarrow> int cell \<Rightarrow> int \<times> int cell" where
  "mvh_checked_add_i64 left right result =
     (if result = None \<or> (right > 0 \<and> left > INT64_MAX - right) \<or>
         (right < 0 \<and> left < INT64_MIN - right) then (- 1, result)
      else (0, Some (left + right)))"

definition mvh_abs_i64 :: "int \<Rightarrow> u64" where
  "mvh_abs_i64 v = (if v < 0 then word_of_int (- (v + 1)) + 1 else word_of_int v)"

definition mvh_checked_mul_i64 :: "int \<Rightarrow> int \<Rightarrow> int cell \<Rightarrow> int \<times> int cell" where
  "mvh_checked_mul_i64 left right result =
     (if result = None then (- 1, result)
      else let a = mvh_abs_i64 left;
               b = mvh_abs_i64 right;
               negative = ((left < 0) \<noteq> (right < 0));
               limit = (if negative then push_bit 63 1 else word_of_int INT64_MAX)
        in if b \<noteq> 0 \<and> a > limit div b then (- 1, result)
        else let product = a * b in
          (0, Some (if negative \<and> product = push_bit 63 1 then INT64_MIN
                    else if negative then - sint product else sint product)))"

definition mvh_saturating_add_u64 :: "u64 \<Rightarrow> u64 \<Rightarrow> u64" where
  "mvh_saturating_add_u64 left right = (if left > MVH_U64_MAX - right then MVH_U64_MAX else left + right)"
definition mvh_saturating_sub_u64 :: "u64 \<Rightarrow> u64 \<Rightarrow> u64" where
  "mvh_saturating_sub_u64 left right = (if left < right then 0 else left - right)"
definition mvh_saturating_mul_u64 :: "u64 \<Rightarrow> u64 \<Rightarrow> u64" where
  "mvh_saturating_mul_u64 left right =
     (if left \<noteq> 0 \<and> right > MVH_U64_MAX div left then MVH_U64_MAX else left * right)"

subsection \<open>Division and number theory\<close>

function mvh_gcd_u64 :: "u64 \<Rightarrow> u64 \<Rightarrow> u64" where
  "mvh_gcd_u64 left right = (if right \<noteq> 0 then mvh_gcd_u64 right (left mod right) else left)"
  by auto
termination
  by (relation "measure (\<lambda>(l, r). unat r)") (auto simp: unat_mod unat_gt_0)

declare mvh_gcd_u64.simps [simp del]

definition mvh_checked_lcm_u64 :: "u64 \<Rightarrow> u64 \<Rightarrow> u64 cell \<Rightarrow> int \<times> u64 cell" where
  "mvh_checked_lcm_u64 left right result =
     (if result = None then (- 1, result)
      else if left = 0 \<or> right = 0 then (0, Some 0)
      else mvh_checked_mul_u64 (left div mvh_gcd_u64 left right) right result)"

definition mvh_ceil_div_u64 :: "u64 \<Rightarrow> u64 \<Rightarrow> u64" where
  "mvh_ceil_div_u64 numerator denominator =
     (if denominator = 0 then 0
      else numerator div denominator + (if numerator mod denominator \<noteq> 0 then 1 else 0))"

definition mvh_round_up_multiple_u64 :: "u64 \<Rightarrow> u64 \<Rightarrow> u64" where
  "mvh_round_up_multiple_u64 v multiple =
     (if multiple = 0 then 0
      else let remainder = v mod multiple in
        if remainder = 0 then v
        else if v > MVH_U64_MAX - (multiple - remainder) then 0 else v + multiple - remainder)"

definition mvh_round_down_multiple_u64 :: "u64 \<Rightarrow> u64 \<Rightarrow> u64" where
  "mvh_round_down_multiple_u64 v multiple = (if multiple = 0 then 0 else v - v mod multiple)"

definition mvh_div_round_nearest_u64 :: "u64 \<Rightarrow> u64 \<Rightarrow> u64" where
  "mvh_div_round_nearest_u64 numerator denominator =
     (if denominator = 0 then 0
      else let quotient = numerator div denominator;
               remainder = numerator mod denominator
        in if remainder \<ge> denominator - remainder then quotient + 1 else quotient)"

definition mvh_is_even_u64 :: "u64 \<Rightarrow> bool" where "mvh_is_even_u64 v \<longleftrightarrow> v AND 1 = 0"
definition mvh_is_odd_u64 :: "u64 \<Rightarrow> bool" where "mvh_is_odd_u64 v \<longleftrightarrow> v AND 1 \<noteq> 0"

text \<open>The loop body of \<open>mvh_fibonacci_u64\<close>, \<open>n\<close> iterations from \<open>(previous, current)\<close>.\<close>

fun fibonacci_steps :: "nat \<Rightarrow> u64 \<Rightarrow> u64 \<Rightarrow> u64 option" where
  "fibonacci_steps 0 previous current = Some previous"
| "fibonacci_steps (Suc n) previous current =
     (case mvh_checked_add_u64 previous current (Some 0) of
        (status, next_value) \<Rightarrow>
          if status \<noteq> 0 then None else fibonacci_steps n current (the next_value))"

definition mvh_fibonacci_u64 :: "u32 \<Rightarrow> u64 cell \<Rightarrow> int \<times> u64 cell" where
  "mvh_fibonacci_u64 index result =
     (if result = None then (- 1, result)
      else case fibonacci_steps (unat index) 0 1 of
          None \<Rightarrow> (- 1, result)
        | Some previous \<Rightarrow> (0, Some previous))"

text \<open>\<open>n\<close> iterations from \<open>factor\<close>; the product is its own result variable.\<close>

fun factorial_steps :: "nat \<Rightarrow> u32 \<Rightarrow> u64 \<Rightarrow> u64 option" where
  "factorial_steps 0 factor product = Some product"
| "factorial_steps (Suc n) factor product =
     (case mvh_checked_mul_u64 product (ucast factor) (Some product) of
        (status, product') \<Rightarrow>
          if status \<noteq> 0 then None else factorial_steps n (factor + 1) (the product'))"

definition mvh_factorial_u64 :: "u32 \<Rightarrow> u64 cell \<Rightarrow> int \<times> u64 cell" where
  "mvh_factorial_u64 v result =
     (if result = None then (- 1, result)
      else case factorial_steps (unat v - 1) 2 1 of
          None \<Rightarrow> (- 1, result)
        | Some product \<Rightarrow> (0, Some product))"

function pow_loop :: "u64 \<Rightarrow> u32 \<Rightarrow> u64 \<Rightarrow> u64 option" where
  "pow_loop base exponent product =
     (if exponent \<noteq> 0 then
        let (status, product') = (if exponent AND 1 \<noteq> 0
              then mvh_checked_mul_u64 product base (Some product) else (0, Some product))
        in if status \<noteq> 0 then None
        else let exponent' = drop_bit 1 exponent;
                 (status, base') = (if exponent' \<noteq> 0
                   then mvh_checked_mul_u64 base base (Some base) else (0, Some base))
          in if status \<noteq> 0 then None
          else pow_loop (the base') exponent' (the product')
      else Some product)"
  by auto
termination
  by (relation "measure (\<lambda>(b, e, p). unat e)") (simp_all only: in_measure wf_measure case_prod_conv, rule unat_drop_bit_less, simp_all)

declare pow_loop.simps [simp del]

definition mvh_pow_u64 :: "u64 \<Rightarrow> u32 \<Rightarrow> u64 cell \<Rightarrow> int \<times> u64 cell" where
  "mvh_pow_u64 base exponent result =
     (if result = None then (- 1, result)
      else case pow_loop base exponent 1 of
          None \<Rightarrow> (- 1, result)
        | Some product \<Rightarrow> (0, Some product))"

subsection \<open>Roots, averages, logarithms\<close>

function sqrt_start :: "u64 \<Rightarrow> u64 \<Rightarrow> u64" where
  "sqrt_start v bit1 = (if bit1 > v then sqrt_start v (drop_bit 2 bit1) else bit1)"
  by auto
termination
  by (relation "measure (\<lambda>(v, b). unat b)") (simp_all only: in_measure wf_measure case_prod_conv, rule unat_drop_bit_less, auto)

function sqrt_loop :: "u64 \<Rightarrow> u64 \<Rightarrow> u64 \<Rightarrow> u64" where
  "sqrt_loop v result bit1 =
     (if bit1 \<noteq> 0
      then if v \<ge> result + bit1
           then sqrt_loop (v - (result + bit1)) (drop_bit 1 result + bit1) (drop_bit 2 bit1)
           else sqrt_loop v (drop_bit 1 result) (drop_bit 2 bit1)
      else result)"
  by auto
termination
  by (relation "measure (\<lambda>(v, r, b). unat b)") (simp_all only: in_measure wf_measure case_prod_conv, (rule unat_drop_bit_less, auto)+)

declare sqrt_start.simps [simp del] sqrt_loop.simps [simp del]

definition mvh_integer_sqrt_u64 :: "u64 \<Rightarrow> u64" where
  "mvh_integer_sqrt_u64 v = sqrt_loop v 0 (sqrt_start v (push_bit 62 1))"

definition mvh_average_u64 :: "u64 \<Rightarrow> u64 \<Rightarrow> u64" where
  "mvh_average_u64 left right = (left AND right) + drop_bit 1 (left XOR right)"

definition mvh_sign_i64 :: "int \<Rightarrow> int" where
  "mvh_sign_i64 v = (if v > 0 then 1 else 0) - (if v < 0 then 1 else 0)"

function log2_loop :: "u64 \<Rightarrow> int \<Rightarrow> int" where
  "log2_loop v result = (if v \<noteq> 0 then log2_loop (drop_bit 1 v) (result + 1) else result)"
  by auto
termination
  by (relation "measure (\<lambda>(v, r). unat v)") (simp_all only: in_measure wf_measure case_prod_conv, rule unat_drop_bit_less, simp_all)

declare log2_loop.simps [simp del]

definition mvh_log2_floor_u64 :: "u64 \<Rightarrow> int" where
  "mvh_log2_floor_u64 v = log2_loop v (- 1)"

definition mvh_log2_ceil_u64 :: "u64 \<Rightarrow> int" where
  "mvh_log2_ceil_u64 v =
     (if v = 0 then - 1
      else let floor = mvh_log2_floor_u64 v in if v AND (v - 1) = 0 then floor else floor + 1)"

subsection \<open>Bits\<close>

definition mvh_rotate_left32 :: "u32 \<Rightarrow> u32 \<Rightarrow> u32" where
  "mvh_rotate_left32 v shift =
     (let shift = unat (shift AND 31) in
      if shift = 0 then v else push_bit shift v OR drop_bit (32 - shift) v)"
definition mvh_rotate_right32 :: "u32 \<Rightarrow> u32 \<Rightarrow> u32" where
  "mvh_rotate_right32 v shift =
     (let shift = unat (shift AND 31) in
      if shift = 0 then v else drop_bit shift v OR push_bit (32 - shift) v)"
definition mvh_rotate_left64 :: "u64 \<Rightarrow> u32 \<Rightarrow> u64" where
  "mvh_rotate_left64 v shift =
     (let shift = unat (shift AND 63) in
      if shift = 0 then v else push_bit shift v OR drop_bit (64 - shift) v)"
definition mvh_rotate_right64 :: "u64 \<Rightarrow> u32 \<Rightarrow> u64" where
  "mvh_rotate_right64 v shift =
     (let shift = unat (shift AND 63) in
      if shift = 0 then v else drop_bit shift v OR push_bit (64 - shift) v)"

lemma and_pred_less:
  fixes v :: "'a::len word"
  assumes "v \<noteq> 0"
  shows "unat (v AND (v - 1)) < unat v"
proof -
  have "v AND (v - 1) \<le> v - 1"
    by (simp add: word_and_le1)
  also have "v - 1 < v"
    using assms measure_unat [of v] by (simp add: word_less_nat_alt)
  finally show ?thesis
    by (simp add: word_less_nat_alt)
qed

function popcount32_loop :: "u32 \<Rightarrow> u32 \<Rightarrow> u32" where
  "popcount32_loop v count = (if v \<noteq> 0 then popcount32_loop (v AND (v - 1)) (count + 1) else count)"
  by auto
termination
  by (relation "measure (\<lambda>(v, c). unat v)") (simp_all only: in_measure wf_measure case_prod_conv, rule and_pred_less, simp_all)

function popcount64_loop :: "u64 \<Rightarrow> u32 \<Rightarrow> u32" where
  "popcount64_loop v count = (if v \<noteq> 0 then popcount64_loop (v AND (v - 1)) (count + 1) else count)"
  by auto
termination
  by (relation "measure (\<lambda>(v, c). unat v)") (simp_all only: in_measure wf_measure case_prod_conv, rule and_pred_less, simp_all)

declare popcount32_loop.simps [simp del] popcount64_loop.simps [simp del]

definition mvh_popcount32 :: "u32 \<Rightarrow> u32" where "mvh_popcount32 v = popcount32_loop v 0"
definition mvh_popcount64 :: "u64 \<Rightarrow> u32" where "mvh_popcount64 v = popcount64_loop v 0"
definition mvh_parity32 :: "u32 \<Rightarrow> u32" where "mvh_parity32 v = mvh_popcount32 v AND 1"
definition mvh_parity64 :: "u64 \<Rightarrow> u32" where "mvh_parity64 v = mvh_popcount64 v AND 1"

definition mvh_bswap16 :: "u16 \<Rightarrow> u16" where
  "mvh_bswap16 v = push_bit 8 v OR drop_bit 8 v"
definition mvh_bswap32 :: "u32 \<Rightarrow> u32" where
  "mvh_bswap32 v = push_bit 24 (v AND 0x000000FF) OR push_bit 8 (v AND 0x0000FF00) OR
     drop_bit 8 (v AND 0x00FF0000) OR drop_bit 24 (v AND 0xFF000000)"
definition mvh_bswap64 :: "u64 \<Rightarrow> u64" where
  "mvh_bswap64 v = push_bit 32 (ucast (mvh_bswap32 (ucast v))) OR ucast (mvh_bswap32 (ucast (drop_bit 32 v)))"

text \<open>The scans below run only for a non-zero value; \<open>None\<close> would be an endless loop.\<close>

partial_function (option) clz32_loop :: "u32 \<Rightarrow> u32 \<Rightarrow> u32 option" where
  "clz32_loop v count = (if v AND 0x80000000 = 0 then clz32_loop (push_bit 1 v) (count + 1) else Some count)"
partial_function (option) ctz32_loop :: "u32 \<Rightarrow> u32 \<Rightarrow> u32 option" where
  "ctz32_loop v count = (if v AND 1 = 0 then ctz32_loop (drop_bit 1 v) (count + 1) else Some count)"
partial_function (option) clz64_loop :: "u64 \<Rightarrow> u32 \<Rightarrow> u32 option" where
  "clz64_loop v count = (if v AND push_bit 63 1 = 0 then clz64_loop (push_bit 1 v) (count + 1) else Some count)"
partial_function (option) ctz64_loop :: "u64 \<Rightarrow> u32 \<Rightarrow> u32 option" where
  "ctz64_loop v count = (if v AND 1 = 0 then ctz64_loop (drop_bit 1 v) (count + 1) else Some count)"

definition mvh_count_leading_zero32 :: "u32 \<Rightarrow> u32 option" where
  "mvh_count_leading_zero32 v = (if v = 0 then Some 32 else clz32_loop v 0)"
definition mvh_count_trailing_zero32 :: "u32 \<Rightarrow> u32 option" where
  "mvh_count_trailing_zero32 v = (if v = 0 then Some 32 else ctz32_loop v 0)"
definition mvh_count_leading_zero64 :: "u64 \<Rightarrow> u32 option" where
  "mvh_count_leading_zero64 v = (if v = 0 then Some 64 else clz64_loop v 0)"
definition mvh_count_trailing_zero64 :: "u64 \<Rightarrow> u32 option" where
  "mvh_count_trailing_zero64 v = (if v = 0 then Some 64 else ctz64_loop v 0)"

definition mvh_bit_set64 :: "u64 \<Rightarrow> u32 \<Rightarrow> u64" where
  "mvh_bit_set64 v b = (if b < 64 then v OR push_bit (unat b) 1 else v)"
definition mvh_bit_clear64 :: "u64 \<Rightarrow> u32 \<Rightarrow> u64" where
  "mvh_bit_clear64 v b = (if b < 64 then v AND NOT (push_bit (unat b) 1) else v)"
definition mvh_bit_test64 :: "u64 \<Rightarrow> u32 \<Rightarrow> bool" where
  "mvh_bit_test64 v b \<longleftrightarrow> b < 64 \<and> v AND push_bit (unat b) 1 \<noteq> 0"
definition mvh_bit_toggle64 :: "u64 \<Rightarrow> u32 \<Rightarrow> u64" where
  "mvh_bit_toggle64 v b = (if b < 64 then v XOR push_bit (unat b) 1 else v)"

definition mvh_mask_range64 :: "u32 \<Rightarrow> u32 \<Rightarrow> u64" where
  "mvh_mask_range64 offset width =
     (if offset \<ge> 64 \<or> width = 0 then 0
      else let width = (if width > 64 - offset then 64 - offset else width) in
        push_bit (unat offset) (if width = 64 then MVH_U64_MAX else push_bit (unat width) 1 - 1))"

definition mvh_extract_bits64 :: "u64 \<Rightarrow> u32 \<Rightarrow> u32 \<Rightarrow> u64" where
  "mvh_extract_bits64 v offset width =
     (let mask = mvh_mask_range64 offset width in
      if offset \<ge> 64 then 0 else drop_bit (unat offset) (v AND mask))"
definition mvh_insert_bits64 :: "u64 \<Rightarrow> u64 \<Rightarrow> u32 \<Rightarrow> u32 \<Rightarrow> u64" where
  "mvh_insert_bits64 original field offset width =
     (let mask = mvh_mask_range64 offset width in
      if offset \<ge> 64 then original
      else (original AND NOT mask) OR (push_bit (unat offset) field AND mask))"

fun reverse_loop :: "nat \<Rightarrow> 'a::len word \<Rightarrow> 'a word \<Rightarrow> 'a word" where
  "reverse_loop 0 result v = result"
| "reverse_loop (Suc n) result v = reverse_loop n (push_bit 1 result OR (v AND 1)) (drop_bit 1 v)"

definition mvh_reverse_bits32 :: "u32 \<Rightarrow> u32" where "mvh_reverse_bits32 v = reverse_loop 32 0 v"
definition mvh_reverse_bits64 :: "u64 \<Rightarrow> u64" where "mvh_reverse_bits64 v = reverse_loop 64 0 v"

definition mvh_next_set_bit64 :: "u64 \<Rightarrow> u32 \<Rightarrow> int" where
  "mvh_next_set_bit64 v start =
     (case find (\<lambda>b. v AND push_bit b 1 \<noteq> 0) [unat start ..< 64] of
        Some b \<Rightarrow> int b | None \<Rightarrow> - 1)"
definition mvh_previous_set_bit64 :: "u64 \<Rightarrow> u32 \<Rightarrow> int" where
  "mvh_previous_set_bit64 v start =
     (let b = (if start < 64 then unat start else 63) in
      case find (\<lambda>b. v AND push_bit b 1 \<noteq> 0) (rev [0 ..< b + 1]) of
        Some b \<Rightarrow> int b | None \<Rightarrow> - 1)"

definition mvh_sign_extend64 :: "u64 \<Rightarrow> u32 \<Rightarrow> int" where
  "mvh_sign_extend64 v width =
     (if width = 0 \<or> width > 64 then 0
      else if width = 64 then sint v
      else let mask = push_bit (unat width) 1 - 1;
               sgn1 = push_bit (unat (width - 1)) 1;
               v = v AND mask
        in sint ((v XOR sgn1) - sgn1))"

definition mvh_count_byte64 :: "u64 \<Rightarrow> u8 \<Rightarrow> u32" where
  "mvh_count_byte64 v b =
     fold (\<lambda>index count. if ucast (drop_bit (index * 8) v) = b then count + 1 else count) [0 ..< 8] 0"

end
