(* ===== verification/Util_Arith_Props.thy ===== *)
theory Util_Arith_Props
  imports Util_Arith
begin

section \<open>Correctness of the integer utilities\<close>

text \<open>
  The checked operations compute over the unbounded integers exactly when the result is
  representable; the loops compute greatest common divisors, powers, factorials, Fibonacci
  numbers and square roots; the bit operations are characterised bit by bit.
\<close>

subsection \<open>Unsigned limits\<close>

lemma unat_max64 [simp]: "unat (- 1 :: u64) = 18446744073709551615"
  by (simp add: unsigned_minus_1_eq_mask mask_eq_exp_minus_1)

lemma u64_bound: "unat (w :: u64) < 18446744073709551616"
  using unsigned_less [of w, where 'a = nat] by simp

lemma add_overflow_iff: "left > MVH_U64_MAX - right \<longleftrightarrow> 2 ^ 64 \<le> unat left + unat right"
proof -
  have "unat (MVH_U64_MAX - right) = 18446744073709551615 - unat right"
    by (subst unat_sub) simp_all
  then show ?thesis
    using u64_bound [of right] by (auto simp: word_less_nat_alt)
qed

lemma mul_overflow_iff: "left \<noteq> 0 \<and> right > MVH_U64_MAX div left \<longleftrightarrow> 2 ^ 64 \<le> unat left * unat right"
proof (cases "left = 0")
  case False
  then have pos: "0 < unat left"
    by (simp add: unat_gt_0)
  have "right \<le> MVH_U64_MAX div left \<longleftrightarrow> unat right * unat left \<le> 18446744073709551615"
    by (simp add: word_le_nat_alt unat_div less_eq_div_iff_mult_less_eq [OF pos])
  then show ?thesis
    using False by (auto simp: not_le [symmetric] mult.commute)
qed simp

lemma unat_add_exact: "unat left + unat right < 2 ^ 64 \<Longrightarrow> unat (left + right :: u64) = unat left + unat right"
  by (simp add: unat_word_ariths)

lemma unat_mult_exact: "unat left * unat right < 2 ^ 64 \<Longrightarrow> unat (left * right :: u64) = unat left * unat right"
  by (simp add: unat_word_ariths)

lemma checked_add_cases:
  "mvh_checked_add_u64 left right (Some x) =
     (if unat left + unat right < 2 ^ 64 then (0, Some (left + right)) else (- 1, Some x))"
  using add_overflow_iff [of right left] by (auto simp: mvh_checked_add_u64_def)

lemma checked_mul_cases:
  "mvh_checked_mul_u64 left right (Some x) =
     (if unat left * unat right < 2 ^ 64 then (0, Some (left * right)) else (- 1, Some x))"
  using mul_overflow_iff [of left right] by (auto simp: mvh_checked_mul_u64_def)

lemma word_of_nat_eqI: "unat w = n \<Longrightarrow> (w :: 'a::len word) = word_of_nat n"
  by auto

subsection \<open>Greatest common divisor\<close>

lemma mvh_gcd_u64_correct: "unat (mvh_gcd_u64 left right) = gcd (unat left) (unat right)"
proof (induction left right rule: mvh_gcd_u64.induct)
  case (1 left right)
  show ?case
  proof (cases "right = 0")
    case False
    then show ?thesis
      using 1 by (simp add: mvh_gcd_u64.simps [of left right] unat_mod gcd.commute gcd_red_nat [symmetric])
  qed (simp add: mvh_gcd_u64.simps)
qed

lemma mvh_checked_lcm_u64_correct:
  "mvh_checked_lcm_u64 left right (Some x) =
     (if lcm (unat left) (unat right) < 2 ^ 64 then (0, Some (word_of_nat (lcm (unat left) (unat right)))) else (- 1, Some x))"
proof (cases "left = 0 \<or> right = 0")
  case False
  have "unat (left div mvh_gcd_u64 left right) * unat right = lcm (unat left) (unat right)"
    by (simp add: unat_div mvh_gcd_u64_correct lcm_nat_def dvd_div_mult)
  then show ?thesis
    using False unat_mult_exact [of "left div mvh_gcd_u64 left right" right]
    by (auto simp: mvh_checked_lcm_u64_def checked_mul_cases intro: word_of_nat_eqI)
qed (auto simp: mvh_checked_lcm_u64_def)

subsection \<open>Powers\<close>

text \<open>The repeated squaring may fail early: a square that is still needed already exceeds the result.\<close>

lemma and_one_odd: "w AND 1 \<noteq> 0 \<longleftrightarrow> odd (unat (w :: 'a::len word))"
proof -
  have "odd (unat w) \<longleftrightarrow> bit w 0"
    by (simp only: bit_0 [symmetric] bit_unsigned_iff) simp
  then show ?thesis
    by (simp add: and_one_eq bit_0 odd_iff_mod_2_eq_one)
qed

lemma unat_half: "unat (drop_bit 1 w) = unat w div 2"
  by (rule trans [OF unat_drop_bit_eq drop_bit_eq_div [of 1, unfolded power_one_right]])

lemma pow_loop_0 [simp]: "pow_loop base 0 product = Some product"
  by (simp add: pow_loop.simps)

lemma pow_loop_unfold:
  assumes "exponent \<noteq> 0"
  defines "half \<equiv> drop_bit 1 exponent"
  shows "pow_loop base exponent product =
    (if odd (unat exponent) \<and> 2 ^ 64 \<le> unat product * unat base then None
     else if half \<noteq> 0 \<and> 2 ^ 64 \<le> unat base * unat base then None
     else pow_loop (if half \<noteq> 0 then base * base else base) half
       (if odd (unat exponent) then product * base else product))"
  using assms(1) unfolding half_def
  by (subst pow_loop.simps) (simp add: checked_mul_cases and_one_odd [simplified] Let_def not_less)

text \<open>The exact results of the arithmetic on naturals behind one iteration.\<close>

lemma pow_step_overflow:
  fixes p b e :: nat
  shows "0 < e \<Longrightarrow> L \<le> p * b \<Longrightarrow> 0 < L \<Longrightarrow> L \<le> p * b ^ e"
    and "1 < e \<Longrightarrow> L \<le> b * b \<Longrightarrow> 0 < p \<Longrightarrow> L \<le> p * b ^ e"
proof -
  show "L \<le> p * b ^ e" if "0 < e" "L \<le> p * b" "0 < L"
  proof -
    have "0 < b"
      using that(2,3) by (cases b) auto
    then have "b ^ 1 \<le> b ^ e"
      using that(1) by (intro power_increasing) auto
    then show ?thesis
      using that(2) by (auto intro: order_trans mult_le_mono2)
  qed
  show "L \<le> p * b ^ e" if "1 < e" "L \<le> b * b" "0 < p"
  proof (cases "b = 0")
    case False
    then have "b ^ 2 \<le> b ^ e"
      using that(1) by (intro power_increasing) auto
    also have "\<dots> \<le> p * b ^ e"
      using that(3) by simp
    finally show ?thesis
      using that(2) by (simp add: power2_eq_square)
  qed (use that in auto)
qed

lemma pow_loop_correct:
  assumes "product \<noteq> 0 \<or> base = 0"
  shows "pow_loop base exponent product =
    (if unat product * unat base ^ unat exponent < 2 ^ 64
     then Some (word_of_nat (unat product * unat base ^ unat exponent)) else None)"
  using assms
proof (induction "unat exponent" arbitrary: base exponent product rule: less_induct)
  case less
  let ?b = "unat base" and ?e = "unat exponent" and ?p = "unat product"
  let ?h = "drop_bit 1 exponent"
  show ?case
  proof (cases "exponent = 0")
    case True
    then show ?thesis
      using u64_bound [of product] by simp
  next
    case nz: False
    then have e: "0 < ?e"
      by (simp add: unat_gt_0)
    have h: "?h = 0 \<longleftrightarrow> ?e div 2 = 0"
      by (simp only: unat_half [symmetric] unat_eq_0)
    consider (product) "odd ?e" "2 ^ 64 \<le> ?p * ?b"
      | (square) "odd ?e \<longrightarrow> ?p * ?b < 2 ^ 64" "?h \<noteq> 0" "2 ^ 64 \<le> ?b * ?b"
      | (last) "odd ?e \<longrightarrow> ?p * ?b < 2 ^ 64" "?h = 0"
      | (step) "odd ?e \<longrightarrow> ?p * ?b < 2 ^ 64" "?h \<noteq> 0" "?b * ?b < 2 ^ 64"
      by force
    then show ?thesis
    proof cases
      case product
      then show ?thesis
        using pow_step_overflow(1) [OF e product(2)] by (simp add: pow_loop_unfold [OF nz])
    next
      case square
      have "1 < ?e"
        using square(2) unfolding h by linarith
      moreover have "0 < ?p"
        using square(3) less.prems by (cases "base = 0") (simp_all add: unat_gt_0)
      ultimately have "2 ^ 64 \<le> ?p * ?b ^ ?e"
        using pow_step_overflow(2) [OF _ square(3)] by blast
      then show ?thesis
        using square by (simp add: pow_loop_unfold [OF nz])
    next
      case last
      then have "?e = 1"
        using e unfolding h by linarith
      then show ?thesis
        using last unat_mult_exact [of product base]
        by (simp add: pow_loop_unfold [OF nz] word_of_nat_eqI)
    next
      case step
      define p' where "p' = (if odd ?e then product * base else product)"
      have p': "unat p' * (?b * ?b) ^ (?e div 2) = ?p * ?b ^ ?e"
      proof -
        have "?b ^ ?e = ?b ^ (2 * (?e div 2) + ?e mod 2)"
          by simp
        also have "\<dots> = (?b * ?b) ^ (?e div 2) * ?b ^ (?e mod 2)"
          by (simp only: power_add power_mult power2_eq_square)
        finally show ?thesis
          using step(1) unat_mult_exact [of product base] by (auto simp: p'_def odd_iff_mod_2_eq_one)
      qed
      have nz': "p' \<noteq> 0 \<or> base * base = 0"
      proof (cases "base = 0")
        case False
        then have "0 < ?p * ?b"
          using less.prems by (simp add: unat_gt_0)
        then have "0 < unat p'"
          using step(1) unat_mult_exact [of product base] by (auto simp: p'_def)
        then show ?thesis
          by (simp add: unat_gt_0)
      qed simp
      have "pow_loop base exponent product = pow_loop (base * base) ?h p'"
        using step by (auto simp: pow_loop_unfold [OF nz] p'_def)
      also have "unat ?h = ?e div 2" "unat (base * base) = ?b * ?b"
        using unat_half unat_mult_exact [OF step(3)] by auto
      ultimately show ?thesis
        using less.hyps [of ?h p' "base * base", OF unat_drop_bit_less [OF nz] nz'] p' by simp
    qed
  qed
qed

subsection \<open>Factorials and Fibonacci numbers\<close>

lemma factorial_steps_correct:
  "product \<noteq> 0 \<Longrightarrow> 0 < unat factor \<Longrightarrow> unat factor + n \<le> 2 ^ 32 \<Longrightarrow>
   factorial_steps n factor product =
     (if unat product * \<Prod>{unat factor ..< unat factor + n} < 2 ^ 64
      then Some (word_of_nat (unat product * \<Prod>{unat factor ..< unat factor + n})) else None)"
proof (induction n arbitrary: factor product)
  case 0
  then show ?case
    using u64_bound [of product] by simp
next
  case (Suc n)
  let ?f = "unat factor" and ?p = "unat product"
  have prod: "\<Prod>{?f ..< ?f + Suc n} = ?f * \<Prod>{?f + 1 ..< ?f + 1 + n}"
    using prod.atLeast_Suc_lessThan [of ?f "?f + Suc n" "\<lambda>x. x"] by simp
  have cast: "unat (ucast factor :: u64) = ?f"
    by (simp add: unsigned_ucast_eq take_bit_nat_eq_self order_less_trans [OF u32_bound])
  show ?case
  proof (cases "?p * ?f < 2 ^ 64")
    case True
    then have pf: "unat (product * ucast factor) = ?p * ?f"
      using unat_mult_exact [of product "ucast factor"] cast by simp
    then have nz: "product * ucast factor \<noteq> 0"
      using Suc.prems(1,2) by (metis mult_is_0 not_gr_zero unat_eq_0)
    have step: "factorial_steps (Suc n) factor product = factorial_steps n (factor + 1) (product * ucast factor)"
      using True by (simp add: checked_mul_cases cast)
    show ?thesis
    proof (cases n)
      case 0
      then show ?thesis
        using True pf by (simp add: checked_mul_cases cast word_of_nat_eqI)
    next
      case (Suc k)
      then have "unat (factor + 1) = ?f + 1"
        using Suc.prems(3) by (simp add: unat_word_ariths)
      then show ?thesis
        using Suc.IH [OF nz, of "factor + 1"] Suc.prems(3) step pf prod by (simp add: mult.assoc)
    qed
  next
    case False
    have "1 \<le> \<Prod>{?f + 1 ..< ?f + 1 + n}"
      by (rule prod_ge_1) auto
    then have "?p * ?f \<le> ?p * \<Prod>{?f ..< ?f + Suc n}"
      unfolding prod by (metis mult.assoc mult.right_neutral mult_le_mono2)
    then have "\<not> ?p * \<Prod>{?f ..< ?f + Suc n} < 2 ^ 64"
      using False by linarith
    then show ?thesis
      using False by (simp add: checked_mul_cases cast)
  qed
qed

lemma mvh_factorial_u64_correct:
  "mvh_factorial_u64 v (Some x) =
     (if fact (unat v) < (2 ^ 64 :: nat) then (0, Some (word_of_nat (fact (unat v)))) else (- 1, Some x))"
proof -
  have "\<Prod>{2 ..< 2 + n} = (fact (n + 1) :: nat)" for n
    by (induction n) (simp_all add: algebra_simps)
  from this [of "unat v - 1"] have "\<Prod>{2 ..< 2 + (unat v - 1)} = fact (unat v)"
    by (cases "unat v") simp_all
  moreover have "(2 :: nat) + (unat v - 1) \<le> 2 ^ 32"
    using u32_bound [of v] by simp
  ultimately show ?thesis
    using factorial_steps_correct [of 1 2 "unat v - 1"] by (simp add: mvh_factorial_u64_def)
qed

fun fib :: "nat \<Rightarrow> nat" where
  "fib 0 = 0"
| "fib (Suc 0) = 1"
| "fib (Suc (Suc n)) = fib n + fib (Suc n)"

lemma fib_mono: "i \<le> j \<Longrightarrow> fib (Suc i) \<le> fib (Suc j)"
  by (rule lift_Suc_mono_le [of "\<lambda>i. fib (Suc i)"]) simp_all

lemma fib_le_Suc: "fib n \<le> fib (Suc n)"
  by (cases n) simp_all

lemma fibonacci_steps_correct:
  "fib (k + 1) < 2 ^ 64 \<Longrightarrow> fibonacci_steps n (word_of_nat (fib k)) (word_of_nat (fib (k + 1))) =
     (if fib (k + n + 1) < 2 ^ 64 then Some (word_of_nat (fib (k + n))) else None)"
proof (induction n arbitrary: k)
  case (Suc n)
  have small: "fib k < 2 ^ 64"
    using Suc.prems fib_le_Suc [of k] by simp
  have sum: "unat (word_of_nat (fib k) :: u64) + unat (word_of_nat (fib (k + 1)) :: u64) = fib (k + 2)"
    using small Suc.prems by (simp add: unat_of_nat)
  show ?case
  proof (cases "fib (k + 2) < 2 ^ 64")
    case True
    have "fibonacci_steps (Suc n) (word_of_nat (fib k)) (word_of_nat (fib (k + 1))) =
      fibonacci_steps n (word_of_nat (fib (k + 1))) (word_of_nat (fib (k + 2)))"
      using True sum by (simp add: checked_add_cases)
    then show ?thesis
      using Suc.IH [of "k + 1"] True by simp
  next
    case False
    then have "\<not> fib (k + Suc n + 1) < 2 ^ 64"
      using fib_mono [of "k + 1" "k + Suc n"] by simp
    then show ?thesis
      using False sum by (simp add: checked_add_cases)
  qed
qed simp

lemma mvh_fibonacci_u64_correct:
  "mvh_fibonacci_u64 index (Some x) =
     (if fib (unat index + 1) < 2 ^ 64 then (0, Some (word_of_nat (fib (unat index)))) else (- 1, Some x))"
  using fibonacci_steps_correct [of 0 "unat index"] by (simp add: mvh_fibonacci_u64_def)

text \<open>A linear-time computation of the same numbers.\<close>

fun fib_iter :: "nat \<Rightarrow> nat \<Rightarrow> nat \<Rightarrow> nat" where
  "fib_iter 0 a b = a"
| "fib_iter (Suc n) a b = fib_iter n b (a + b)"

lemma fib_iter_numeral: "fib_iter (numeral k) a b = fib_iter (pred_numeral k) b (a + b)" "fib_iter 1 a b = b"
  by (simp_all add: numeral_eq_Suc)

lemma fib_iter_fib: "fib_iter n 0 1 = fib n"
proof -
  have "fib_iter n (fib k) (fib (Suc k)) = fib (n + k)" for k
    by (induction n arbitrary: k) (simp_all flip: fib.simps(3))
  from this [of 0] show ?thesis
    by simp
qed

subsection \<open>Integer square root\<close>

text \<open>
  In the iteration with \<open>bit = 4 ^ k\<close> the variable \<open>result\<close> holds \<open>R * 2 ^ (k + 1)\<close>, where \<open>R\<close>
  is the part of the root found so far, and \<open>value\<close> what is left of the argument.
\<close>

lemma unat_word_of_nat_small: "n < 2 ^ 64 \<Longrightarrow> unat (word_of_nat n :: u64) = n"
  by (simp add: unat_of_nat)

lemma drop_bit_word_of_nat: "n < 2 ^ 64 \<Longrightarrow> drop_bit k (word_of_nat n :: u64) = word_of_nat (n div 2 ^ k)"
proof (rule word_of_nat_eqI)
  assume "n < 2 ^ 64"
  then show "unat (drop_bit k (word_of_nat n :: u64)) = n div 2 ^ k"
    using trans [OF unat_drop_bit_eq [of k "word_of_nat n :: u64"] drop_bit_eq_div] by (simp only: unat_word_of_nat_small)
qed

lemma word_of_nat_le_iff:
  "a < 2 ^ 64 \<Longrightarrow> b < 2 ^ 64 \<Longrightarrow> (word_of_nat a :: u64) \<le> word_of_nat b \<longleftrightarrow> a \<le> b"
  by (simp only: word_le_nat_alt unat_word_of_nat_small)

lemma sqrt_room:
  fixes R x :: nat
  assumes "R + 2 * x \<le> 2 ^ 32" and "0 < x"
  shows "R * (2 * x) + x * x < 2 ^ 64"
proof -
  have "R * (2 * x) + x * x < (R + 2 * x) * (R + 2 * x)"
    using assms(2) by (simp add: algebra_simps add_pos_nonneg)
  also have "\<dots> \<le> 2 ^ 32 * 2 ^ 32"
    by (rule mult_le_mono [OF assms(1) assms(1)])
  finally show ?thesis
    by simp
qed

lemma sqrt_loop_step:
  assumes room: "R + 2 * x \<le> 2 ^ 32" "0 < x" and num: "num < 2 ^ 64"
  shows "sqrt_loop (word_of_nat num) (word_of_nat (R * (2 * x))) (word_of_nat (x * x)) =
    (if R * (2 * x) + x * x \<le> num
     then sqrt_loop (word_of_nat (num - (R * (2 * x) + x * x))) (word_of_nat ((R + x) * x)) (word_of_nat (x * x div 4))
     else sqrt_loop (word_of_nat num) (word_of_nat (R * x)) (word_of_nat (x * x div 4)))"
proof -
  have small: "R * (2 * x) + x * x < 2 ^ 64"
    by (rule sqrt_room [OF room])
  have sum: "word_of_nat (R * (2 * x)) + word_of_nat (x * x) = (word_of_nat (R * (2 * x) + x * x) :: u64)"
    by simp
  have half: "drop_bit 1 (word_of_nat (R * (2 * x)) :: u64) = word_of_nat (R * x)"
    using small drop_bit_word_of_nat [of "R * (2 * x)" 1] by simp
  have quarter: "drop_bit 2 (word_of_nat (x * x) :: u64) = word_of_nat (x * x div 4)"
    using small drop_bit_word_of_nat [of "x * x" 2] by simp
  have nz: "(word_of_nat (x * x) :: u64) \<noteq> 0"
    using small room(2) unat_word_of_nat_small [of "x * x"] by (metis add_lessD1 add.commute mult_is_0 not_gr_zero unat_0)
  have le: "word_of_nat (R * (2 * x) + x * x) \<le> (word_of_nat num :: u64) \<longleftrightarrow> R * (2 * x) + x * x \<le> num"
    by (rule word_of_nat_le_iff [OF small num])
  show ?thesis
    by (subst sqrt_loop.simps) (simp only: sum half quarter nz le, simp add: of_nat_diff algebra_simps)
qed

lemma sqrt_loop_0 [simp]: "sqrt_loop v r 0 = r"
  by (simp add: sqrt_loop.simps)

lemma sqrt_loop_correct:
  assumes "R * R + num = v" and "v < (R + 2 * 2 ^ k) * (R + 2 * 2 ^ k)" and "R + 2 * 2 ^ k \<le> 2 ^ 32" and "v < 2 ^ 64"
  shows "\<exists>r. sqrt_loop (word_of_nat num) (word_of_nat (R * (2 * 2 ^ k))) (word_of_nat (2 ^ k * 2 ^ k)) = word_of_nat r \<and>
    r * r \<le> v \<and> v < (r + 1) * (r + 1) \<and> r < 2 ^ 32"
  using assms
proof (induction k arbitrary: R num)
  case 0
  have num: "num < 2 ^ 64"
    using 0 by simp
  show ?case
  proof (cases "R * 2 + 1 \<le> num")
    case True
    then show ?thesis
      using 0 sqrt_loop_step [of R 1 num] num by (intro exI [of _ "R + 1"]) (simp add: algebra_simps)
  next
    case False
    then show ?thesis
      using 0 sqrt_loop_step [of R 1 num] num by (intro exI [of _ R]) (simp add: algebra_simps)
  qed
next
  case (Suc k)
  let ?x = "2 * 2 ^ k :: nat"
  have num: "num < 2 ^ 64" and quarter: "?x * ?x div 4 = 2 ^ k * 2 ^ k"
    using Suc.prems by simp_all
  have "R + 2 * ?x \<le> 2 ^ 32" "0 < ?x"
    using Suc.prems(3) by simp_all
  note step = sqrt_loop_step [OF this num, unfolded quarter]
  show ?case
  proof (cases "R * (2 * ?x) + ?x * ?x \<le> num")
    case True
    define num' where "num' = num - (R * (2 * ?x) + ?x * ?x)"
    have "(R + ?x) * (R + ?x) + num' = v"
      using True Suc.prems(1) by (simp add: num'_def algebra_simps)
    moreover have "v < (R + ?x + 2 * 2 ^ k) * (R + ?x + 2 * 2 ^ k)" "R + ?x + 2 * 2 ^ k \<le> 2 ^ 32"
      using Suc.prems(2,3) by (simp_all add: add.assoc)
    ultimately show ?thesis
      unfolding power_Suc step if_P [OF True] num'_def [symmetric] by (rule Suc.IH) (rule Suc.prems(4))
  next
    case False
    have "v < (R + 2 * 2 ^ k) * (R + 2 * 2 ^ k)" "R + 2 * 2 ^ k \<le> 2 ^ 32"
      using False Suc.prems(1,3) by (simp_all add: algebra_simps)
    with Suc.prems(1) show ?thesis
      unfolding power_Suc step if_not_P [OF False] by (rule Suc.IH) (rule Suc.prems(4))
  qed
qed

lemma sqrt_start_word_of_nat:
  assumes "v < 2 ^ 64" and "b < 2 ^ 64"
  shows "sqrt_start (word_of_nat v) (word_of_nat b) =
    (if v < b then sqrt_start (word_of_nat v) (word_of_nat (b div 4)) else word_of_nat b)"
proof -
  have "(word_of_nat v :: u64) < word_of_nat b \<longleftrightarrow> v < b"
    by (simp only: word_less_nat_alt unat_word_of_nat_small assms)
  moreover have "drop_bit 2 (word_of_nat b :: u64) = word_of_nat (b div 4)"
    using drop_bit_word_of_nat [OF assms(2), of 2] by simp
  ultimately show ?thesis
    by (subst sqrt_start.simps) (simp only:)
qed

lemma sqrt_start_correct:
  assumes "0 < v" and "v < 2 ^ 64" and "k \<le> 31" and "v < 4 * (2 ^ k * 2 ^ k)"
  shows "\<exists>j \<le> k. sqrt_start (word_of_nat v) (word_of_nat (2 ^ k * 2 ^ k)) = word_of_nat (2 ^ j * 2 ^ j) \<and>
    v < 4 * (2 ^ j * 2 ^ j)"
  using assms(3,4)
proof (induction k)
  case 0
  then show ?case
    using assms(1,2) sqrt_start_word_of_nat [of v 1] by simp
next
  case (Suc k)
  let ?q = "2 ^ Suc k * 2 ^ Suc k :: nat"
  have "(2 :: nat) ^ k \<le> 2 ^ 30"
    using Suc.prems(1) by (intro power_increasing) simp_all
  from mult_le_mono [OF this this] have "?q = 4 * (2 ^ k * 2 ^ k)" "(2 :: nat) ^ k * 2 ^ k \<le> 2 ^ 30 * 2 ^ 30"
    by simp_all
  then have q: "?q < 2 ^ 64" "?q div 4 = 2 ^ k * 2 ^ k"
    by simp_all
  note step = sqrt_start_word_of_nat [OF assms(2) q(1), unfolded q(2)]
  show ?case
  proof (cases "v < ?q")
    case True
    then obtain j where "j \<le> k" "sqrt_start (word_of_nat v) (word_of_nat (2 ^ k * 2 ^ k)) = word_of_nat (2 ^ j * 2 ^ j)"
      "v < 4 * (2 ^ j * 2 ^ j)"
      using Suc.IH Suc.prems(1) \<open>?q = 4 * (2 ^ k * 2 ^ k)\<close> by auto
    then show ?thesis
      unfolding step if_P [OF True] using le_SucI by blast
  next
    case False
    then show ?thesis
      unfolding step if_not_P [OF False] using Suc.prems(2) by blast
  qed
qed

lemma sqrt_start_0: "sqrt_start 0 b = 0"
proof (induction "0 :: u64" b rule: sqrt_start.induct)
  case (1 b)
  then show ?case
    by (cases "b = 0") (simp_all add: sqrt_start.simps word_gt_0)
qed

subsection \<open>Signed arithmetic\<close>

lemma abs_i64_correct: "is_i64 v \<Longrightarrow> unat (mvh_abs_i64 v) = nat \<bar>v\<bar>"
proof -
  assume v: "is_i64 v"
  have "mvh_abs_i64 v = word_of_int \<bar>v\<bar>"
    by (simp add: mvh_abs_i64_def)
  moreover have "\<bar>v\<bar> < 2 ^ 64"
    using v by (auto simp: is_i64_def)
  ultimately show ?thesis
    by (simp add: unsigned_of_int take_bit_int_eq_self nat_take_bit_eq)
qed

lemma sint_small: "unat (w :: u64) < 2 ^ 63 \<Longrightarrow> sint w = int (unat w)"
proof -
  assume "unat w < 2 ^ 63"
  then have "int (unat w) < int (2 ^ 63)"
    by (simp only: of_nat_less_iff)
  then have "uint w < 2 ^ 63"
    by simp
  moreover have "- (2 ^ 63) \<le> uint w"
    by (rule order_trans [of _ 0]) simp_all
  ultimately have "signed_take_bit 63 (uint w) = uint w"
    by (intro signed_take_bit_int_eq_self)
  then show ?thesis
    by (simp add: sint_uint)
qed

text \<open>The limit on the product of the magnitudes.\<close>

lemma i64_product_limit:
  "is_i64 (l * r) \<longleftrightarrow> nat \<bar>l\<bar> * nat \<bar>r\<bar> \<le> (if (l < 0) \<noteq> (r < 0) then 2 ^ 63 else 2 ^ 63 - 1)"
proof -
  have mag: "int (nat \<bar>l\<bar> * nat \<bar>r\<bar>) = \<bar>l * r\<bar>"
    by (simp add: abs_mult)
  have sgn: "(l < 0) \<noteq> (r < 0) \<Longrightarrow> l * r \<le> 0" "(l < 0) = (r < 0) \<Longrightarrow> 0 \<le> l * r"
    by (auto simp: mult_le_0_iff zero_le_mult_iff)
  show ?thesis
  proof (cases "(l < 0) \<noteq> (r < 0)")
    case True
    then have "is_i64 (l * r) \<longleftrightarrow> \<bar>l * r\<bar> \<le> int (2 ^ 63)"
      using sgn(1) by (auto simp: is_i64_def)
    then show ?thesis
      unfolding mag [symmetric] of_nat_le_iff using True by simp
  next
    case False
    then have "is_i64 (l * r) \<longleftrightarrow> \<bar>l * r\<bar> \<le> int (2 ^ 63 - 1)"
      using sgn(2) by (auto simp: is_i64_def)
    then show ?thesis
      unfolding mag [symmetric] of_nat_le_iff using False by simp
  qed
qed

lemma checked_mul_i64_cases:
  assumes l: "is_i64 l" and r: "is_i64 r"
  shows "mvh_checked_mul_i64 l r (Some x) = (if is_i64 (l * r) then (0, Some (l * r)) else (- 1, Some x))"
proof -
  define a b where "a = mvh_abs_i64 l" and "b = mvh_abs_i64 r"
  define neg where "neg = ((l < 0) \<noteq> (r < 0))"
  define limit :: u64 where "limit = (if neg then push_bit 63 1 else word_of_int INT64_MAX)"
  have ab: "unat a = nat \<bar>l\<bar>" "unat b = nat \<bar>r\<bar>"
    using abs_i64_correct l r by (simp_all add: a_def b_def)
  have lim: "unat limit = (if neg then 2 ^ 63 else 2 ^ 63 - 1)"
    by (simp add: limit_def)
  have guard: "b \<noteq> 0 \<and> a > limit div b \<longleftrightarrow> \<not> is_i64 (l * r)"
  proof (cases "b = 0")
    case False
    then have "0 < unat b"
      by (simp add: unat_gt_0)
    from less_eq_div_iff_mult_less_eq [OF this, of "unat a" "unat limit"] show ?thesis
      using False by (simp add: i64_product_limit lim neg_def ab word_less_nat_alt unat_div not_le [symmetric] del: not_le)
  next
    case True
    then have "nat \<bar>r\<bar> = 0"
      using ab(2) by simp
    then show ?thesis
      using True by (simp add: is_i64_def)
  qed
  have result: "(if neg \<and> a * b = push_bit 63 1 then INT64_MIN else if neg then - sint (a * b) else sint (a * b)) = l * r"
    if "is_i64 (l * r)"
  proof -
    have le: "nat \<bar>l\<bar> * nat \<bar>r\<bar> \<le> (if neg then 2 ^ 63 else 2 ^ 63 - 1)"
      using that by (simp only: i64_product_limit neg_def)
    then have ab': "unat (a * b) = nat \<bar>l\<bar> * nat \<bar>r\<bar>"
      using unat_mult_exact [of a b] ab by (auto split: if_splits)
    have mag: "int (unat (a * b)) = \<bar>l * r\<bar>"
      by (simp only: ab' abs_mult of_nat_mult) simp
    have sgn: "neg \<Longrightarrow> l * r = - \<bar>l * r\<bar>" "\<not> neg \<Longrightarrow> l * r = \<bar>l * r\<bar>"
      by (auto simp: neg_def mult_less_0_iff abs_if)
    show ?thesis
    proof (cases "neg \<and> a * b = push_bit 63 1")
      case True
      then have "unat (a * b) = 2 ^ 63"
        by simp
      then have "\<bar>l * r\<bar> = 2 ^ 63"
        using mag by simp
      then show ?thesis
        using True sgn(1) by simp
    next
      case False
      have "unat (a * b) \<noteq> 2 ^ 63 \<or> \<not> neg"
        using False word_of_nat_eqI [of "a * b" "2 ^ 63"] by auto
      then have "unat (a * b) < 2 ^ 63"
        using le ab' by (auto split: if_splits)
      then have "sint (a * b) = \<bar>l * r\<bar>"
        using sint_small mag by metis
      then show ?thesis
        using False sgn by (cases neg) simp_all
    qed
  qed
  show ?thesis
    using guard result unfolding mvh_checked_mul_i64_def Let_def a_def [symmetric] b_def [symmetric] neg_def [symmetric]
      limit_def [symmetric] by simp
qed

lemma checked_add_i64_cases:
  "is_i64 l \<Longrightarrow> is_i64 r \<Longrightarrow>
   mvh_checked_add_i64 l r (Some x) = (if is_i64 (l + r) then (0, Some (l + r)) else (- 1, Some x))"
  by (auto simp: mvh_checked_add_i64_def is_i64_def)

subsection \<open>Properties\<close>

text \<open>
  C33. The checked operations of \<open>util.c\<close> are exact. With a result variable they succeed and
  store the mathematical result precisely when it is representable, 64 bits unsigned for
  \<open>u64\<close> and signed for \<open>i64\<close>, and leave the variable alone otherwise; with a null pointer
  they fail.
\<close>

theorem checked_arithmetic_exact:
  fixes a b x :: u64 and l r y :: int
  assumes "is_i64 l" and "is_i64 r"
  shows "mvh_checked_add_u64 a b (Some x) =
      (if unat a + unat b < 2 ^ 64 then (0, Some (word_of_nat (unat a + unat b))) else (- 1, Some x)) \<and>
    mvh_checked_sub_u64 a b (Some x) =
      (if unat b \<le> unat a then (0, Some (word_of_nat (unat a - unat b))) else (- 1, Some x)) \<and>
    mvh_checked_mul_u64 a b (Some x) =
      (if unat a * unat b < 2 ^ 64 then (0, Some (word_of_nat (unat a * unat b))) else (- 1, Some x)) \<and>
    mvh_checked_add_i64 l r (Some y) = (if is_i64 (l + r) then (0, Some (l + r)) else (- 1, Some y)) \<and>
    mvh_checked_mul_i64 l r (Some y) = (if is_i64 (l * r) then (0, Some (l * r)) else (- 1, Some y)) \<and>
    fst (mvh_checked_add_u64 a b None) = - 1 \<and> fst (mvh_checked_sub_u64 a b None) = - 1 \<and>
    fst (mvh_checked_mul_u64 a b None) = - 1 \<and> fst (mvh_checked_add_i64 l r None) = - 1 \<and>
    fst (mvh_checked_mul_i64 l r None) = - 1"
proof -
  have "mvh_checked_sub_u64 a b (Some x) =
      (if unat b \<le> unat a then (0, Some (word_of_nat (unat a - unat b))) else (- 1, Some x))"
    by (auto simp: mvh_checked_sub_u64_def word_less_nat_alt unat_sub word_le_nat_alt intro: word_of_nat_eqI)
  moreover have "fst (mvh_checked_add_u64 a b None) = - 1" "fst (mvh_checked_sub_u64 a b None) = - 1"
    "fst (mvh_checked_mul_u64 a b None) = - 1" "fst (mvh_checked_add_i64 l r None) = - 1"
    "fst (mvh_checked_mul_i64 l r None) = - 1"
    by (simp_all add: mvh_checked_add_u64_def mvh_checked_sub_u64_def mvh_checked_mul_u64_def
      mvh_checked_add_i64_def mvh_checked_mul_i64_def)
  ultimately show ?thesis
    using checked_add_i64_cases [OF assms, of y] checked_mul_i64_cases [OF assms, of y]
    by (simp add: checked_add_cases checked_mul_cases)
qed

theorem checked_arithmetic_exact_witness:
  "mvh_checked_mul_i64 (- 4611686018427387904) 2 (Some 7) = (0, Some INT64_MIN) \<and>
   mvh_checked_mul_i64 4611686018427387904 2 (Some 7) = (- 1, Some 7)"
  using checked_arithmetic_exact [of "- 4611686018427387904" 2 0 0 0 7] checked_arithmetic_exact [of 4611686018427387904 2 0 0 0 7]
  by (simp add: is_i64_def)

text \<open>
  \<open>mvh_pow_u64\<close> computes the power exactly: repeated squaring succeeds precisely when
  \<open>base ^ exponent\<close> fits 64 bits, and its early exits never reject a result that fits.
\<close>

theorem mvh_pow_u64_exact:
  "mvh_pow_u64 base exponent (Some x) =
     (if unat base ^ unat exponent < 2 ^ 64 then (0, Some (word_of_nat (unat base ^ unat exponent))) else (- 1, Some x))"
  using pow_loop_correct [of 1 base exponent] by (simp add: mvh_pow_u64_def)

text \<open>
  \<open>mvh_integer_sqrt_u64\<close> returns the integer square root of every 64-bit value: the
  largest \<open>r\<close> with \<open>r * r \<le> value\<close>.
\<close>

theorem mvh_integer_sqrt_u64_correct:
  "unat (mvh_integer_sqrt_u64 v) * unat (mvh_integer_sqrt_u64 v) \<le> unat v \<and>
   unat v < (unat (mvh_integer_sqrt_u64 v) + 1) * (unat (mvh_integer_sqrt_u64 v) + 1)"
proof (cases "v = 0")
  case True
  then show ?thesis
    by (simp add: mvh_integer_sqrt_u64_def sqrt_start_0)
next
  case False
  define n where "n = unat v"
  have n: "0 < n" "n < 2 ^ 64" "v = word_of_nat n"
    using False u64_bound [of v] by (simp_all add: n_def unat_gt_0)
  have one: "push_bit 62 1 = (word_of_nat (2 ^ 31 * 2 ^ 31) :: u64)"
    by simp
  have "n < 4 * (2 ^ 31 * 2 ^ 31)"
    using n(2) by simp
  then obtain j where j: "j \<le> 31" "sqrt_start v (push_bit 62 1) = word_of_nat (2 ^ j * 2 ^ j)" "n < 4 * (2 ^ j * 2 ^ j)"
    using sqrt_start_correct [OF n(1,2), of 31] unfolding n(3) one by blast
  have "(2 :: nat) ^ j \<le> 2 ^ 31"
    using j(1) by (intro power_increasing) simp_all
  then obtain r where "sqrt_loop v 0 (word_of_nat (2 ^ j * 2 ^ j)) = word_of_nat r" "r * r \<le> n" "n < (r + 1) * (r + 1)" "r < 2 ^ 32"
    using sqrt_loop_correct [of 0 n n j] j(3) n(2) unfolding n(3) by (auto simp: algebra_simps)
  then show ?thesis
    using j(2) unat_word_of_nat_small [of r] by (simp add: mvh_integer_sqrt_u64_def n_def [symmetric])
qed

text \<open>
  \<open>mvh_fibonacci_u64\<close> stores the Fibonacci number of its argument precisely when the
  \<^emph>\<open>next\<close> Fibonacci number fits 64 bits. So it rejects the argument 93, although the 93rd
  Fibonacci number is representable.
\<close>

theorem mvh_fibonacci_u64_rejects_93:
  "mvh_fibonacci_u64 index (Some x) =
     (if fib (unat index + 1) < 2 ^ 64 then (0, Some (word_of_nat (fib (unat index)))) else (- 1, Some x)) \<and>
   mvh_fibonacci_u64 93 (Some x) = (- 1, Some x) \<and> fib 93 < 2 ^ 64"
proof -
  have "fib 93 = 12200160415121876738" "fib 94 = 19740274219868223167"
    unfolding fib_iter_fib [symmetric] by (simp_all add: fib_iter_numeral del: One_nat_def)
  then show ?thesis
    using mvh_fibonacci_u64_correct [of index x] mvh_fibonacci_u64_correct [of 93 x] by simp
qed

end
