(* ===== verification/Util_Mem.thy ===== *)
theory Util_Mem
  imports Memory Util_Arith
begin

section \<open>Memory utilities\<close>

text \<open>
  The byte-block functions and the little- and big-endian field accessors of
  \<open>core/util.c\<close>. Pointers are naturals and \<open>0\<close> is the null pointer; a function that
  writes returns the memory after it, and first the value the C function returns if it has
  one. Both families of field accessors are instances of the interface \<open>field_codec\<close>.
\<close>

subsection \<open>Blocks of bytes\<close>

definition mvh_mem_set :: "nat \<Rightarrow> u8 \<Rightarrow> nat \<Rightarrow> mem \<Rightarrow> nat \<times> mem" where
  "mvh_mem_set destination v len m =
     (if destination = 0 \<and> len \<noteq> 0 then (0, m) else (destination, mem_fill destination len v m))"

definition mvh_mem_zero :: "nat \<Rightarrow> nat \<Rightarrow> mem \<Rightarrow> nat \<times> mem" where
  "mvh_mem_zero destination len m = mvh_mem_set destination 0 len m"

definition mvh_mem_copy :: "nat \<Rightarrow> nat \<Rightarrow> nat \<Rightarrow> mem \<Rightarrow> nat \<times> mem" where
  "mvh_mem_copy destination source len m =
     (if (destination = 0 \<or> source = 0) \<and> len \<noteq> 0 then (0, m)
      else (destination, mem_copy_fwd destination source len m))"

definition mvh_mem_move :: "nat \<Rightarrow> nat \<Rightarrow> nat \<Rightarrow> mem \<Rightarrow> nat \<times> mem" where
  "mvh_mem_move destination source len m =
     (if (destination = 0 \<or> source = 0) \<and> len \<noteq> 0 then (0, m)
      else if len = 0 then (destination, m)
      else if source < destination \<and> destination < source + len
      then (destination, copy_back destination source len m)
      else (destination, mem_copy_fwd destination source len m))"

fun compare_loop :: "nat \<Rightarrow> nat \<Rightarrow> nat \<Rightarrow> nat \<Rightarrow> mem \<Rightarrow> int" where
  "compare_loop i 0 a b m = 0"
| "compare_loop i (Suc n) a b m =
     (if m (a + i) \<noteq> m (b + i) then if m (a + i) < m (b + i) then - 1 else 1
      else compare_loop (i + 1) n a b m)"

definition mvh_mem_compare :: "nat \<Rightarrow> nat \<Rightarrow> nat \<Rightarrow> mem \<Rightarrow> int" where
  "mvh_mem_compare left right len m =
     (if left = right \<or> len = 0 then 0 else if left = 0 then - 1 else if right = 0 then 1
      else compare_loop 0 len left right m)"

definition mvh_mem_equal :: "nat \<Rightarrow> nat \<Rightarrow> nat \<Rightarrow> mem \<Rightarrow> bool" where
  "mvh_mem_equal left right len m \<longleftrightarrow> mvh_mem_compare left right len m = 0"

fun swap_loop :: "nat \<Rightarrow> nat \<Rightarrow> nat \<Rightarrow> nat \<Rightarrow> mem \<Rightarrow> mem" where
  "swap_loop i 0 a b m = m"
| "swap_loop i (Suc n) a b m =
     (let v = m (a + i); m = m(a + i := m (b + i)) in swap_loop (i + 1) n a b (m(b + i := v)))"

definition mvh_mem_swap :: "nat \<Rightarrow> nat \<Rightarrow> nat \<Rightarrow> mem \<Rightarrow> mem" where
  "mvh_mem_swap left right len m =
     (if left = 0 \<or> right = 0 \<or> left = right then m else swap_loop 0 len left right m)"

fun find_loop :: "nat \<Rightarrow> nat \<Rightarrow> nat \<Rightarrow> u8 \<Rightarrow> mem \<Rightarrow> nat" where
  "find_loop i 0 a v m = 0"
| "find_loop i (Suc n) a v m = (if m (a + i) = v then a + i else find_loop (i + 1) n a v m)"

definition mvh_mem_find :: "nat \<Rightarrow> u8 \<Rightarrow> nat \<Rightarrow> mem \<Rightarrow> nat" where
  "mvh_mem_find memory v len m = (if memory = 0 then 0 else find_loop 0 len memory v m)"

text \<open>The loop of \<open>mvh_mem_reverse\<close>; the first argument counts the iterations left.\<close>

fun reverse_bytes :: "nat \<Rightarrow> nat \<Rightarrow> nat \<Rightarrow> nat \<Rightarrow> mem \<Rightarrow> mem" where
  "reverse_bytes 0 i len a m = m"
| "reverse_bytes (Suc n) i len a m =
     (let v = m (a + i); m = m(a + i := m (a + (len - i - 1))) in
      reverse_bytes n (i + 1) len a (m(a + (len - i - 1) := v)))"

definition mvh_mem_reverse :: "nat \<Rightarrow> nat \<Rightarrow> mem \<Rightarrow> nat \<times> mem" where
  "mvh_mem_reverse memory len m =
     (if memory = 0 then (0, m) else (memory, reverse_bytes (len div 2) 0 len memory m))"

fun zero_loop :: "nat \<Rightarrow> nat \<Rightarrow> nat \<Rightarrow> mem \<Rightarrow> bool" where
  "zero_loop i 0 a m = True"
| "zero_loop i (Suc n) a m = (if m (a + i) \<noteq> 0 then False else zero_loop (i + 1) n a m)"

definition mvh_mem_is_zero :: "nat \<Rightarrow> nat \<Rightarrow> mem \<Rightarrow> bool" where
  "mvh_mem_is_zero memory len m = (if memory = 0 then len = 0 else zero_loop 0 len memory m)"

fun xor_loop :: "nat \<Rightarrow> nat \<Rightarrow> nat \<Rightarrow> nat \<Rightarrow> mem \<Rightarrow> mem" where
  "xor_loop i 0 d s m = m"
| "xor_loop i (Suc n) d s m = xor_loop (i + 1) n d s (m(d + i := m (d + i) XOR m (s + i)))"

definition mvh_mem_xor :: "nat \<Rightarrow> nat \<Rightarrow> nat \<Rightarrow> mem \<Rightarrow> nat \<times> mem" where
  "mvh_mem_xor destination source len m =
     (if destination = 0 \<or> source = 0 then (0, m) else (destination, xor_loop 0 len destination source m))"

definition mvh_mem_copy_checked :: "nat \<Rightarrow> nat \<Rightarrow> nat \<Rightarrow> nat \<Rightarrow> mem \<Rightarrow> int \<times> mem" where
  "mvh_mem_copy_checked destination destination_size source len m =
     (if destination_size < len \<or> len \<noteq> 0 \<and> (destination = 0 \<or> source = 0) then (- 1, m)
      else (0, snd (mvh_mem_copy destination source len m)))"

fun count_byte_loop :: "nat \<Rightarrow> nat \<Rightarrow> nat \<Rightarrow> u8 \<Rightarrow> nat \<Rightarrow> mem \<Rightarrow> nat" where
  "count_byte_loop i 0 a v count m = count"
| "count_byte_loop i (Suc n) a v count m =
     count_byte_loop (i + 1) n a v (if m (a + i) = v then count + 1 else count) m"

definition mvh_mem_count_byte :: "nat \<Rightarrow> u8 \<Rightarrow> nat \<Rightarrow> mem \<Rightarrow> nat" where
  "mvh_mem_count_byte memory v len m = (if memory = 0 then 0 else count_byte_loop 0 len memory v 0 m)"

definition fnv64_step :: "u8 \<Rightarrow> u64 \<Rightarrow> u64" where
  "fnv64_step b hash = (hash XOR ucast b) * 1099511628211"

fun hash_loop :: "nat \<Rightarrow> nat \<Rightarrow> nat \<Rightarrow> u64 \<Rightarrow> mem \<Rightarrow> u64" where
  "hash_loop i 0 a hash m = hash"
| "hash_loop i (Suc n) a hash m = hash_loop (i + 1) n a (fnv64_step (m (a + i)) hash) m"

definition mvh_mem_hash_fnv1a64 :: "nat \<Rightarrow> nat \<Rightarrow> mem \<Rightarrow> u64" where
  "mvh_mem_hash_fnv1a64 memory len m =
     (if memory = 0 then 14695981039346656037 else hash_loop 0 len memory 14695981039346656037 m)"

text \<open>Arrays of 16- and 32-bit elements are written element by element, in the byte order of the machine.\<close>

fun fill_elements :: "nat \<Rightarrow> nat \<Rightarrow> nat \<Rightarrow> nat \<Rightarrow> nat \<Rightarrow> mem \<Rightarrow> mem" where
  "fill_elements w i 0 a v m = m"
| "fill_elements w i (Suc n) a v m = fill_elements w (i + 1) n a v (st m (a + w * i) w v)"

definition mvh_mem_fill16 :: "nat \<Rightarrow> u16 \<Rightarrow> nat \<Rightarrow> mem \<Rightarrow> mem" where
  "mvh_mem_fill16 destination v count m =
     (if destination = 0 then m else fill_elements 2 0 count destination (unat v) m)"

definition mvh_mem_fill32 :: "nat \<Rightarrow> u32 \<Rightarrow> nat \<Rightarrow> mem \<Rightarrow> mem" where
  "mvh_mem_fill32 destination v count m =
     (if destination = 0 then m else fill_elements 4 0 count destination (unat v) m)"

subsection \<open>Fields\<close>

definition mvh_load_le16 :: "nat \<Rightarrow> mem \<Rightarrow> u16" where
  "mvh_load_le16 p m = (if p = 0 then 0 else ucast (m p) OR push_bit 8 (ucast (m (p + 1))))"

definition mvh_load_le32 :: "nat \<Rightarrow> mem \<Rightarrow> u32" where
  "mvh_load_le32 p m =
     (if p = 0 then 0
      else ucast (m p) OR push_bit 8 (ucast (m (p + 1))) OR push_bit 16 (ucast (m (p + 2))) OR
        push_bit 24 (ucast (m (p + 3))))"

definition mvh_load_le64 :: "nat \<Rightarrow> mem \<Rightarrow> u64" where
  "mvh_load_le64 p m =
     (if p = 0 then 0 else ucast (mvh_load_le32 p m) OR push_bit 32 (ucast (mvh_load_le32 (p + 4) m)))"

definition mvh_store_le16 :: "nat \<Rightarrow> u16 \<Rightarrow> mem \<Rightarrow> mem" where
  "mvh_store_le16 p v m = (if p = 0 then m else m(p := ucast v, p + 1 := ucast (drop_bit 8 v)))"

definition mvh_store_le32 :: "nat \<Rightarrow> u32 \<Rightarrow> mem \<Rightarrow> mem" where
  "mvh_store_le32 p v m =
     (if p = 0 then m else mvh_store_le16 (p + 2) (ucast (drop_bit 16 v)) (mvh_store_le16 p (ucast v) m))"

definition mvh_store_le64 :: "nat \<Rightarrow> u64 \<Rightarrow> mem \<Rightarrow> mem" where
  "mvh_store_le64 p v m =
     (if p = 0 then m else mvh_store_le32 (p + 4) (ucast (drop_bit 32 v)) (mvh_store_le32 p (ucast v) m))"

definition mvh_load_be16 :: "nat \<Rightarrow> mem \<Rightarrow> u16" where
  "mvh_load_be16 p m = (if p = 0 then 0 else push_bit 8 (ucast (m p)) OR ucast (m (p + 1)))"

definition mvh_load_be32 :: "nat \<Rightarrow> mem \<Rightarrow> u32" where
  "mvh_load_be32 p m =
     (if p = 0 then 0 else push_bit 16 (ucast (mvh_load_be16 p m)) OR ucast (mvh_load_be16 (p + 2) m))"

definition mvh_load_be64 :: "nat \<Rightarrow> mem \<Rightarrow> u64" where
  "mvh_load_be64 p m =
     (if p = 0 then 0 else push_bit 32 (ucast (mvh_load_be32 p m)) OR ucast (mvh_load_be32 (p + 4) m))"

definition mvh_store_be16 :: "nat \<Rightarrow> u16 \<Rightarrow> mem \<Rightarrow> mem" where
  "mvh_store_be16 p v m = (if p = 0 then m else m(p := ucast (drop_bit 8 v), p + 1 := ucast v))"

definition mvh_store_be32 :: "nat \<Rightarrow> u32 \<Rightarrow> mem \<Rightarrow> mem" where
  "mvh_store_be32 p v m =
     (if p = 0 then m else mvh_store_be16 (p + 2) (ucast v) (mvh_store_be16 p (ucast (drop_bit 16 v)) m))"

definition mvh_store_be64 :: "nat \<Rightarrow> u64 \<Rightarrow> mem \<Rightarrow> mem" where
  "mvh_store_be64 p v m =
     (if p = 0 then m else mvh_store_be32 (p + 4) (ucast v) (mvh_store_be32 p (ucast (drop_bit 32 v)) m))"

subsection \<open>The accessors are field codecs\<close>

lemma join_halves_u16: "ucast (ucast v :: u8) OR push_bit 8 (ucast (ucast (drop_bit 8 v) :: u8)) = (v :: u16)"
  by (rule bit_word_eqI) (auto simp: bit_simps)

lemma join_halves_u32: "ucast (ucast v :: u16) OR push_bit 16 (ucast (ucast (drop_bit 16 v) :: u16)) = (v :: u32)"
  by (rule bit_word_eqI) (auto simp: bit_simps)

lemma join_halves_u64: "ucast (ucast v :: u32) OR push_bit 32 (ucast (ucast (drop_bit 32 v) :: u32)) = (v :: u64)"
  by (rule bit_word_eqI) (auto simp: bit_simps)

lemma ucast_u16_bytes: "(ucast (ucast a OR push_bit 8 (ucast b) :: u16) :: u32) = ucast (a :: u8) OR push_bit 8 (ucast (b :: u8))"
  by (rule bit_word_eqI) (auto simp: bit_simps dest: bit_imp_le_length)

lemma load_le32_halves:
  "p \<noteq> 0 \<Longrightarrow> mvh_load_le32 p m = ucast (mvh_load_le16 p m) OR push_bit 16 (ucast (mvh_load_le16 (p + 2) m))"
  by (simp add: mvh_load_le32_def mvh_load_le16_def ucast_u16_bytes push_bit_or or.assoc numeral_3_eq_3)

interpretation le16: field_codec "\<lambda>m i. m i" "\<lambda>m p. mvh_load_le16 p m" "\<lambda>m p v. mvh_store_le16 p v m" 2 "\<lambda>m p. p \<noteq> 0"
proof
  fix m m' :: mem and a :: nat
  assume "a \<noteq> 0" and eq: "\<And>i. i < 2 \<Longrightarrow> m (a + i) = m' (a + i)"
  show "mvh_load_le16 a m = mvh_load_le16 a m'"
    using eq [of 0] eq [of 1] by (simp add: mvh_load_le16_def)
qed (auto simp: mvh_load_le16_def mvh_store_le16_def join_halves_u16)

interpretation be16: field_codec "\<lambda>m i. m i" "\<lambda>m p. mvh_load_be16 p m" "\<lambda>m p v. mvh_store_be16 p v m" 2 "\<lambda>m p. p \<noteq> 0"
proof
  fix m m' :: mem and a :: nat
  assume "a \<noteq> 0" and eq: "\<And>i. i < 2 \<Longrightarrow> m (a + i) = m' (a + i)"
  show "mvh_load_be16 a m = mvh_load_be16 a m'"
    using eq [of 0] eq [of 1] by (simp add: mvh_load_be16_def)
qed (auto simp: mvh_load_be16_def mvh_store_be16_def join_halves_u16 or.commute)

text \<open>
  A field of double width whose halves are fields of the same family is again a codec: the
  argument for 32 and for 64 bits is the same.
\<close>

locale paired_codec = half: field_codec byte hload hstore w valid
  for byte :: "'m \<Rightarrow> nat \<Rightarrow> u8" and hload :: "'m \<Rightarrow> nat \<Rightarrow> 'h" and hstore w valid +
  fixes load :: "'m \<Rightarrow> nat \<Rightarrow> 'w" and store :: "'m \<Rightarrow> nat \<Rightarrow> 'w \<Rightarrow> 'm"
    and join :: "'h \<Rightarrow> 'h \<Rightarrow> 'w" and first :: "'w \<Rightarrow> 'h" and second :: "'w \<Rightarrow> 'h"
  assumes load_join: "valid m a \<Longrightarrow> load m a = join (hload m a) (hload m (a + w))"
    and store_halves: "valid m a \<Longrightarrow> store m a v = hstore (hstore m a (first v)) (a + w) (second v)"
    and store_invalid: "\<not> valid m a \<Longrightarrow> store m a v = m"
    and join_split: "join (first v) (second v) = v"
    and valid_next: "valid m a \<Longrightarrow> valid m (a + w)"

sublocale paired_codec \<subseteq> whole: field_codec byte load store "2 * w" valid
proof
  fix m m' :: 'm and a b i :: nat and v
  show "valid (store m a v) b \<longleftrightarrow> valid m b"
    by (cases "valid m a") (simp_all add: store_halves store_invalid half.store_valid)
  show "byte (store m a v) i = byte m i" if "i < a \<or> a + 2 * w \<le> i"
    using that by (cases "valid m a") (auto simp: store_halves store_invalid half.store_frame)
  show "load (store m a v) a = v" if a: "valid m a"
    using half.store_store_commute_load [of m a "a + w" "first v" "second v"] valid_next [OF a] a
    by (simp add: store_halves load_join join_split half.store_valid)
  show "load m a = load m' a" if "valid m a" "valid m' a" and eq: "\<And>i. i < 2 * w \<Longrightarrow> byte m (a + i) = byte m' (a + i)"
  proof -
    have "hload m a = hload m' a" "hload m (a + w) = hload m' (a + w)"
      using that by (auto intro!: half.load_bytes valid_next simp: add.assoc)
    then show ?thesis
      using that by (simp add: load_join)
  qed
qed

interpretation le32: paired_codec "\<lambda>m i. m i" "\<lambda>m p. mvh_load_le16 p m" "\<lambda>m p v. mvh_store_le16 p v m"
  "2" "\<lambda>m p. p \<noteq> 0" "\<lambda>m p. mvh_load_le32 p m" "\<lambda>m p v. mvh_store_le32 p v m"
  "\<lambda>x y. ucast x OR push_bit 16 (ucast y)" ucast "\<lambda>v. ucast (drop_bit 16 v)"
  by unfold_locales (simp_all add: load_le32_halves mvh_store_le32_def join_halves_u32)

interpretation le64: paired_codec "\<lambda>m i. m i" "\<lambda>m p. mvh_load_le32 p m" "\<lambda>m p v. mvh_store_le32 p v m"
  "2 * 2" "\<lambda>m p. p \<noteq> 0" "\<lambda>m p. mvh_load_le64 p m" "\<lambda>m p v. mvh_store_le64 p v m"
  "\<lambda>x y. ucast x OR push_bit 32 (ucast y)" ucast "\<lambda>v. ucast (drop_bit 32 v)"
  by unfold_locales (simp_all add: mvh_load_le64_def mvh_store_le64_def join_halves_u64)

interpretation be32: paired_codec "\<lambda>m i. m i" "\<lambda>m p. mvh_load_be16 p m" "\<lambda>m p v. mvh_store_be16 p v m"
  "2" "\<lambda>m p. p \<noteq> 0" "\<lambda>m p. mvh_load_be32 p m" "\<lambda>m p v. mvh_store_be32 p v m"
  "\<lambda>x y. push_bit 16 (ucast x) OR ucast y" "\<lambda>v. ucast (drop_bit 16 v)" ucast
  by unfold_locales (simp_all add: mvh_load_be32_def mvh_store_be32_def join_halves_u32 or.commute)

interpretation be64: paired_codec "\<lambda>m i. m i" "\<lambda>m p. mvh_load_be32 p m" "\<lambda>m p v. mvh_store_be32 p v m"
  "2 * 2" "\<lambda>m p. p \<noteq> 0" "\<lambda>m p. mvh_load_be64 p m" "\<lambda>m p v. mvh_store_be64 p v m"
  "\<lambda>x y. push_bit 32 (ucast x) OR ucast y" "\<lambda>v. ucast (drop_bit 32 v)" ucast
  by unfold_locales (simp_all add: mvh_load_be64_def mvh_store_be64_def join_halves_u64 or.commute)

subsection \<open>The block functions\<close>

lemma compare_loop_zero: "compare_loop i n a b m = 0 \<longleftrightarrow> (\<forall>k < n. m (a + i + k) = m (b + i + k))"
proof (induction n arbitrary: i)
  case (Suc n)
  show ?case
    using Suc.IH [of "i + 1"] unfolding All_less_Suc2 by simp
qed simp

lemma mvh_mem_equal_iff:
  assumes "left \<noteq> 0" and "right \<noteq> 0"
  shows "mvh_mem_equal left right len m \<longleftrightarrow> (\<forall>k < len. m (left + k) = m (right + k))"
  using assms compare_loop_zero [of 0 len left right m]
  by (auto simp: mvh_mem_equal_def mvh_mem_compare_def)

lemma reverse_bytes_eq:
  assumes "n + i = len div 2"
  shows "reverse_bytes n i len a m =
    (\<lambda>x. if a + i \<le> x \<and> x < a + (len - i) then m (a + (len - 1 - (x - a))) else m x)"
  using assms
proof (induction n arbitrary: i m)
  case 0
  then have "len = 2 * i \<or> len = 2 * i + 1"
    by auto
  then have "a + (len - 1 - (x - a)) = x" if "a + i \<le> x" "x < a + (len - i)" for x
    using that by auto
  then have "m x = (if a + i \<le> x \<and> x < a + (len - i) then m (a + (len - 1 - (x - a))) else m x)" for x
    by (cases "a + i \<le> x \<and> x < a + (len - i)") (simp_all only: if_True if_False refl simp_thms)
  then show ?case
    unfolding reverse_bytes.simps by (rule ext)
next
  case (Suc n)
  have i: "n + (i + 1) = len div 2" "2 * i + 2 \<le> len"
    using Suc.prems by simp_all
  have "reverse_bytes (Suc n) i len a m x =
    (if a + i \<le> x \<and> x < a + (len - i) then m (a + (len - 1 - (x - a))) else m x)" for x
  proof -
    consider "x = a + i" | "x = a + (len - i - 1)" "x \<noteq> a + i" |
      "a + (i + 1) \<le> x" "x < a + (len - (i + 1))" | "x < a + i" | "a + (len - i) \<le> x"
      by linarith
    then show ?thesis
      unfolding reverse_bytes.simps Let_def Suc.IH [OF i(1)] using i(2) by cases auto
  qed
  then show ?case
    by (rule ext)
qed

lemma mvh_mem_reverse_eq:
  "mvh_mem_reverse a len m =
     (if a = 0 then (0, m)
      else (a, \<lambda>x. if a \<le> x \<and> x < a + len then m (a + (len - 1 - (x - a))) else m x))"
  using reverse_bytes_eq [of "len div 2" 0 len a m] by (simp add: mvh_mem_reverse_def)

lemma mvh_mem_reverse_involution: "snd (mvh_mem_reverse a len (snd (mvh_mem_reverse a len m))) = m"
  by (auto simp: mvh_mem_reverse_eq fun_eq_iff)

lemma find_loop_eq:
  "a \<noteq> 0 \<Longrightarrow> find_loop i n a v m =
     (if \<exists>k < n. m (a + i + k) = v then a + i + (LEAST k. m (a + i + k) = v) else 0)"
proof (induction n arbitrary: i)
  case (Suc n)
  show ?case
  proof (cases "m (a + i) = v")
    case True
    then have "(LEAST k. m (a + i + k) = v) = 0"
      by (intro Least_eq_0) simp
    with True show ?thesis
      by auto
  next
    case False
    have ex: "(\<exists>k < Suc n. m (a + i + k) = v) \<longleftrightarrow> (\<exists>k < n. m (a + (i + 1) + k) = v)"
      using False by (simp add: Ex_less_Suc2)
    have "(LEAST k. m (a + i + k) = v) = Suc (LEAST k. m (a + (i + 1) + k) = v)" if "m (a + (i + 1) + k) = v" for k
      using Least_Suc [of "\<lambda>k. m (a + i + k) = v" "Suc k"] that False by simp
    then show ?thesis
      using False Suc by (auto simp: ex)
  qed
qed simp

text \<open>
  \<^verbatim>\<open>mvh_mem_move\<close> copies correctly whatever the overlap of the two blocks: afterwards byte
  \<open>k\<close> of the destination is byte \<open>k\<close> of the source as it was before, every other byte of
  memory is unchanged, and the destination is returned. A null pointer with a non-zero size
  is refused without touching memory.
\<close>

theorem mvh_mem_move_overlap:
  "mvh_mem_move destination source len m =
     (if (destination = 0 \<or> source = 0) \<and> len \<noteq> 0 then (0, m)
      else (destination,
        \<lambda>x. if destination \<le> x \<and> x < destination + len then m (source + (x - destination)) else m x))"
  by (auto simp: mvh_mem_move_def copy_back_eq copy_loop_eq fun_eq_iff)

lemma le_be_16: "mvh_load_be16 p m = mvh_bswap16 (mvh_load_le16 p m)"
  unfolding mvh_load_be16_def mvh_bswap16_def mvh_load_le16_def
  by (rule bit_word_eqI) (auto simp: bit_simps dest: bit_imp_le_length)

text \<open>
  C35. The field accessors round-trip at every width and in both byte orders: what a store
  writes at a non-null pointer the matching load reads back, and no byte outside the field
  changes. Reading a 16-bit field in the other byte order is reading it and swapping its bytes.
\<close>

theorem field_accessors_roundtrip:
  assumes "p \<noteq> 0"
  shows "mvh_load_le16 p (mvh_store_le16 p a m) = a \<and> mvh_load_be16 p (mvh_store_be16 p a m) = a \<and>
    mvh_load_le32 p (mvh_store_le32 p b m) = b \<and> mvh_load_be32 p (mvh_store_be32 p b m) = b \<and>
    mvh_load_le64 p (mvh_store_le64 p c m) = c \<and> mvh_load_be64 p (mvh_store_be64 p c m) = c \<and>
    mvh_load_be16 p m = mvh_bswap16 (mvh_load_le16 p m) \<and>
    (i < p \<or> p + 2 \<le> i \<longrightarrow> mvh_store_le16 p a m i = m i \<and> mvh_store_be16 p a m i = m i) \<and>
    (i < p \<or> p + 4 \<le> i \<longrightarrow> mvh_store_le32 p b m i = m i \<and> mvh_store_be32 p b m i = m i) \<and>
    (i < p \<or> p + 8 \<le> i \<longrightarrow> mvh_store_le64 p c m i = m i \<and> mvh_store_be64 p c m i = m i)"
  using assms le_be_16 [of p m] le32.whole.store_frame [of i p b m] be32.whole.store_frame [of i p b m]
    le64.whole.store_frame [of i p c m] be64.whole.store_frame [of i p c m]
  by (simp add: le16.load_store be16.load_store le32.whole.load_store be32.whole.load_store
    le64.whole.load_store be64.whole.load_store le16.store_frame be16.store_frame)

theorem field_accessors_roundtrip_witness:
  "(16 :: nat) \<noteq> 0 \<and> mvh_load_be32 16 (mvh_store_be32 16 0x11223344 (\<lambda>_. 0)) = 0x11223344 \<and>
   mvh_store_be32 16 0x11223344 (\<lambda>_. 0) 20 = 0"
  using field_accessors_roundtrip [of 16 0 "\<lambda>_. 0" "0x11223344" 0 20] by simp

end
