(* ===== verification/Util_String.thy ===== *)
theory Util_String
  imports Util_Mem
begin

section \<open>String utilities\<close>

text \<open>
  The functions of \<open>core/util.c\<close> on characters and NUL-terminated strings in memory. A
  character is a byte read as a signed number, as \<open>char\<close> is on this target. A loop that
  looks for the terminator and has no bound runs forever on memory without one, so it is a
  \<open>partial_function\<close>; the lemmas show that it returns on every string. The predicate
  \<open>cstr m p s\<close> says that the string with the characters \<open>s\<close> stands at \<open>p\<close>.
\<close>

subsection \<open>Characters\<close>

definition mvh_ascii_is_upper :: "u8 \<Rightarrow> bool" where
  "mvh_ascii_is_upper c \<longleftrightarrow> 65 \<le> sint c \<and> sint c \<le> 90"
definition mvh_ascii_is_lower :: "u8 \<Rightarrow> bool" where
  "mvh_ascii_is_lower c \<longleftrightarrow> 97 \<le> sint c \<and> sint c \<le> 122"
definition mvh_ascii_is_alpha :: "u8 \<Rightarrow> bool" where
  "mvh_ascii_is_alpha c \<longleftrightarrow> mvh_ascii_is_upper c \<or> mvh_ascii_is_lower c"
definition mvh_ascii_is_digit :: "u8 \<Rightarrow> bool" where
  "mvh_ascii_is_digit c \<longleftrightarrow> 48 \<le> sint c \<and> sint c \<le> 57"
definition mvh_ascii_is_alnum :: "u8 \<Rightarrow> bool" where
  "mvh_ascii_is_alnum c \<longleftrightarrow> mvh_ascii_is_alpha c \<or> mvh_ascii_is_digit c"
definition mvh_ascii_is_space :: "u8 \<Rightarrow> bool" where
  "mvh_ascii_is_space c \<longleftrightarrow> c = 32 \<or> c = 9 \<or> c = 10 \<or> c = 13 \<or> c = 12 \<or> c = 11"
definition mvh_ascii_to_upper :: "u8 \<Rightarrow> u8" where
  "mvh_ascii_to_upper c = (if mvh_ascii_is_lower c then c - 32 else c)"
definition mvh_ascii_to_lower :: "u8 \<Rightarrow> u8" where
  "mvh_ascii_to_lower c = (if mvh_ascii_is_upper c then c + 32 else c)"
definition mvh_ascii_is_hex :: "u8 \<Rightarrow> bool" where
  "mvh_ascii_is_hex c \<longleftrightarrow>
     mvh_ascii_is_digit c \<or> 97 \<le> sint (mvh_ascii_to_lower c) \<and> sint (mvh_ascii_to_lower c) \<le> 102"
definition mvh_ascii_is_printable :: "u8 \<Rightarrow> bool" where
  "mvh_ascii_is_printable c \<longleftrightarrow> 32 \<le> c \<and> c \<le> 126"
definition mvh_ascii_is_control :: "u8 \<Rightarrow> bool" where
  "mvh_ascii_is_control c \<longleftrightarrow> c < 32 \<or> c = 127"
definition mvh_ascii_is_graph :: "u8 \<Rightarrow> bool" where
  "mvh_ascii_is_graph c \<longleftrightarrow> 33 \<le> c \<and> c \<le> 126"
definition mvh_ascii_is_punctuation :: "u8 \<Rightarrow> bool" where
  "mvh_ascii_is_punctuation c \<longleftrightarrow> mvh_ascii_is_graph c \<and> \<not> mvh_ascii_is_alnum c"
definition mvh_ascii_is_binary :: "u8 \<Rightarrow> bool" where
  "mvh_ascii_is_binary c \<longleftrightarrow> c = 48 \<or> c = 49"
definition mvh_ascii_digit_value :: "u8 \<Rightarrow> int" where
  "mvh_ascii_digit_value c = (if mvh_ascii_is_digit c then sint c - 48 else - 1)"
definition mvh_ascii_hex_value :: "u8 \<Rightarrow> int" where
  "mvh_ascii_hex_value c =
     (let c = mvh_ascii_to_lower c in
      if mvh_ascii_is_digit c then sint c - 48
      else if 97 \<le> sint c \<and> sint c \<le> 102 then sint c - 97 + 10 else - 1)"

subsection \<open>Length and comparison\<close>

partial_function (option) length_loop :: "mem \<Rightarrow> nat \<Rightarrow> nat \<Rightarrow> nat option" where
  "length_loop m t n = (if m (t + n) \<noteq> 0 then length_loop m t (n + 1) else Some n)"

definition mvh_str_length :: "mem \<Rightarrow> nat \<Rightarrow> nat option" where
  "mvh_str_length m t = (if t = 0 then Some 0 else length_loop m t 0)"

function nlength_loop :: "mem \<Rightarrow> nat \<Rightarrow> nat \<Rightarrow> nat \<Rightarrow> nat" where
  "nlength_loop m t limit n =
     (if n < limit \<and> m (t + n) \<noteq> 0 then nlength_loop m t limit (n + 1) else n)"
  by auto
termination
  by (relation "measure (\<lambda>(m, t, limit, n). limit - n)") auto

definition mvh_str_nlength :: "mem \<Rightarrow> nat \<Rightarrow> nat \<Rightarrow> nat" where
  "mvh_str_nlength m t limit = (if t = 0 then 0 else nlength_loop m t limit 0)"

partial_function (option) compare_scan :: "mem \<Rightarrow> nat \<Rightarrow> nat \<Rightarrow> nat \<Rightarrow> nat option" where
  "compare_scan m l r i =
     (if m (l + i) \<noteq> 0 \<and> m (l + i) = m (r + i) then compare_scan m l r (i + 1) else Some i)"

definition mvh_str_compare :: "mem \<Rightarrow> nat \<Rightarrow> nat \<Rightarrow> int option" where
  "mvh_str_compare m l r =
     (if l = r then Some 0 else if l = 0 then Some (- 1) else if r = 0 then Some 1
      else do { i \<leftarrow> compare_scan m l r 0;
        Some (if m (l + i) = m (r + i) then 0 else if m (l + i) < m (r + i) then - 1 else 1) })"

definition mvh_str_equal :: "mem \<Rightarrow> nat \<Rightarrow> nat \<Rightarrow> bool option" where
  "mvh_str_equal m l r = do { c \<leftarrow> mvh_str_compare m l r; Some (c = 0) }"

fun ncompare_loop :: "mem \<Rightarrow> nat \<Rightarrow> nat \<Rightarrow> nat \<Rightarrow> nat \<Rightarrow> int" where
  "ncompare_loop m l r i 0 = 0"
| "ncompare_loop m l r i (Suc n) =
     (if m (l + i) \<noteq> m (r + i) then if m (l + i) < m (r + i) then - 1 else 1
      else if m (l + i) = 0 then 0 else ncompare_loop m l r (i + 1) n)"

definition mvh_str_ncompare :: "mem \<Rightarrow> nat \<Rightarrow> nat \<Rightarrow> nat \<Rightarrow> int" where
  "mvh_str_ncompare m l r limit =
     (if l = r \<or> limit = 0 then 0 else if l = 0 then - 1 else if r = 0 then 1
      else ncompare_loop m l r 0 limit)"

definition mvh_str_nequal :: "mem \<Rightarrow> nat \<Rightarrow> nat \<Rightarrow> nat \<Rightarrow> bool" where
  "mvh_str_nequal m l r limit \<longleftrightarrow> mvh_str_ncompare m l r limit = 0"

partial_function (option) case_scan :: "mem \<Rightarrow> nat \<Rightarrow> nat \<Rightarrow> (nat \<times> nat) option" where
  "case_scan m l r =
     (if m l \<noteq> 0 \<and> mvh_ascii_to_lower (m l) = mvh_ascii_to_lower (m r) then case_scan m (l + 1) (r + 1)
      else Some (l, r))"

definition mvh_str_case_equal :: "mem \<Rightarrow> nat \<Rightarrow> nat \<Rightarrow> bool option" where
  "mvh_str_case_equal m l r =
     (if l = 0 \<or> r = 0 then Some (l = r)
      else do { (l, r) \<leftarrow> case_scan m l r; Some (mvh_ascii_to_lower (m l) = mvh_ascii_to_lower (m r)) })"

fun ncase_loop :: "mem \<Rightarrow> nat \<Rightarrow> nat \<Rightarrow> nat \<Rightarrow> nat \<Rightarrow> bool" where
  "ncase_loop m l r i 0 = True"
| "ncase_loop m l r i (Suc n) =
     (if mvh_ascii_to_lower (m (l + i)) \<noteq> mvh_ascii_to_lower (m (r + i)) then False
      else if m (l + i) = 0 then True else ncase_loop m l r (i + 1) n)"

definition mvh_str_ncase_equal :: "mem \<Rightarrow> nat \<Rightarrow> nat \<Rightarrow> nat \<Rightarrow> bool" where
  "mvh_str_ncase_equal m l r limit = (if l = 0 \<or> r = 0 then l = r else ncase_loop m l r 0 limit)"

partial_function (option) prefix_scan :: "mem \<Rightarrow> nat \<Rightarrow> nat \<Rightarrow> nat \<Rightarrow> nat option" where
  "prefix_scan m l r n =
     (if m (l + n) \<noteq> 0 \<and> m (l + n) = m (r + n) then prefix_scan m l r (n + 1) else Some n)"

definition mvh_str_common_prefix :: "mem \<Rightarrow> nat \<Rightarrow> nat \<Rightarrow> nat option" where
  "mvh_str_common_prefix m l r = (if l = 0 \<or> r = 0 then Some 0 else prefix_scan m l r 0)"

definition mvh_str_is_empty :: "mem \<Rightarrow> nat \<Rightarrow> bool" where
  "mvh_str_is_empty m t \<longleftrightarrow> t = 0 \<or> m t = 0"

subsection \<open>Search\<close>

partial_function (option) find_char_loop :: "mem \<Rightarrow> nat \<Rightarrow> u8 \<Rightarrow> nat option" where
  "find_char_loop m t c =
     (if m t = c then Some t else if m t \<noteq> 0 then find_char_loop m (t + 1) c else Some 0)"

definition mvh_str_find_char :: "mem \<Rightarrow> nat \<Rightarrow> u8 \<Rightarrow> nat option" where
  "mvh_str_find_char m t c = (if t = 0 then Some 0 else find_char_loop m t c)"

partial_function (option) rfind_char_loop :: "mem \<Rightarrow> nat \<Rightarrow> u8 \<Rightarrow> nat \<Rightarrow> nat option" where
  "rfind_char_loop m t c found =
     (let found = (if m t = c then t else found) in
      if m t \<noteq> 0 then rfind_char_loop m (t + 1) c found else Some found)"

definition mvh_str_rfind_char :: "mem \<Rightarrow> nat \<Rightarrow> u8 \<Rightarrow> nat option" where
  "mvh_str_rfind_char m t c = (if t = 0 then Some 0 else rfind_char_loop m t c 0)"

definition mvh_str_index_char :: "mem \<Rightarrow> nat \<Rightarrow> u8 \<Rightarrow> int option" where
  "mvh_str_index_char m t c = do { found \<leftarrow> mvh_str_find_char m t c;
     Some (if found = 0 \<or> t = 0 then - 1 else int found - int t) }"

definition mvh_str_last_index_char :: "mem \<Rightarrow> nat \<Rightarrow> u8 \<Rightarrow> int option" where
  "mvh_str_last_index_char m t c = do { found \<leftarrow> mvh_str_rfind_char m t c;
     Some (if found = 0 \<or> t = 0 then - 1 else int found - int t) }"

definition mvh_str_starts_with :: "mem \<Rightarrow> nat \<Rightarrow> nat \<Rightarrow> bool option" where
  "mvh_str_starts_with m t prefix = do { len \<leftarrow> mvh_str_length m prefix;
     Some (t \<noteq> 0 \<and> prefix \<noteq> 0 \<and> mvh_str_ncompare m t prefix len = 0) }"

definition mvh_str_ends_with :: "mem \<Rightarrow> nat \<Rightarrow> nat \<Rightarrow> bool option" where
  "mvh_str_ends_with m t suffix = do {
     text_length \<leftarrow> mvh_str_length m t;
     suffix_length \<leftarrow> mvh_str_length m suffix;
     if t \<noteq> 0 \<and> suffix \<noteq> 0 \<and> suffix_length \<le> text_length
     then do { c \<leftarrow> mvh_str_compare m (t + text_length - suffix_length) suffix; Some (c = 0) }
     else Some False }"

partial_function (option) str_find_loop :: "mem \<Rightarrow> nat \<Rightarrow> nat \<Rightarrow> nat \<Rightarrow> nat option" where
  "str_find_loop m t needle len =
     (if m t \<noteq> 0 then if mvh_str_ncompare m t needle len = 0 then Some t else str_find_loop m (t + 1) needle len
      else Some 0)"

definition mvh_str_find :: "mem \<Rightarrow> nat \<Rightarrow> nat \<Rightarrow> nat option" where
  "mvh_str_find m t needle = do {
     needle_length \<leftarrow> mvh_str_length m needle;
     if t = 0 \<or> needle = 0 then Some 0 else if needle_length = 0 then Some t
     else str_find_loop m t needle needle_length }"

definition mvh_str_contains :: "mem \<Rightarrow> nat \<Rightarrow> nat \<Rightarrow> bool option" where
  "mvh_str_contains m t needle = do { p \<leftarrow> mvh_str_find m t needle; Some (p \<noteq> 0) }"

partial_function (option) count_char_loop :: "mem \<Rightarrow> nat \<Rightarrow> u8 \<Rightarrow> nat \<Rightarrow> nat option" where
  "count_char_loop m t c count =
     (if m t \<noteq> 0 then count_char_loop m (t + 1) c (if m t = c then count + 1 else count) else Some count)"

definition mvh_str_count_char :: "mem \<Rightarrow> nat \<Rightarrow> u8 \<Rightarrow> nat option" where
  "mvh_str_count_char m t c = (if t = 0 then Some 0 else count_char_loop m t c 0)"

partial_function (option) fnv32_loop :: "mem \<Rightarrow> nat \<Rightarrow> u32 \<Rightarrow> u32 option" where
  "fnv32_loop m t hash =
     (if m t \<noteq> 0 then fnv32_loop m (t + 1) ((hash XOR ucast (m t)) * 16777619) else Some hash)"

definition mvh_str_hash_fnv1a32 :: "mem \<Rightarrow> nat \<Rightarrow> u32 option" where
  "mvh_str_hash_fnv1a32 m t = (if t = 0 then Some 2166136261 else fnv32_loop m t 2166136261)"

partial_function (option) fnv64_loop :: "mem \<Rightarrow> nat \<Rightarrow> u64 \<Rightarrow> u64 option" where
  "fnv64_loop m t hash = (if m t \<noteq> 0 then fnv64_loop m (t + 1) (fnv64_step (m t) hash) else Some hash)"

definition mvh_str_hash_fnv1a64 :: "mem \<Rightarrow> nat \<Rightarrow> u64 option" where
  "mvh_str_hash_fnv1a64 m t = (if t = 0 then Some 14695981039346656037 else fnv64_loop m t 14695981039346656037)"

partial_function (option) skip_space_loop :: "mem \<Rightarrow> nat \<Rightarrow> nat option" where
  "skip_space_loop m t = (if mvh_ascii_is_space (m t) then skip_space_loop m (t + 1) else Some t)"

definition mvh_str_trim_left :: "mem \<Rightarrow> nat \<Rightarrow> nat option" where
  "mvh_str_trim_left m t = (if t = 0 then Some 0 else skip_space_loop m t)"

definition mvh_str_skip_space :: "mem \<Rightarrow> nat \<Rightarrow> nat option" where
  "mvh_str_skip_space m t = mvh_str_trim_left m t"

subsection \<open>Functions that write\<close>

definition mvh_str_ncopy :: "nat \<Rightarrow> nat \<Rightarrow> nat \<Rightarrow> nat \<Rightarrow> mem \<Rightarrow> nat \<times> mem" where
  "mvh_str_ncopy destination capacity source source_limit m =
     (let len = mvh_str_nlength m source source_limit;
          copy = (if capacity = 0 then 0 else min len (capacity - 1)) in
      if destination = 0 \<or> capacity = 0 then (len, m)
      else (len, (mem_copy_fwd destination source copy m)(destination + copy := 0)))"

definition mvh_str_copy :: "nat \<Rightarrow> nat \<Rightarrow> nat \<Rightarrow> mem \<Rightarrow> nat \<times> mem" where
  "mvh_str_copy destination capacity source m = mvh_str_ncopy destination capacity source UINT64_MAX m"

definition mvh_str_concat :: "nat \<Rightarrow> nat \<Rightarrow> nat \<Rightarrow> mem \<Rightarrow> (nat \<times> mem) option" where
  "mvh_str_concat destination capacity source m =
     (let pre = mvh_str_nlength m destination capacity in
      do { suf \<leftarrow> mvh_str_length m source;
        if destination = 0 \<or> capacity = 0 \<or> pre = capacity then Some (add64 pre suf, m)
        else let copy = min suf (capacity - pre - 1) in
          Some (add64 pre suf,
            (mem_copy_fwd (destination + pre) source copy m)(destination + pre + copy := 0)) })"

definition mvh_str_join :: "nat \<Rightarrow> nat \<Rightarrow> nat \<Rightarrow> nat \<Rightarrow> nat \<Rightarrow> mem \<Rightarrow> (nat \<times> mem) option" where
  "mvh_str_join destination capacity left separator right m = do {
     a \<leftarrow> mvh_str_length m left;
     b \<leftarrow> mvh_str_length m separator;
     c \<leftarrow> mvh_str_length m right;
     let required = add64 (add64 a b) c;
     if destination = 0 \<or> capacity = 0 then Some (required, m)
     else do {
       (_, m) \<leftarrow> mvh_str_concat destination capacity left (m(destination := 0));
       (_, m) \<leftarrow> mvh_str_concat destination capacity separator m;
       (_, m) \<leftarrow> mvh_str_concat destination capacity right m;
       Some (required, m) } }"

definition mvh_str_split_once ::
  "nat \<Rightarrow> u8 \<Rightarrow> nat \<Rightarrow> nat \<Rightarrow> nat \<Rightarrow> nat \<Rightarrow> mem \<Rightarrow> (int \<times> mem) option" where
  "mvh_str_split_once t separator left left_capacity right right_capacity m = do {
     split \<leftarrow> mvh_str_find_char m t separator;
     if t = 0 \<or> split = 0 \<or> left = 0 \<or> right = 0 \<or> left_capacity = 0 \<or> right_capacity = 0 then Some (- 1, m)
     else let left_length = split - t in
       if left_capacity \<le> left_length then Some (- 1, m)
       else do {
         tail \<leftarrow> mvh_str_length m (split + 1);
         if right_capacity \<le> tail then Some (- 1, m)
         else let (_, m) = mvh_str_ncopy left left_capacity t left_length m;
                  (_, m) = mvh_str_copy right right_capacity (split + 1) m in Some (0, m) } }"

fun trim_right_loop :: "mem \<Rightarrow> nat \<Rightarrow> nat \<Rightarrow> nat" where
  "trim_right_loop m t 0 = 0"
| "trim_right_loop m t (Suc n) = (if mvh_ascii_is_space (m (t + n)) then trim_right_loop m t n else Suc n)"

definition mvh_str_trim_right :: "nat \<Rightarrow> mem \<Rightarrow> (nat \<times> mem) option" where
  "mvh_str_trim_right t m = do {
     len \<leftarrow> mvh_str_length m t;
     if t = 0 then Some (0, m) else let n = trim_right_loop m t len in Some (n, m(t + n := 0)) }"

partial_function (option) map_chars_loop :: "(u8 \<Rightarrow> u8) \<Rightarrow> nat \<Rightarrow> mem \<Rightarrow> mem option" where
  "map_chars_loop f t m = (if m t \<noteq> 0 then map_chars_loop f (t + 1) (m(t := f (m t))) else Some m)"

definition mvh_str_to_upper :: "nat \<Rightarrow> mem \<Rightarrow> mem option" where
  "mvh_str_to_upper t m = (if t = 0 then Some m else map_chars_loop mvh_ascii_to_upper t m)"

definition mvh_str_to_lower :: "nat \<Rightarrow> mem \<Rightarrow> mem option" where
  "mvh_str_to_lower t m = (if t = 0 then Some m else map_chars_loop mvh_ascii_to_lower t m)"

partial_function (option) replace_loop :: "u8 \<Rightarrow> u8 \<Rightarrow> nat \<Rightarrow> nat \<Rightarrow> mem \<Rightarrow> (nat \<times> mem) option" where
  "replace_loop old new t count m =
     (if m t \<noteq> 0 then
        if m t = old then replace_loop old new (t + 1) (count + 1) (m(t := new))
        else replace_loop old new (t + 1) count m
      else Some (count, m))"

definition mvh_str_replace_char :: "nat \<Rightarrow> u8 \<Rightarrow> u8 \<Rightarrow> mem \<Rightarrow> (nat \<times> mem) option" where
  "mvh_str_replace_char t old new m = (if t = 0 then Some (0, m) else replace_loop old new t 0 m)"

definition mvh_str_reverse :: "nat \<Rightarrow> mem \<Rightarrow> mem option" where
  "mvh_str_reverse t m =
     (if t \<noteq> 0 then do { len \<leftarrow> mvh_str_length m t; Some (snd (mvh_mem_reverse t len m)) } else Some m)"

partial_function (option) token_loop :: "mem \<Rightarrow> nat \<Rightarrow> nat \<Rightarrow> nat option" where
  "token_loop m start len =
     (if m (start + len) \<noteq> 0 \<and> \<not> mvh_ascii_is_space (m (start + len)) then token_loop m start (len + 1)
      else Some len)"

text \<open>The cursor is a cell with a pointer; \<open>None\<close> is a null \<open>cursor\<close>.\<close>

definition mvh_str_next_token :: "nat cell \<Rightarrow> nat \<Rightarrow> nat \<Rightarrow> mem \<Rightarrow> (int \<times> nat cell \<times> mem) option" where
  "mvh_str_next_token cursor token capacity m =
     (case cursor of
        None \<Rightarrow> Some (- 1, cursor, m)
      | Some c \<Rightarrow>
        if c = 0 \<or> token = 0 \<or> capacity = 0 then Some (- 1, cursor, m)
        else do {
          start \<leftarrow> mvh_str_skip_space m c;
          if m start = 0 then Some (0, Some start, m(token := 0))
          else do {
            len \<leftarrow> token_loop m start 0;
            if capacity \<le> len then Some (- 1, cursor, m)
            else Some (1, Some (start + len), snd (mvh_str_ncopy token capacity start len m)) } })"

partial_function (option) slash_loop :: "nat \<Rightarrow> nat \<Rightarrow> nat \<Rightarrow> bool \<Rightarrow> mem \<Rightarrow> (nat \<times> mem) option" where
  "slash_loop t rd wr previous_slash m =
     (if m (t + rd) \<noteq> 0 then
        let v = m (t + rd); slash = (v = 47 \<or> v = 92) in
        if slash \<and> previous_slash then slash_loop t (rd + 1) wr previous_slash m
        else slash_loop t (rd + 1) (wr + 1) slash (m(t + wr := if slash then 47 else v))
      else Some (wr, m(t + wr := 0)))"

definition mvh_str_normalize_slashes :: "nat \<Rightarrow> mem \<Rightarrow> (nat \<times> mem) option" where
  "mvh_str_normalize_slashes t m = (if t = 0 then Some (0, m) else slash_loop t 0 0 False m)"

end
