(* ===== verification/Util_String_Props.thy ===== *)
theory Util_String_Props
  imports Util_String
begin

section \<open>The string functions implement list operations\<close>

text \<open>
  Each string function, run on memory that holds the strings \<open>s\<close>, \<open>t\<close>, returns, and its
  result is the corresponding operation on the lists \<open>s\<close> and \<open>t\<close>.
\<close>

fun cstr :: "mem \<Rightarrow> nat \<Rightarrow> bytes \<Rightarrow> bool" where
  "cstr m p [] \<longleftrightarrow> m p = 0"
| "cstr m p (c # s) \<longleftrightarrow> m p = c \<and> c \<noteq> 0 \<and> cstr m (p + 1) s"

lemma cstr_iff: "cstr m p s \<longleftrightarrow> (\<forall>i < length s. m (p + i) = s ! i \<and> s ! i \<noteq> 0) \<and> m (p + length s) = 0"
proof (induction s arbitrary: p)
  case (Cons c s)
  show ?case
    unfolding cstr.simps Cons.IH length_Cons All_less_Suc2 by auto
qed simp

lemma cstr_cong: "(\<And>i. i \<le> length s \<Longrightarrow> m (p + i) = m' (p + i)) \<Longrightarrow> cstr m p s \<longleftrightarrow> cstr m' p s"
  by (auto simp: cstr_iff)

lemma cstr_upd_outside: "x < p \<or> p + length s < x \<Longrightarrow> cstr (m(x := v)) p s \<longleftrightarrow> cstr m p s"
  by (rule cstr_cong) auto

lemma cstr_unique: "cstr m p s \<Longrightarrow> cstr m p t \<Longrightarrow> s = t"
proof (induction s arbitrary: p t)
  case Nil
  then show ?case
    by (cases t) auto
next
  case (Cons c s)
  then show ?case
    by (cases t) auto
qed

subsection \<open>Length\<close>

lemma length_loop_cstr: "cstr m (t + n) s \<Longrightarrow> length_loop m t n = Some (n + length s)"
  by (induction s arbitrary: n) (subst length_loop.simps, simp)+

lemma mvh_str_length_cstr: "t \<noteq> 0 \<Longrightarrow> cstr m t s \<Longrightarrow> mvh_str_length m t = Some (length s)"
  using length_loop_cstr [of m t 0 s] by (simp add: mvh_str_length_def)

declare nlength_loop.simps [simp del]

lemma nlength_loop_cstr:
  "cstr m (t + n) s \<Longrightarrow> n \<le> limit \<Longrightarrow> nlength_loop m t limit n = min limit (n + length s)"
proof (induction s arbitrary: n)
  case (Cons c s)
  then show ?case
    by (subst nlength_loop.simps) (auto simp: min_def)
qed (subst nlength_loop.simps, simp)

lemma mvh_str_nlength_cstr: "t \<noteq> 0 \<Longrightarrow> cstr m t s \<Longrightarrow> mvh_str_nlength m t limit = min limit (length s)"
  using nlength_loop_cstr [of m t 0 s limit] by (simp add: mvh_str_nlength_def)

subsection \<open>Comparison\<close>

fun str_order :: "bytes \<Rightarrow> bytes \<Rightarrow> int" where
  "str_order [] [] = 0"
| "str_order [] (b # t) = - 1"
| "str_order (a # s) [] = 1"
| "str_order (a # s) (b # t) = (if a = b then str_order s t else if a < b then - 1 else 1)"

lemma str_order_cases:
  "str_order s t = (if s = t then 0 else if (s, t) \<in> lexord {(a, b). a < b} then - 1 else 1)"
  by (induction s t rule: str_order.induct) (auto simp: lexord_cons_cons)

lemma str_order_swap: "str_order t s = - str_order s t"
  by (induction s t rule: str_order.induct) auto

lemma compare_scan_cstr:
  "cstr m (l + i) s \<Longrightarrow> cstr m (r + i) t \<Longrightarrow>
   \<exists>k. compare_scan m l r i = Some k \<and>
     (if m (l + k) = m (r + k) then 0 else if m (l + k) < m (r + k) then - 1 else 1) = str_order s t"
proof (induction s t arbitrary: i rule: str_order.induct)
  case (4 a s b t i)
  then show ?case
    by (cases "a = b") (auto simp: compare_scan.simps [of m l r i])
next
  case (3 a s i)
  then show ?case
    by (intro exI [of _ i]) (auto simp: compare_scan.simps [of m l r i])
qed (rule exI, rule conjI, subst compare_scan.simps, auto simp: word_gt_0)+

lemma mvh_str_compare_cstr:
  assumes "l \<noteq> 0" and "r \<noteq> 0" and "cstr m l s" and "cstr m r t"
  shows "mvh_str_compare m l r = Some (str_order s t)"
proof (cases "l = r")
  case True
  then have "s = t"
    using assms cstr_unique by blast
  then show ?thesis
    using True by (simp add: mvh_str_compare_def str_order_cases)
next
  case False
  then show ?thesis
    using compare_scan_cstr [of m l 0 s r t] assms by (auto simp: mvh_str_compare_def)
qed

lemma ncompare_loop_cstr:
  "cstr m (l + i) s \<Longrightarrow> cstr m (r + i) t \<Longrightarrow> ncompare_loop m l r i n = str_order (take n s) (take n t)"
proof (induction s t arbitrary: i n rule: str_order.induct)
  case (1 i n)
  then show ?case
    by (cases n) auto
next
  case (2 b t i n)
  then show ?case
    by (cases n) (auto simp: word_gt_0)
next
  case (3 a s i n)
  then show ?case
    by (cases n) (auto simp: word_gt_0)
next
  case (4 a s b t i n)
  then show ?case
    by (cases n) auto
qed

lemma mvh_str_ncompare_cstr:
  assumes "l \<noteq> 0" and "r \<noteq> 0" and "cstr m l s" and "cstr m r t"
  shows "mvh_str_ncompare m l r n = str_order (take n s) (take n t)"
  using assms ncompare_loop_cstr [of m l 0 s r t n] cstr_unique [of m l s t]
  by (auto simp: mvh_str_ncompare_def str_order_cases [of "take n t" "take n t"])

lemma mvh_str_equal_cstr:
  assumes "l \<noteq> 0" and "r \<noteq> 0" and "cstr m l s" and "cstr m r t"
  shows "mvh_str_equal m l r = Some (s = t)"
  using mvh_str_compare_cstr [OF assms] by (simp add: mvh_str_equal_def str_order_cases)

lemma mvh_str_starts_with_cstr:
  assumes "l \<noteq> 0" and "r \<noteq> 0" and "cstr m l s" and "cstr m r t"
  shows "mvh_str_starts_with m l r = Some (take (length t) s = t)"
  using assms mvh_str_ncompare_cstr [OF assms] mvh_str_length_cstr [of r m t]
  by (simp add: mvh_str_starts_with_def str_order_cases)

text \<open>
  \<^verbatim>\<open>mvh_str_compare\<close> returns on any two strings and orders them lexicographically by
  unsigned character: \<open>0\<close> exactly for equal strings, \<open>-1\<close> exactly when the left one comes
  first, and swapping the arguments negates the result.
\<close>

theorem mvh_str_compare_lexicographic:
  assumes "l \<noteq> 0" and "r \<noteq> 0" and "cstr m l s" and "cstr m r t"
  shows "mvh_str_compare m l r =
      Some (if s = t then 0 else if (s, t) \<in> lexord {(a, b). a < b} then - 1 else 1) \<and>
    mvh_str_compare m r l = map_option uminus (mvh_str_compare m l r)"
  using mvh_str_compare_cstr [OF assms] mvh_str_compare_cstr [OF assms(2,1,4,3)]
  by (simp add: str_order_cases [of s t] str_order_swap [of t s])

subsection \<open>Copying and concatenation\<close>

lemma cstr_written:
  assumes "\<And>i. i < length s \<Longrightarrow> m (p + i) = s ! i \<and> s ! i \<noteq> 0" and "m (p + length s) = 0"
  shows "cstr m p s"
  using assms by (simp add: cstr_iff)

lemma cstr_nonzero: "cstr m p s \<Longrightarrow> i < length s \<Longrightarrow> m (p + i) = s ! i \<and> s ! i \<noteq> 0"
  by (simp add: cstr_iff)

text \<open>
  The common tail of the copying functions: after \<open>k\<close> characters of a string and a
  terminator are written behind a prefix, the prefix extended by those characters stands there.
\<close>

lemma append_chars:
  assumes a: "\<And>i. i < length a \<Longrightarrow> m (d + i) = a ! i \<and> a ! i \<noteq> 0" and b: "cstr m src b" and k: "k \<le> length b"
    and apart: "d + length a + k < src \<or> src + length b < d"
  shows "cstr ((mem_copy_fwd (d + length a) src k m)(d + length a + k := 0)) d (a @ take k b)"
proof (rule cstr_written)
  let ?m = "(mem_copy_fwd (d + length a) src k m)(d + length a + k := 0)"
  have copy: "mem_copy_fwd (d + length a) src k m x =
      (if d + length a \<le> x \<and> x < d + length a + k then m (src + (x - (d + length a))) else m x)" for x
    using apart k by (subst copy_loop_eq) auto
  show "?m (d + length (a @ take k b)) = 0"
    using k by (simp add: add.assoc)
  fix i assume "i < length (a @ take k b)"
  then show "?m (d + i) = (a @ take k b) ! i \<and> (a @ take k b) ! i \<noteq> 0"
    using a [of i] cstr_nonzero [OF b, of "i - length a"] k
    by (cases "i < length a") (auto simp: copy nth_append)
qed

lemma mem_copy_fwd_frame: "x < d \<or> d + n \<le> x \<Longrightarrow> copy_loop i n d src m x = m x" if "i = 0"
proof -
  have "x < d + i \<or> d + i + n \<le> x \<Longrightarrow> copy_loop i n d src m x = m x" for i
    by (induction n arbitrary: i m) auto
  from this [of 0] show "x < d \<or> d + n \<le> x \<Longrightarrow> copy_loop i n d src m x = m x"
    using that by simp
qed

lemma mvh_str_ncopy_cstr:
  assumes ptr: "d \<noteq> 0" "0 < capacity" "src \<noteq> 0" and s: "cstr m src s"
    and apart: "d + capacity \<le> src \<or> src + length s < d"
  shows "fst (mvh_str_ncopy d capacity src limit m) = min limit (length s)"
    and "cstr (snd (mvh_str_ncopy d capacity src limit m)) d (take (min limit (capacity - 1)) s)"
    and "\<And>x. x < d \<or> d + capacity \<le> x \<Longrightarrow> snd (mvh_str_ncopy d capacity src limit m) x = m x"
proof -
  let ?k = "min (min limit (length s)) (capacity - 1)"
  have eq: "mvh_str_ncopy d capacity src limit m =
      (min limit (length s), (mem_copy_fwd d src ?k m)(d + ?k := 0))"
    using ptr s by (simp add: mvh_str_ncopy_def mvh_str_nlength_cstr Let_def)
  show "fst (mvh_str_ncopy d capacity src limit m) = min limit (length s)"
    by (simp add: eq)
  have "cstr (snd (mvh_str_ncopy d capacity src limit m)) d (take ?k s)"
    using append_chars [of "[]" m d src s ?k] s apart ptr by (auto simp: eq)
  moreover have "take ?k s = take (min limit (capacity - 1)) s"
    by (auto simp: min_def)
  ultimately show "cstr (snd (mvh_str_ncopy d capacity src limit m)) d (take (min limit (capacity - 1)) s)"
    by simp
  show "snd (mvh_str_ncopy d capacity src limit m) x = m x" if "x < d \<or> d + capacity \<le> x" for x
    using that ptr by (auto simp: eq mem_copy_fwd_frame)
qed

lemma mvh_str_concat_cstr:
  assumes ptr: "d \<noteq> 0" "src \<noteq> 0" and a: "cstr m d a" "length a < capacity" and b: "cstr m src b"
    and apart: "d + capacity \<le> src \<or> src + length b < d" and small: "length a + length b < 2 ^ 64"
  obtains m' where "mvh_str_concat d capacity src m = Some (length a + length b, m')"
    and "cstr m' d (take (capacity - 1) (a @ b))"
    and "\<And>x. x < d \<or> d + capacity \<le> x \<Longrightarrow> m' x = m x"
proof
  let ?k = "min (length b) (capacity - length a - 1)"
  let ?m = "(mem_copy_fwd (d + length a) src ?k m)(d + length a + ?k := 0)"
  show "mvh_str_concat d capacity src m = Some (length a + length b, ?m)"
    using ptr a b small
    by (simp add: mvh_str_concat_def mvh_str_nlength_cstr mvh_str_length_cstr min_def add64_small Let_def)
  have "cstr ?m d (a @ take ?k b)"
    using a b apart cstr_nonzero [OF a(1)] by (intro append_chars) auto
  moreover have "a @ take ?k b = take (capacity - 1) (a @ b)"
    using a(2) by (auto simp: min_def)
  ultimately show "cstr ?m d (take (capacity - 1) (a @ b))"
    by simp
  show "?m x = m x" if "x < d \<or> d + capacity \<le> x" for x
    using that a(2) by (auto simp: mem_copy_fwd_frame)
qed

text \<open>A string stays in place when only bytes it does not occupy are written.\<close>

lemma cstr_frame:
  assumes "cstr m p s" and "\<And>x. x < d \<or> d + n \<le> x \<Longrightarrow> m' x = m x" and "d + n \<le> p \<or> p + length s < d"
  shows "cstr m' p s"
  using assms(1)
proof (subst cstr_cong [of s m' p m])
  show "m' (p + i) = m (p + i)" if "i \<le> length s" for i
    using assms(2,3) that by auto
qed

lemma mvh_str_concat_step:
  assumes ptr: "d \<noteq> 0" "src \<noteq> 0" and a: "cstr m1 d a" "length a < capacity" and b: "cstr m src b"
    and frame: "\<forall>x. x < d \<or> d + capacity \<le> x \<longrightarrow> m1 x = m x"
    and apart: "d + capacity \<le> src \<or> src + length b < d" and small: "length a + length b < 2 ^ 64"
  shows "\<exists>m2. mvh_str_concat d capacity src m1 = Some (length a + length b, m2) \<and>
    cstr m2 d (take (capacity - 1) (a @ b)) \<and> (\<forall>x. x < d \<or> d + capacity \<le> x \<longrightarrow> m2 x = m x)"
proof (rule mvh_str_concat_cstr [OF ptr a cstr_frame [OF b] apart small])
  show "m1 x = m x" if "x < d \<or> d + capacity \<le> x" for x
    using that frame by blast
  show "d + capacity \<le> src \<or> src + length b < d"
    by (rule apart)
  fix m2
  assume "mvh_str_concat d capacity src m1 = Some (length a + length b, m2)" "cstr m2 d (take (capacity - 1) (a @ b))"
    and "\<And>x. x < d \<or> d + capacity \<le> x \<Longrightarrow> m2 x = m1 x"
  then show ?thesis
    using frame by (intro exI [of _ m2] conjI allI impI) metis+
qed

text \<open>
  \<^verbatim>\<open>mvh_str_join\<close> puts the three strings one behind the other into the destination, cut
  off so that they fit the capacity together with their terminator; it writes no byte outside
  the destination buffer and returns the length an uncut result would have, so that a caller
  can tell whether anything was lost.
\<close>

theorem mvh_str_join_truncates:
  assumes ptr: "d \<noteq> 0" "0 < capacity" "p \<noteq> 0" "q \<noteq> 0" "r \<noteq> 0"
    and strs: "cstr m p a" "cstr m q b" "cstr m r c" and small: "length a + length b + length c < 2 ^ 64"
    and apart: "d + capacity \<le> p \<or> p + length a < d" "d + capacity \<le> q \<or> q + length b < d"
      "d + capacity \<le> r \<or> r + length c < d"
  shows "\<exists>m'. mvh_str_join d capacity p q r m = Some (length a + length b + length c, m') \<and>
    cstr m' d (take (capacity - 1) (a @ b @ c)) \<and> (\<forall>x. x < d \<or> d + capacity \<le> x \<longrightarrow> m' x = m x)"
proof -
  have d0: "cstr (m(d := 0)) d []" and f0: "\<forall>x. x < d \<or> d + capacity \<le> x \<longrightarrow> (m(d := 0)) x = m x"
    using ptr by auto
  have "length ([] :: bytes) < capacity" "length ([] :: bytes) + length a < 2 ^ 64"
    using ptr small by auto
  from mvh_str_concat_step [OF ptr(1,3) d0 this(1) strs(1) f0 apart(1) this(2)]
  obtain m1 where m1: "mvh_str_concat d capacity p (m(d := 0)) = Some (length ([] :: bytes) + length a, m1)"
    "cstr m1 d (take (capacity - 1) ([] @ a))" "\<forall>x. x < d \<or> d + capacity \<le> x \<longrightarrow> m1 x = m x"
    by (elim exE conjE) (rule that)
  let ?a = "take (capacity - 1) ([] @ a)"
  have "length ?a < capacity" "length ?a + length b < 2 ^ 64"
    using ptr small by auto
  from mvh_str_concat_step [OF ptr(1,4) m1(2) this(1) strs(2) m1(3) apart(2) this(2)]
  obtain m2 where m2: "mvh_str_concat d capacity q m1 = Some (length ?a + length b, m2)"
    "cstr m2 d (take (capacity - 1) (?a @ b))" "\<forall>x. x < d \<or> d + capacity \<le> x \<longrightarrow> m2 x = m x"
    by (elim exE conjE) (rule that)
  let ?ab = "take (capacity - 1) (?a @ b)"
  have "length ?ab < capacity" "length ?ab + length c < 2 ^ 64"
    using ptr small by auto
  from mvh_str_concat_step [OF ptr(1,5) m2(2) this(1) strs(3) m2(3) apart(3) this(2)]
  obtain m3 where m3: "mvh_str_concat d capacity r m2 = Some (length ?ab + length c, m3)"
    "cstr m3 d (take (capacity - 1) (?ab @ c))" "\<forall>x. x < d \<or> d + capacity \<le> x \<longrightarrow> m3 x = m x"
    by (elim exE conjE) (rule that)
  have "mvh_str_join d capacity p q r m = Some (length a + length b + length c, m3)"
    using ptr strs small m1 m2 m3 by (simp add: mvh_str_join_def mvh_str_length_cstr add64_small)
  moreover have "take (capacity - 1) (?ab @ c) = take (capacity - 1) (a @ b @ c)"
    by (simp add: min_def)
  ultimately show ?thesis
    using m3(2,3) by auto
qed

subsection \<open>Path separators\<close>

abbreviation is_slash :: "u8 \<Rightarrow> bool" where
  "is_slash c \<equiv> c = 47 \<or> c = 92"

fun squeeze :: "bool \<Rightarrow> bytes \<Rightarrow> bytes" where
  "squeeze prev [] = []"
| "squeeze prev (c # s) =
     (if is_slash c then if prev then squeeze True s else 47 # squeeze True s else c # squeeze False s)"

lemma squeeze_canonical:
  "92 \<notin> set (squeeze prev s) \<and> (\<forall>i. Suc i < length (squeeze prev s) \<longrightarrow> squeeze prev s ! i = 47 \<longrightarrow> squeeze prev s ! Suc i \<noteq> 47) \<and>
   (prev \<longrightarrow> squeeze prev s = [] \<or> hd (squeeze prev s) \<noteq> 47)"
proof (induction prev s rule: squeeze.induct)
  case (2 prev c s)
  have *: "(\<forall>i. Suc i < length (x # xs) \<longrightarrow> (x # xs) ! i = 47 \<longrightarrow> (x # xs) ! Suc i \<noteq> 47) \<longleftrightarrow>
    (xs = [] \<or> x \<noteq> 47 \<or> hd xs \<noteq> 47) \<and> (\<forall>i. Suc i < length xs \<longrightarrow> xs ! i = 47 \<longrightarrow> xs ! Suc i \<noteq> 47)"
    for x :: u8 and xs
    by (cases xs) (auto simp: nth_Cons split: nat.splits)
  show ?case
    using 2 by (auto simp only: squeeze.simps * split: if_splits) (simp_all add: nth_Cons)
qed simp

lemma squeeze_canonical_id:
  "92 \<notin> set s \<Longrightarrow> \<forall>i. Suc i < length s \<longrightarrow> s ! i = 47 \<longrightarrow> s ! Suc i \<noteq> 47 \<Longrightarrow> (prev \<Longrightarrow> s = [] \<or> hd s \<noteq> 47) \<Longrightarrow>
   squeeze prev s = s"
proof (induction s arbitrary: prev)
  case (Cons c s)
  have "squeeze (c = 47) s = s"
  proof (rule Cons.IH)
    show "\<forall>i. Suc i < length s \<longrightarrow> s ! i = 47 \<longrightarrow> s ! Suc i \<noteq> 47"
      using Cons.prems(2) by (metis Suc_mono length_Cons nth_Cons_Suc)
    show "s = [] \<or> hd s \<noteq> 47" if "c = 47"
      using Cons.prems(2) [rule_format, of 0] that by (cases s) auto
  qed (use Cons.prems(1) in simp)
  then show ?case
    using Cons.prems(1,3) by (cases "c = 47") auto
qed simp

lemma length_squeeze: "length (squeeze prev s) \<le> length s"
  by (induction prev s rule: squeeze.induct) auto

lemma slash_loop_cstr:
  assumes "cstr m (t + rd) s" and "wr \<le> rd"
  shows "\<exists>m'. slash_loop t rd wr prev m = Some (wr + length (squeeze prev s), m') \<and>
    cstr m' (t + wr) (squeeze prev s) \<and> (\<forall>x. x < t + wr \<or> t + rd + length s < x \<longrightarrow> m' x = m x)"
  using assms
proof (induction s arbitrary: rd wr prev m)
  case Nil
  then show ?case
    by (subst slash_loop.simps) auto
next
  case (Cons c s)
  have c: "m (t + rd) = c" "c \<noteq> 0" "cstr m (t + (rd + 1)) s"
    using Cons.prems by auto
  show ?case
  proof (cases "is_slash c \<and> prev")
    case True
    then show ?thesis
      using Cons.IH [of m "rd + 1" wr True] c Cons.prems(2) by (subst slash_loop.simps) (auto simp: Let_def)
  next
    case False
    define m1 where "m1 = m(t + wr := if is_slash c then 47 else c)"
    have "cstr m1 (t + (rd + 1)) s"
      using c(3) Cons.prems(2) unfolding m1_def by (subst cstr_upd_outside) auto
    from Cons.IH [OF this, of "wr + 1" "is_slash c"] Cons.prems(2)
    obtain m' where m': "slash_loop t (rd + 1) (wr + 1) (is_slash c) m1 = Some (wr + 1 + length (squeeze (is_slash c) s), m')"
      "cstr m' (t + (wr + 1)) (squeeze (is_slash c) s)"
      "\<forall>x. x < t + (wr + 1) \<or> t + (rd + 1) + length s < x \<longrightarrow> m' x = m1 x"
      by auto
    have "slash_loop t rd wr prev m = Some (wr + length (squeeze prev (c # s)), m')"
      using m'(1) c False by (subst slash_loop.simps) (auto simp: Let_def m1_def)
    moreover have "cstr m' (t + wr) (squeeze prev (c # s))"
      using m'(2) m'(3) [rule_format, of "t + wr"] c(2) False by (auto simp: m1_def)
    moreover have "m' x = m x" if "x < t + wr \<or> t + rd + length (c # s) < x" for x
      using m'(3) [rule_format, of x] that Cons.prems(2) by (auto simp: m1_def)
    ultimately show ?thesis
      by blast
  qed
qed

text \<open>
  What normalising a path means, by positions: a separator behind a separator is left out,
  every other character stays, in order, and the separators that stay become slashes.
\<close>

definition normal_path :: "bytes \<Rightarrow> bytes" where
  "normal_path s = map (\<lambda>i. if is_slash (s ! i) then 47 else s ! i)
     (filter (\<lambda>i. \<not> (0 < i \<and> is_slash (s ! i) \<and> is_slash (s ! (i - 1)))) [0..<length s])"

lemma squeeze_positions:
  "squeeze prev s = map (\<lambda>i. if is_slash (s ! i) then 47 else s ! i)
     (filter (\<lambda>i. \<not> (is_slash (s ! i) \<and> (if i = 0 then prev else is_slash (s ! (i - 1))))) [0..<length s])"
proof -
  define keep where "keep = (\<lambda>prev s i. \<not> (is_slash (s ! i) \<and> (if i = 0 then prev else is_slash (s ! (i - 1)))))"
  define out where "out = (\<lambda>s i. if is_slash (s ! i) then 47 else s ! i)"
  have keep: "keep prev (c # s) 0 \<longleftrightarrow> \<not> (is_slash c \<and> prev)" "keep prev (c # s) \<circ> Suc = keep (is_slash c) s" for prev c s
    by (auto simp: keep_def fun_eq_iff nth_Cons split: nat.splits)
  have out: "out (c # s) 0 = (if is_slash c then 47 else c)" "out (c # s) \<circ> Suc = out s" for c s
    by (auto simp: out_def fun_eq_iff)
  have "squeeze prev s = map (out s) (filter (keep prev s) [0..<length s])"
  proof (induction s arbitrary: prev)
    case (Cons c s)
    have shift: "[0..<length (c # s)] = 0 # map Suc [0..<length s]"
      by (simp add: map_Suc_upt upt_conv_Cons del: upt_Suc)
    have "squeeze prev (c # s) = (if is_slash c \<and> prev then [] else [if is_slash c then 47 else c]) @ squeeze (is_slash c) s"
      by auto
    then show ?case
      unfolding shift Cons.IH [of "is_slash c"] filter.simps filter_map keep list.simps out
      by (simp add: out del: squeeze.simps)
  qed simp
  then show ?thesis
    by (simp only: keep_def out_def)
qed

lemma squeeze_normal_path: "squeeze False s = normal_path s"
  unfolding squeeze_positions normal_path_def by (intro arg_cong [where f = "map _"] filter_cong) auto

text \<open>
  C36. \<^verbatim>\<open>mvh_str_normalize_slashes\<close> returns on every string, writes only inside it, and leaves
  exactly the string without the separators that follow another one and with a slash for each
  separator that stays, whose length it returns. The result has no backslash and no two
  separators in a row, and running the function again changes nothing.
\<close>

theorem mvh_str_normalize_slashes_canonical:
  assumes "t \<noteq> 0" and "cstr m t s"
  defines "u \<equiv> normal_path s"
  shows "\<exists>m'. mvh_str_normalize_slashes t m = Some (length u, m') \<and> cstr m' t u \<and>
    92 \<notin> set u \<and> (\<forall>i. Suc i < length u \<longrightarrow> u ! i = 47 \<longrightarrow> u ! Suc i \<noteq> 47) \<and>
    (\<forall>x. x < t \<or> t + length s < x \<longrightarrow> m' x = m x) \<and>
    (\<exists>m''. mvh_str_normalize_slashes t m' = Some (length u, m'') \<and> cstr m'' t u)"
proof -
  have u: "u = squeeze False s"
    by (simp only: u_def squeeze_normal_path)
  obtain m' where m': "mvh_str_normalize_slashes t m = Some (length u, m')" "cstr m' t u"
    "\<forall>x. x < t \<or> t + length s < x \<longrightarrow> m' x = m x"
    using slash_loop_cstr [of m t 0 s 0 False] assms(1,2) by (auto simp: mvh_str_normalize_slashes_def u)
  have "squeeze False u = u"
    unfolding u using squeeze_canonical [of False s] by (intro squeeze_canonical_id) auto
  then show ?thesis
    using m' squeeze_canonical [of False s] slash_loop_cstr [of m' t 0 u 0 False] assms(1)
    by (intro exI [of _ m']) (auto simp: mvh_str_normalize_slashes_def u)
qed

text \<open>\<^verbatim>\<open>\/a/b\<close> becomes \<^verbatim>\<open>/a/b\<close>.\<close>

definition slash_example :: mem where
  "slash_example = (\<lambda>_. 0)(8 := 92, 9 := 47, 10 := 97, 11 := 47, 12 := 98)"

theorem mvh_str_normalize_slashes_canonical_witness:
  "\<exists>m'. mvh_str_normalize_slashes 8 slash_example = Some (4, m') \<and> cstr m' 8 [47, 97, 47, 98]"
proof -
  have str: "cstr slash_example 8 [92, 47, 97, 47, 98]"
    by (simp add: slash_example_def)
  have path: "normal_path [92, 47, 97, 47, 98] = [47, 97, 47, 98]" "length [47, 97, 47, 98 :: u8] = 4"
    by (simp_all add: normal_path_def upt_rec)
  from mvh_str_normalize_slashes_canonical [OF zero_neq_numeral [symmetric] str, unfolded path] show ?thesis
    by blast
qed

end
