(* ===== verification/Util_Text.thy ===== *)
theory Util_Text
  imports Util_String_Props
begin

section \<open>Numbers as text\<close>

text \<open>
  The parsers and formatters of \<open>core/util.c\<close>. The three parsers run the same loop, which
  differs in the digit function, the base and the limit; it reads up to the terminator and
  has no bound of its own. The formatters collect the digits in a local array of 20 or 16
  characters; a write beyond it is \<open>None\<close>, and the lemmas show that none happens.
\<close>

text \<open>The inner \<open>None\<close> is the early \<open>return -1\<close>.\<close>

partial_function (option) parse_loop ::
  "(u8 \<Rightarrow> int) \<Rightarrow> u64 \<Rightarrow> u64 \<Rightarrow> mem \<Rightarrow> nat \<Rightarrow> u64 \<Rightarrow> u64 option option" where
  "parse_loop digit_value base limit m t v =
     (if m t \<noteq> 0 then
        let digit = digit_value (m t) in
        if digit < 0 \<or> (limit - word_of_int digit) div base < v then Some None
        else parse_loop digit_value base limit m (t + 1) (v * base + word_of_int digit)
      else Some (Some v))"

definition mvh_parse_u64 :: "mem \<Rightarrow> nat \<Rightarrow> u64 cell \<Rightarrow> (int \<times> u64 cell) option" where
  "mvh_parse_u64 m t result =
     (if t = 0 \<or> result = None \<or> m t = 0 then Some (- 1, result)
      else do { r \<leftarrow> parse_loop mvh_ascii_digit_value 10 MVH_U64_MAX m t 0;
        Some (case r of None \<Rightarrow> (- 1, result) | Some v \<Rightarrow> (0, Some v)) })"

definition mvh_parse_hex_u64 :: "mem \<Rightarrow> nat \<Rightarrow> u64 cell \<Rightarrow> (int \<times> u64 cell) option" where
  "mvh_parse_hex_u64 m t result =
     (if t = 0 \<or> result = None then Some (- 1, result)
      else let t = (if m t = 48 \<and> (m (t + 1) = 120 \<or> m (t + 1) = 88) then t + 2 else t) in
        if m t = 0 then Some (- 1, result)
        else do { r \<leftarrow> parse_loop mvh_ascii_hex_value 16 MVH_U64_MAX m t 0;
          Some (case r of None \<Rightarrow> (- 1, result) | Some v \<Rightarrow> (0, Some v)) })"

definition mvh_parse_i64 :: "mem \<Rightarrow> nat \<Rightarrow> int cell \<Rightarrow> (int \<times> int cell) option" where
  "mvh_parse_i64 m t result =
     (if t = 0 \<or> result = None \<or> m t = 0 then Some (- 1, result)
      else let sign = (m t = 45 \<or> m t = 43); negative = (m t = 45); t = (if sign then t + 1 else t) in
        if m t = 0 then Some (- 1, result)
        else let limit = (if negative then 2 ^ 63 else 2 ^ 63 - 1) in
          do { r \<leftarrow> parse_loop mvh_ascii_digit_value 10 limit m t 0;
            Some (case r of None \<Rightarrow> (- 1, result)
              | Some magnitude \<Rightarrow>
                if negative \<and> magnitude = 2 ^ 63 then (0, Some INT64_MIN)
                else (0, Some (if negative then - sint magnitude else sint magnitude))) })"

function dec_digits :: "u64 \<Rightarrow> bytes \<Rightarrow> bytes option" where
  "dec_digits v reverse =
     (if 20 \<le> length reverse then None
      else let reverse = reverse @ [48 + ucast (v mod 10)]; v = v div 10 in
        if v \<noteq> 0 then dec_digits v reverse else Some reverse)"
  by auto
termination
  by (relation "measure (\<lambda>(v, reverse). 20 - length reverse)") auto

text \<open>The table \<open>"0123456789abcdef"\<close>.\<close>

definition hex_digits :: bytes where
  "hex_digits = [48, 49, 50, 51, 52, 53, 54, 55, 56, 57, 97, 98, 99, 100, 101, 102]"

function hex_loop :: "u64 \<Rightarrow> bytes \<Rightarrow> bytes option" where
  "hex_loop v reverse =
     (if 16 \<le> length reverse then None
      else let reverse = reverse @ [hex_digits ! unat (v AND 15)]; v = drop_bit 4 v in
        if v \<noteq> 0 then hex_loop v reverse else Some reverse)"
  by auto
termination
  by (relation "measure (\<lambda>(v, reverse). 16 - length reverse)") auto

declare dec_digits.simps [simp del] hex_loop.simps [simp del]

fun emit_loop :: "nat \<Rightarrow> nat \<Rightarrow> nat \<Rightarrow> bytes \<Rightarrow> mem \<Rightarrow> mem" where
  "emit_loop i 0 d reverse m = m"
| "emit_loop i (Suc n) d reverse m = emit_loop (i + 1) n d reverse (m(d + i := reverse ! (length reverse - i - 1)))"

definition mvh_format_u64 :: "nat \<Rightarrow> nat \<Rightarrow> u64 \<Rightarrow> mem \<Rightarrow> (nat \<times> mem) option" where
  "mvh_format_u64 destination capacity v m = do {
     reverse \<leftarrow> dec_digits v [];
     let len = length reverse;
     Some (len, if destination \<noteq> 0 \<and> capacity \<noteq> 0
       then let copy = (if len < capacity - 1 then len else capacity - 1) in
         (emit_loop 0 copy destination reverse m)(destination + copy := 0)
       else m) }"

definition mvh_format_hex_u64 :: "nat \<Rightarrow> nat \<Rightarrow> u64 \<Rightarrow> mem \<Rightarrow> (nat \<times> mem) option" where
  "mvh_format_hex_u64 destination capacity v m = do {
     reverse \<leftarrow> hex_loop v [];
     let len = length reverse;
     Some (len, if destination \<noteq> 0 \<and> capacity \<noteq> 0
       then let copy = (if len < capacity - 1 then len else capacity - 1) in
         (emit_loop 0 copy destination reverse m)(destination + copy := 0)
       else m) }"

subsection \<open>Parsing\<close>

definition text_value :: "(u8 \<Rightarrow> int) \<Rightarrow> nat \<Rightarrow> nat \<Rightarrow> bytes \<Rightarrow> nat" where
  "text_value dv base v s = foldl (\<lambda>v c. v * base + nat (dv c)) v s"

lemma text_value_simps [simp]:
  "text_value dv base v [] = v"
  "text_value dv base v (c # s) = text_value dv base (v * base + nat (dv c)) s"
  "text_value dv base v (s @ [c]) = text_value dv base v s * base + nat (dv c)"
  by (simp_all add: text_value_def)

lemma text_value_ge: "0 < base \<Longrightarrow> v \<le> text_value dv base v s"
proof (induction s arbitrary: v)
  case (Cons c s)
  have "v \<le> v * base + nat (dv c)"
    using Cons.prems by (cases base) auto
  then show ?case
    using Cons by (auto intro: order_trans)
qed simp

lemma parse_loop_cstr:
  assumes "cstr m t s" and base: "0 < unat base" and dv: "\<And>c. dv c < int (unat base)" and limit: "unat base \<le> unat limit"
    and v: "unat v \<le> unat limit"
  shows "parse_loop dv base limit m t v =
    Some (if (\<forall>c \<in> set s. 0 \<le> dv c) \<and> text_value dv (unat base) (unat v) s \<le> unat limit
      then Some (word_of_nat (text_value dv (unat base) (unat v) s)) else None)"
  using assms(1) v
proof (induction s arbitrary: t v)
  case Nil
  then show ?case
    by (subst parse_loop.simps) simp
next
  case (Cons c s)
  show ?case
  proof (cases "dv c < 0")
    case True
    then show ?thesis
      using Cons.prems by (subst parse_loop.simps) (auto simp: not_le)
  next
    case False
    define d where "d = nat (dv c)"
    have dv_c: "dv c = int d" and d: "d < unat base"
      using False dv [of c] by (simp_all add: d_def nat_less_iff)
    have d_lim: "d \<le> unat limit" and d_max: "d < 2 ^ 64"
      using d limit unsigned_less [of limit, where 'a = nat] by auto
    have "unat (limit - word_of_nat d) = unat limit - d"
      using d_lim d_max by (simp add: unat_sub_if' unat_of_nat)
    then have "(limit - word_of_int (dv c)) div base < v \<longleftrightarrow> \<not> unat v \<le> (unat limit - d) div unat base"
      by (simp add: word_less_nat_alt unat_div dv_c not_le)
    then have guard: "(limit - word_of_int (dv c)) div base < v \<longleftrightarrow> \<not> unat v * unat base + d \<le> unat limit"
      using d_lim unfolding less_eq_div_iff_mult_less_eq [OF base] by auto
    show ?thesis
    proof (cases "unat v * unat base + d \<le> unat limit")
      case True
      have step: "unat (v * base + word_of_int (dv c)) = unat v * unat base + d"
        using True unsigned_less [of limit, where 'a = nat] d_max
        by (simp add: dv_c unat_word_ariths unat_of_nat mod_less)
      show ?thesis
        using Cons.prems True guard False Cons.IH [of "t + 1" "v * base + word_of_int (dv c)"]
        by (subst parse_loop.simps) (simp add: step d_def [symmetric])
    next
      case over: False
      then have "\<not> text_value dv (unat base) (unat v * unat base + d) s \<le> unat limit"
        using text_value_ge [OF base, of "unat v * unat base + d" dv s] by linarith
      then show ?thesis
        using Cons.prems over guard False by (subst parse_loop.simps) (simp add: d_def)
    qed
  qed
qed

lemma digit_value_bound: "mvh_ascii_digit_value c < 10" "- 1 \<le> mvh_ascii_digit_value c"
  by (auto simp: mvh_ascii_digit_value_def mvh_ascii_is_digit_def)

lemma hex_value_bound: "mvh_ascii_hex_value c < 16"
  by (auto simp: mvh_ascii_hex_value_def mvh_ascii_is_digit_def Let_def)

lemmas parse_dec_cstr = parse_loop_cstr [where dv = mvh_ascii_digit_value and base = 10, simplified, OF _ digit_value_bound(1)]
lemmas parse_hex_cstr = parse_loop_cstr [where dv = mvh_ascii_hex_value and base = 16, simplified, OF _ hex_value_bound]

subsection \<open>Formatting\<close>

lemma all_below: "(\<forall>k \<in> set [0..<n]. P k) \<Longrightarrow> k < n \<Longrightarrow> P k"
  by simp

lemma digit_char: "k < 10 \<Longrightarrow> mvh_ascii_digit_value (48 + word_of_nat k) = int k \<and> 48 + word_of_nat k \<noteq> (0 :: u8)"
  by (rule all_below [of 10]) code_simp

lemma hex_char: "k < 16 \<Longrightarrow> mvh_ascii_hex_value (hex_digits ! k) = int k \<and> hex_digits ! k \<noteq> 0"
  by (rule all_below [of 16]) code_simp

text \<open>The digits a formatter has collected: least significant first, and none of them is the terminator.\<close>

definition digits_of :: "(u8 \<Rightarrow> int) \<Rightarrow> nat \<Rightarrow> bytes \<Rightarrow> nat \<Rightarrow> bool" where
  "digits_of dv base ds n \<longleftrightarrow>
     ds \<noteq> [] \<and> (\<forall>c \<in> set ds. 0 \<le> dv c \<and> c \<noteq> 0) \<and> text_value dv base 0 (rev ds) = n"

lemma digits_of_single: "0 \<le> dv c \<Longrightarrow> c \<noteq> 0 \<Longrightarrow> nat (dv c) = n \<Longrightarrow> digits_of dv base [c] n"
  by (simp add: digits_of_def)

lemma digits_of_Cons:
  "digits_of dv base ds (n div base) \<Longrightarrow> dv c = int (n mod base) \<Longrightarrow> c \<noteq> 0 \<Longrightarrow> digits_of dv base (c # ds) n"
  by (simp add: digits_of_def)

lemma dec_digits_fit:
  "length reverse < 20 \<Longrightarrow> unat v < 10 ^ (20 - length reverse) \<Longrightarrow>
   \<exists>ds. dec_digits v reverse = Some (reverse @ ds) \<and> length (reverse @ ds) \<le> 20 \<and>
     digits_of mvh_ascii_digit_value 10 ds (unat v)"
proof (induction v reverse rule: dec_digits.induct)
  case (1 v reverse)
  define c where "c = 48 + (ucast (v mod 10) :: u8)"
  have mod: "unat (v mod 10) = unat v mod 10" and div: "unat (v div 10) = unat v div 10"
    by (simp_all add: unat_mod unat_div)
  have "c = 48 + word_of_nat (unat v mod 10)"
    unfolding c_def mod [symmetric] of_nat_unat ..
  then have c: "mvh_ascii_digit_value c = int (unat v mod 10)" "c \<noteq> 0"
    using digit_char [of "unat v mod 10"] by simp_all
  show ?case
  proof (cases "v div 10 = 0")
    case True
    then have "unat v div 10 = 0"
      using div by simp
    then have "unat v mod 10 = unat v"
      by simp
    then show ?thesis
      using True c 1(2) by (subst dec_digits.simps) (simp add: c_def [symmetric] digits_of_single)
  next
    case False
    have big: "unat v div 10 \<noteq> 0"
      using False div by (metis unat_eq_zero)
    obtain e where e: "20 - length reverse = Suc e"
      using 1(2) by (metis Suc_diff_Suc)
    then have "e \<noteq> 0" "unat v div 10 < 10 ^ e"
      using 1(3) big by (auto intro: ccontr simp: less_mult_imp_div_less mult.commute)
    moreover have "20 - length (reverse @ [c]) = e"
      using e by simp
    ultimately have "length (reverse @ [c]) < 20" "unat (v div 10) < 10 ^ (20 - length (reverse @ [c]))"
      using e div by (simp_all only:)
    then obtain ds where "dec_digits (v div 10) (reverse @ [c]) = Some ((reverse @ [c]) @ ds)"
      "length ((reverse @ [c]) @ ds) \<le> 20" "digits_of mvh_ascii_digit_value 10 ds (unat v div 10)"
      using 1(1) [OF _ refl refl False] 1(2) div by (auto simp: c_def)
    then show ?thesis
      using False c 1(2) digits_of_Cons [of mvh_ascii_digit_value 10 ds "unat v" c]
      by (subst dec_digits.simps) (simp add: c_def [symmetric])
  qed
qed

lemma hex_loop_fit:
  "length reverse < 16 \<Longrightarrow> unat v < 16 ^ (16 - length reverse) \<Longrightarrow>
   \<exists>ds. hex_loop v reverse = Some (reverse @ ds) \<and> length (reverse @ ds) \<le> 16 \<and>
     digits_of mvh_ascii_hex_value 16 ds (unat v)"
proof (induction v reverse rule: hex_loop.induct)
  case (1 v reverse)
  define c where "c = hex_digits ! unat (v AND 15)"
  have "v AND 15 = take_bit 4 v"
    by (simp add: take_bit_eq_mask mask_eq_exp_minus_1)
  then have mod: "unat (v AND 15) = unat v mod 16"
    by (simp add: take_bit_eq_mod unat_mod)
  have div: "unat (drop_bit 4 v) = unat v div 16"
    by (rule trans [OF unat_drop_bit_eq]) (simp add: drop_bit_eq_div)
  have c: "mvh_ascii_hex_value c = int (unat v mod 16)" "c \<noteq> 0"
    using hex_char [of "unat v mod 16"] by (simp_all add: c_def mod)
  show ?case
  proof (cases "drop_bit 4 v = 0")
    case True
    then have "unat v div 16 = 0"
      using div by simp
    then have "unat v mod 16 = unat v"
      by simp
    then show ?thesis
      using True c 1(2) by (subst hex_loop.simps) (simp add: c_def [symmetric] digits_of_single)
  next
    case False
    have big: "unat v div 16 \<noteq> 0"
      using False div by (metis unat_eq_zero)
    obtain e where e: "16 - length reverse = Suc e"
      using 1(2) by (metis Suc_diff_Suc)
    then have "e \<noteq> 0" "unat v div 16 < 16 ^ e"
      using 1(3) big by (auto intro: ccontr simp: less_mult_imp_div_less mult.commute)
    moreover have "16 - length (reverse @ [c]) = e"
      using e by simp
    ultimately have "length (reverse @ [c]) < 16" "unat (drop_bit 4 v) < 16 ^ (16 - length (reverse @ [c]))"
      using e div by (simp_all only:)
    then obtain ds where "hex_loop (drop_bit 4 v) (reverse @ [c]) = Some ((reverse @ [c]) @ ds)"
      "length ((reverse @ [c]) @ ds) \<le> 16" "digits_of mvh_ascii_hex_value 16 ds (unat v div 16)"
      using 1(1) [OF _ refl refl False] 1(2) div by (auto simp: c_def)
    then show ?thesis
      using False c 1(2) digits_of_Cons [of mvh_ascii_hex_value 16 ds "unat v" c]
      by (subst hex_loop.simps) (simp add: c_def [symmetric])
  qed
qed

lemma emit_loop_eq:
  "i + n \<le> length ds \<Longrightarrow>
   emit_loop i n d ds m = (\<lambda>x. if d + i \<le> x \<and> x < d + i + n then rev ds ! (x - d) else m x)"
proof (induction n arbitrary: i m)
  case (Suc n)
  then show ?case
    by (subst emit_loop.simps) (auto simp: fun_eq_iff rev_nth)
qed (auto simp: fun_eq_iff)

lemma emit_cstr:
  assumes "digits_of dv base ds n"
  shows "cstr ((emit_loop 0 (length ds) d ds m)(d + length ds := 0)) d (rev ds)"
  using assms by (intro cstr_written) (auto simp: emit_loop_eq digits_of_def, metis nth_mem length_rev set_rev)

lemma mvh_format_u64_cstr:
  assumes "d \<noteq> 0" and "20 < capacity"
  shows "\<exists>ds m'. mvh_format_u64 d capacity v m = Some (length ds, m') \<and> length ds \<le> 20 \<and>
    digits_of mvh_ascii_digit_value 10 ds (unat v) \<and> cstr m' d (rev ds) \<and> (\<forall>x. x < d \<or> d + capacity \<le> x \<longrightarrow> m' x = m x)"
proof -
  have "unat v < 10 ^ (20 - length ([] :: bytes))"
    using unsigned_less [of v, where 'a = nat] by simp
  then obtain ds where ds: "dec_digits v [] = Some ds" "length ds \<le> 20" "digits_of mvh_ascii_digit_value 10 ds (unat v)"
    using dec_digits_fit [of "[]" v] by auto
  then have "(if length ds < capacity - 1 then length ds else capacity - 1) = length ds"
    using assms by auto
  with ds show ?thesis
    using assms emit_cstr [OF ds(3), of d m]
    by (intro exI [of _ ds] exI [of _ "(emit_loop 0 (length ds) d ds m)(d + length ds := 0)"])
      (simp add: mvh_format_u64_def emit_loop_eq Let_def)
qed

lemma mvh_format_hex_u64_cstr:
  assumes "d \<noteq> 0" and "16 < capacity"
  shows "\<exists>ds m'. mvh_format_hex_u64 d capacity v m = Some (length ds, m') \<and> length ds \<le> 16 \<and>
    digits_of mvh_ascii_hex_value 16 ds (unat v) \<and> cstr m' d (rev ds) \<and> (\<forall>x. x < d \<or> d + capacity \<le> x \<longrightarrow> m' x = m x)"
proof -
  have "unat v < 16 ^ (16 - length ([] :: bytes))"
    using unsigned_less [of v, where 'a = nat] by simp
  then obtain ds where ds: "hex_loop v [] = Some ds" "length ds \<le> 16" "digits_of mvh_ascii_hex_value 16 ds (unat v)"
    using hex_loop_fit [of "[]" v] by auto
  then have "(if length ds < capacity - 1 then length ds else capacity - 1) = length ds"
    using assms by auto
  with ds show ?thesis
    using assms emit_cstr [OF ds(3), of d m]
    by (intro exI [of _ ds] exI [of _ "(emit_loop 0 (length ds) d ds m)(d + length ds := 0)"])
      (simp add: mvh_format_hex_u64_def emit_loop_eq Let_def)
qed

lemma unat_u64_max: "unat MVH_U64_MAX = 18446744073709551615"
  by (simp add: unsigned_minus_1_eq_mask mask_eq_exp_minus_1)

lemma mvh_parse_u64_cstr:
  assumes "t \<noteq> 0" and "cstr m t s"
  shows "mvh_parse_u64 m t (Some x) =
    Some (if s \<noteq> [] \<and> (\<forall>c \<in> set s. mvh_ascii_is_digit c) \<and> text_value mvh_ascii_digit_value 10 0 s < 2 ^ 64
      then (0, Some (word_of_nat (text_value mvh_ascii_digit_value 10 0 s))) else (- 1, Some x))"
proof -
  have dv: "0 \<le> mvh_ascii_digit_value c \<longleftrightarrow> mvh_ascii_is_digit c" for c
    by (auto simp: mvh_ascii_digit_value_def mvh_ascii_is_digit_def)
  have "m t = 0 \<longleftrightarrow> s = []"
    using assms(2) by (cases s) auto
  then show ?thesis
    using assms parse_dec_cstr [OF assms(2), of MVH_U64_MAX 0]
    unfolding unat_u64_max by (auto simp: mvh_parse_u64_def dv)
qed

text \<open>The digits of a number never look like the prefix \<open>0x\<close>, since no digit is an \<open>x\<close>.\<close>

lemma mvh_parse_hex_digits:
  assumes "t \<noteq> 0" and ds: "digits_of mvh_ascii_hex_value 16 ds (unat (v :: u64))" and s: "cstr m t (rev ds)"
  shows "mvh_parse_hex_u64 m t (Some x) = Some (0, Some v)"
proof -
  have "m t \<noteq> 0"
    using ds s by (cases ds rule: rev_cases) (auto simp: digits_of_def)
  moreover have "m (t + 1) \<noteq> 120 \<and> m (t + 1) \<noteq> 88"
  proof (cases "1 < length ds")
    case True
    then have "m (t + 1) \<in> set ds"
      using cstr_nonzero [OF s, of 1] by (metis length_rev nth_mem set_rev)
    then have "0 \<le> mvh_ascii_hex_value (m (t + 1))"
      using ds by (simp add: digits_of_def)
    moreover have "mvh_ascii_hex_value 120 = - 1" "mvh_ascii_hex_value 88 = - 1"
      by code_simp+
    ultimately show ?thesis
      by auto
  next
    case False
    then obtain c where "ds = [c]"
      using ds by (cases ds) (auto simp: digits_of_def)
    then show ?thesis
      using s by simp
  qed
  ultimately show ?thesis
    using assms(1) parse_hex_cstr [OF s, of MVH_U64_MAX 0] ds unsigned_less [of v, where 'a = nat]
    unfolding unat_u64_max by (auto simp: mvh_parse_hex_u64_def digits_of_def Let_def)
qed

text \<open>
  C34. Formatting and parsing are inverse for every 64-bit value, in decimal and in
  hexadecimal: with room for the digits and the terminator the formatter stays inside the
  buffer, its local array of 20 or 16 characters is never overrun, and the parser reads the
  value back.
\<close>

theorem format_parse_roundtrip:
  assumes "d \<noteq> 0"
  shows "(20 < capacity \<longrightarrow> (\<exists>n m'. mvh_format_u64 d capacity v m = Some (n, m') \<and> n \<le> 20 \<and>
      mvh_parse_u64 m' d (Some x) = Some (0, Some v) \<and> (\<forall>a. a < d \<or> d + capacity \<le> a \<longrightarrow> m' a = m a))) \<and>
    (16 < capacity \<longrightarrow> (\<exists>n m'. mvh_format_hex_u64 d capacity v m = Some (n, m') \<and> n \<le> 16 \<and>
      mvh_parse_hex_u64 m' d (Some x) = Some (0, Some v) \<and> (\<forall>a. a < d \<or> d + capacity \<le> a \<longrightarrow> m' a = m a)))"
proof (intro conjI impI)
  assume "20 < capacity"
  from mvh_format_u64_cstr [OF assms this, of v m]
  obtain ds m' where ds: "mvh_format_u64 d capacity v m = Some (length ds, m')" "length ds \<le> 20"
    "digits_of mvh_ascii_digit_value 10 ds (unat v)" "cstr m' d (rev ds)" "\<forall>x. x < d \<or> d + capacity \<le> x \<longrightarrow> m' x = m x"
    by blast
  have "mvh_parse_u64 m' d (Some x) = Some (0, Some v)"
    using mvh_parse_u64_cstr [OF assms ds(4), of x] ds(3) unsigned_less [of v, where 'a = nat]
    by (auto simp: digits_of_def mvh_ascii_digit_value_def split: if_splits)
  then show "\<exists>n m'. mvh_format_u64 d capacity v m = Some (n, m') \<and> n \<le> 20 \<and>
      mvh_parse_u64 m' d (Some x) = Some (0, Some v) \<and> (\<forall>a. a < d \<or> d + capacity \<le> a \<longrightarrow> m' a = m a)"
    using ds by blast
next
  assume "16 < capacity"
  from mvh_format_hex_u64_cstr [OF assms this, of v m]
  obtain ds m' where ds: "mvh_format_hex_u64 d capacity v m = Some (length ds, m')" "length ds \<le> 16"
    "digits_of mvh_ascii_hex_value 16 ds (unat v)" "cstr m' d (rev ds)" "\<forall>x. x < d \<or> d + capacity \<le> x \<longrightarrow> m' x = m x"
    by blast
  have "mvh_parse_hex_u64 m' d (Some x) = Some (0, Some v)"
    by (rule mvh_parse_hex_digits [OF assms ds(3,4)])
  then show "\<exists>n m'. mvh_format_hex_u64 d capacity v m = Some (n, m') \<and> n \<le> 16 \<and>
      mvh_parse_hex_u64 m' d (Some x) = Some (0, Some v) \<and> (\<forall>a. a < d \<or> d + capacity \<le> a \<longrightarrow> m' a = m a)"
    using ds by blast
qed

theorem format_parse_roundtrip_witness:
  "(64 :: nat) \<noteq> 0 \<and> (\<exists>n m'. mvh_format_u64 64 32 (- 1) (\<lambda>_. 0) = Some (n, m') \<and>
     mvh_parse_u64 m' 64 (Some 0) = Some (0, Some (- 1)))"
  using format_parse_roundtrip [of 64 32 "- 1" "\<lambda>_. 0" 0] by auto

end
