(* ===== verification/Dma.thy ===== *)
theory Dma
  imports Pmm Memory
begin

section \<open>DMA buffers\<close>

text \<open>
  The DMA layer of \<open>device/dma.c\<close>: aligned buffers carved out of an over-sized run of
  physical pages, address checks for devices with fewer address bits, and the splitting of a
  block into segments that do not cross a page. Sizes and addresses are naturals with the
  64-bit wrap-around written out. It relies on the page allocator only through the interface
  \<open>page_allocator\<close>.
\<close>

abbreviation DMA_PAGE_SIZE :: nat where "DMA_PAGE_SIZE \<equiv> 4096"

datatype dma_direction_t = DMA_TO_DEVICE | DMA_FROM_DEVICE | DMA_BIDIRECTIONAL

record dma_buffer_t =
  virtual_address :: nat
  physical_address :: nat
  dma_size :: nat
  allocation_base :: nat
  allocation_pages :: nat
  address_bits :: nat
  coherent :: nat

record dma_segment_t =
  seg_address :: nat
  seg_length :: nat

definition align_up :: "nat \<Rightarrow> nat \<Rightarrow> nat" where
  "align_up v alignment =
     unat ((word_of_nat v + word_of_nat alignment - 1 :: u64) AND NOT (word_of_nat alignment - 1))"

definition dma_alloc ::
  "nat \<Rightarrow> nat \<Rightarrow> nat \<Rightarrow> dma_buffer_t option \<Rightarrow> pmm \<Rightarrow> (int \<times> dma_buffer_t option \<times> pmm) option" where
  "dma_alloc len alignment bits buffer s =
     (if buffer = None \<or> len = 0 \<or> bits < 32 \<or> 64 < bits then Some (- 1, buffer, s)
      else let alignment = (if alignment < DMA_PAGE_SIZE then DMA_PAGE_SIZE else alignment) in
        if alignment AND (alignment - 1) \<noteq> 0 \<or> UINT64_MAX - DMA_PAGE_SIZE < len then Some (- 1, buffer, s)
        else let pages = sub64 (add64 len DMA_PAGE_SIZE) 1 div DMA_PAGE_SIZE;
                 alignment_pages = alignment div DMA_PAGE_SIZE;
                 total_pages = sub64 (add64 pages alignment_pages) 1 in
          if UINT32_MAX < total_pages then Some (- 1, buffer, s)
          else do {
            (allocation, s) \<leftarrow> pmm_alloc_pages total_pages s;
            if allocation = 0 then Some (- 1, buffer, s)
            else let physical = align_up allocation alignment in
              if bits < 64 \<and> 2 ^ bits < add64 physical len
              then do { s \<leftarrow> pmm_free_pages allocation total_pages s; Some (- 1, buffer, s) }
              else Some (0, Some \<lparr>virtual_address = physical, physical_address = physical, dma_size = len,
                allocation_base = allocation, allocation_pages = total_pages, address_bits = bits,
                coherent = 1\<rparr>, s) })"

definition dma_free :: "dma_buffer_t option \<Rightarrow> pmm \<Rightarrow> (dma_buffer_t option \<times> pmm) option" where
  "dma_free buffer s =
     (case buffer of
        None \<Rightarrow> Some (buffer, s)
      | Some b \<Rightarrow>
        if allocation_base b = 0 \<or> allocation_pages b = 0 then Some (buffer, s)
        else do {
          s \<leftarrow> pmm_free_pages (allocation_base b) (allocation_pages b) s;
          Some (Some (b\<lparr>virtual_address := 0, physical_address := 0, dma_size := 0, allocation_base := 0,
            allocation_pages := 0\<rparr>), s) })"

definition dma_map :: "nat \<Rightarrow> nat \<Rightarrow> nat \<Rightarrow> dma_direction_t \<Rightarrow> nat option \<Rightarrow> int \<times> nat option" where
  "dma_map address len bits direction result =
     (if address = 0 \<or> result = None \<or> len = 0 \<or> bits < 32 \<or> 64 < bits \<or> UINT64_MAX - address < len
      then (- 1, result)
      else if bits < 64 \<and> 2 ^ bits < add64 address len then (- 1, result) else (0, Some address))"

text \<open>The loop of \<open>dma_build_scatter\<close>; \<open>None\<close> is the early \<open>return -1\<close>.\<close>

function scatter_loop ::
  "nat \<Rightarrow> nat \<Rightarrow> nat \<Rightarrow> nat \<Rightarrow> nat \<Rightarrow> (nat \<Rightarrow> dma_segment_t) \<Rightarrow> nat option \<times> (nat \<Rightarrow> dma_segment_t)" where
  "scatter_loop cursor len max_segment_size capacity used segments =
     (if len \<noteq> 0 then
        let page_left = DMA_PAGE_SIZE - cursor mod DMA_PAGE_SIZE;
            n = (if len < page_left then len else page_left);
            n = (if max_segment_size < n then max_segment_size else n) in
        if capacity \<le> used then (None, segments)
        else scatter_loop (add64 cursor n) (len - n) max_segment_size capacity (used + 1)
          (segments(used := \<lparr>seg_address = cursor, seg_length = n\<rparr>))
      else (Some used, segments))"
  by auto
termination
  by (relation "measure (\<lambda>(cursor, len, mx, capacity, used, segments). capacity - used)") auto

declare scatter_loop.simps [simp del]

definition dma_build_scatter ::
  "nat \<Rightarrow> nat \<Rightarrow> nat \<Rightarrow> (nat \<Rightarrow> dma_segment_t) option \<Rightarrow> nat \<Rightarrow> nat option \<Rightarrow>
   int \<times> (nat \<Rightarrow> dma_segment_t) option \<times> nat option" where
  "dma_build_scatter address len max_segment_size segments capacity count =
     (case segments of
        None \<Rightarrow> (- 1, segments, count)
      | Some segs \<Rightarrow>
        if address = 0 \<or> count = None \<or> len = 0 \<or> max_segment_size = 0 \<or> UINT64_MAX - address < len
        then (- 1, segments, count)
        else case scatter_loop address len max_segment_size capacity 0 segs of
            (None, segs) \<Rightarrow> (- 1, Some segs, count)
          | (Some used, segs) \<Rightarrow> (0, Some segs, Some used))"

text \<open>
  The self test: the barriers of \<open>dma_sync_for_device\<close>, \<open>dma_sync_for_cpu\<close> and \<open>dma_unmap\<close>
  have no effect on the state.
\<close>

definition dma_self_test :: "pmm \<Rightarrow> mem \<Rightarrow> (int \<times> pmm \<times> mem) option" where
  "dma_self_test s m = do {
     (r, buffer, s) \<leftarrow> dma_alloc 8192 4096 32 (Some \<lparr>virtual_address = 0, physical_address = 0,
       dma_size = 0, allocation_base = 0, allocation_pages = 0, address_bits = 0, coherent = 0\<rparr>) s;
     if r \<noteq> 0 then Some (- 1, s, m)
     else do {
       b \<leftarrow> buffer;
       let bytes = virtual_address b;
       let m = m(bytes := 0x4D, bytes + 8191 := 0x56);
       let (r, mapped) = dma_map bytes 8192 32 DMA_BIDIRECTIONAL (Some 0);
       let (r', segs, count) = dma_build_scatter bytes 8192 4096 (Some (\<lambda>_. \<lparr>seg_address = 0, seg_length = 0\<rparr>)) 4 (Some 0);
       (_, s) \<leftarrow> dma_free (Some b) s;
       if r \<noteq> 0 \<or> mapped \<noteq> Some (physical_address b) \<or> r' \<noteq> 0 \<or> count \<noteq> Some 2 then Some (- 1, s, m)
       else Some (0, s, m) } }"

subsection \<open>Alignment\<close>

lemma align_up_power:
  assumes "k < 64" and "v + 2 ^ k \<le> 2 ^ 64"
  shows "align_up v (2 ^ k) = (v + 2 ^ k - 1) div 2 ^ k * 2 ^ k"
proof -
  have m: "(word_of_nat (2 ^ k) - 1 :: u64) = mask k"
    by (simp add: mask_eq_exp_minus_1)
  have "1 \<le> v + 2 ^ k"
    by (rule trans_le_add2) simp
  from of_nat_diff [OF this, where 'a = u64]
  have "(word_of_nat v + word_of_nat (2 ^ k) - 1 :: u64) = word_of_nat (v + 2 ^ k - 1)"
    by simp
  moreover have "v + 2 ^ k - 1 < 2 ^ 64"
    using assms(2) by simp
  ultimately show ?thesis
    unfolding align_up_def m by (simp add: unat_and_not_mask unat_of_nat)
qed

lemma round_up_bounds:
  fixes v a :: nat
  assumes "0 < a"
  shows "v \<le> (v + a - 1) div a * a" and "(v + a - 1) div a * a < v + a" and "a dvd (v + a - 1) div a * a"
proof -
  have "(v + a - 1) div a * a = (v + a - 1) - (v + a - 1) mod a"
    by (simp add: minus_mod_eq_div_mult)
  moreover have "(v + a - 1) mod a \<le> a - 1"
    using assms by (simp add: less_Suc_eq_le [symmetric])
  ultimately show "v \<le> (v + a - 1) div a * a" "(v + a - 1) div a * a < v + a"
    using assms by auto
qed simp

text \<open>
  What a successful allocation consists of. The over-allocation by \<open>alignment / 4096 - 1\<close>
  pages leaves room for the buffer behind the aligned address.
\<close>

definition dma_buffer_ok :: "nat \<Rightarrow> nat \<Rightarrow> nat \<Rightarrow> dma_buffer_t \<Rightarrow> bool" where
  "dma_buffer_ok len alignment bits b \<longleftrightarrow>
     virtual_address b = physical_address b \<and> dma_size b = len \<and> alignment dvd physical_address b \<and>
     allocation_base b \<le> physical_address b \<and>
     physical_address b + len \<le> allocation_base b + allocation_pages b * 4096 \<and>
     (bits < 64 \<longrightarrow> physical_address b + len \<le> 2 ^ bits)"

lemma dma_pages_enough:
  assumes len: "0 < len" "len \<le> UINT64_MAX - DMA_PAGE_SIZE" and k: "12 \<le> k" "k < 64"
  defines "pages \<equiv> sub64 (add64 len DMA_PAGE_SIZE) 1 div DMA_PAGE_SIZE"
  defines "tp \<equiv> sub64 (add64 pages (2 ^ k div DMA_PAGE_SIZE)) 1"
  shows "tp = (len + 4095) div 4096 + 2 ^ k div 4096 - 1" and "len + 2 ^ k \<le> tp * 4096 + 4096"
proof -
  have pages: "pages = (len + 4095) div 4096"
    using len by (simp add: pages_def add64_small sub64_small)
  obtain j where j: "k = 12 + j"
    using k(1) by (metis le_Suc_ex)
  have "j < 52"
    using j k(2) by simp
  then have "(2 :: nat) ^ j \<le> 2 ^ 52"
    by (intro power_increasing) auto
  then have q: "(2 :: nat) ^ k div 4096 = 2 ^ j" "(2 :: nat) ^ j \<le> 2 ^ 52" "1 \<le> (2 :: nat) ^ j"
    by (auto simp: j power_add)
  have "pages \<le> 2 ^ 52"
    using len(2) by (simp add: pages)
  then show tp: "tp = (len + 4095) div 4096 + 2 ^ k div 4096 - 1"
    using q trans_le_add2 [OF q(3), of pages] unfolding tp_def pages q(1)
    by (subst add64_small) (simp_all add: sub64_small del: One_nat_def)
  have "len \<le> (len + 4095) div 4096 * 4096"
    by simp
  moreover have "(2 :: nat) ^ k = 2 ^ j * 4096"
    by (simp add: j power_add)
  ultimately show "len + 2 ^ k \<le> tp * 4096 + 4096"
    using q(3) unfolding tp q(1) by simp
qed

text \<open>
  A power of two alignment and a size that pass the checks; the allocation then is a run of
  \<open>tp\<close> pages, and aligning its start leaves the buffer inside.
\<close>

lemma dma_place:
  assumes len: "0 < len" and k: "12 \<le> k" "k < 64" and tp: "len + 2 ^ k \<le> tp * 4096 + 4096"
    and run: "p + tp \<le> PMM_MAX_PAGES"
  shows "2 ^ k dvd align_up (p * 4096) (2 ^ k)" and "p * 4096 \<le> align_up (p * 4096) (2 ^ k)"
    and "align_up (p * 4096) (2 ^ k) + len \<le> (p + tp) * 4096" and "align_up (p * 4096) (2 ^ k) + len < 2 ^ 64"
proof -
  obtain j where "k = 12 + j"
    using k(1) by (metis le_Suc_ex)
  then have j: "(2 :: nat) ^ k = 2 ^ j * 4096"
    by (simp add: power_add)
  have fit: "p * 4096 + 2 ^ k \<le> 2 ^ 64"
    using len tp run by simp
  note a = align_up_power [OF k(2) fit]
  have "(2 :: nat) ^ k > 0"
    by simp
  note bounds = round_up_bounds [OF this, of "p * 4096", folded a]
  show "2 ^ k dvd align_up (p * 4096) (2 ^ k)" and "p * 4096 \<le> align_up (p * 4096) (2 ^ k)"
    using bounds by auto
  have "4096 dvd align_up (p * 4096) (2 ^ k)"
    using bounds(3) j by (metis dvd_mult_right)
  then obtain q where q: "align_up (p * 4096) (2 ^ k) = q * 4096"
    by (metis dvd_def mult.commute)
  have "q * 4096 < (p + 2 ^ j) * 4096"
    using bounds(2) unfolding q unfolding j by (simp add: algebra_simps)
  then have "q + 1 \<le> p + 2 ^ j"
    by simp
  then show "align_up (p * 4096) (2 ^ k) + len \<le> (p + tp) * 4096"
    using tp unfolding q unfolding j by simp
  then show "align_up (p * 4096) (2 ^ k) + len < 2 ^ 64"
    using run by simp
qed

definition dma_total_pages :: "nat \<Rightarrow> nat \<Rightarrow> nat" where
  "dma_total_pages len alignment =
     sub64 (add64 (sub64 (add64 len DMA_PAGE_SIZE) 1 div DMA_PAGE_SIZE) (alignment div DMA_PAGE_SIZE)) 1"

lemma dma_alloc_refused:
  assumes "len = 0 \<or> bits < 32 \<or> 64 < bits \<or> max alignment 4096 AND (max alignment 4096 - 1) \<noteq> 0 \<or> UINT64_MAX - DMA_PAGE_SIZE < len"
  shows "dma_alloc len alignment bits (Some b0) s = Some (- 1, Some b0, s)"
proof -
  have "(if alignment < DMA_PAGE_SIZE then DMA_PAGE_SIZE else alignment) = max alignment 4096"
    by simp
  with assms show ?thesis
    unfolding dma_alloc_def by (simp only: Let_def) auto
qed

lemma dma_alloc_accepted:
  assumes "len \<noteq> 0" "32 \<le> bits" "bits \<le> 64" "max alignment 4096 = 2 ^ k" "len \<le> UINT64_MAX - DMA_PAGE_SIZE"
  defines "tp \<equiv> dma_total_pages len (2 ^ k)"
  shows "dma_alloc len alignment bits (Some b0) s =
    (if UINT32_MAX < tp then Some (- 1, Some b0, s)
     else do { (allocation, s) \<leftarrow> pmm_alloc_pages tp s;
       if allocation = 0 then Some (- 1, Some b0, s)
       else let physical = align_up allocation (2 ^ k) in
         if bits < 64 \<and> 2 ^ bits < add64 physical len
         then do { s \<leftarrow> pmm_free_pages allocation tp s; Some (- 1, Some b0, s) }
         else Some (0, Some \<lparr>virtual_address = physical, physical_address = physical, dma_size = len,
           allocation_base = allocation, allocation_pages = tp, address_bits = bits, coherent = 1\<rparr>, s) })"
proof -
  have "(if alignment < DMA_PAGE_SIZE then DMA_PAGE_SIZE else alignment) = 2 ^ k"
    using assms(4) by (simp add: max_def split: if_splits)
  then show ?thesis
    unfolding dma_alloc_def tp_def dma_total_pages_def using assms(1-3,5) and_pred_power [of k]
    by (simp only: Let_def option.simps simp_thms if_True if_False not_less [symmetric])
qed

lemma alignment_exponent:
  assumes "alignment < 2 ^ 64" and "max alignment 4096 = (2 :: nat) ^ k"
  shows "12 \<le> k" and "k < 64"
proof -
  have "(2 :: nat) ^ 12 \<le> 2 ^ k" "(2 :: nat) ^ k < 2 ^ 64"
    using assms by (simp_all flip: assms(2))
  then show "12 \<le> k" "k < 64"
    using power_le_imp_le_exp [of "2 :: nat" 12 k] power_less_imp_less_exp [of "2 :: nat" k 64] by simp_all
qed

definition dma_request_ok :: "nat \<Rightarrow> nat \<Rightarrow> nat \<Rightarrow> bool" where
  "dma_request_ok len alignment bits \<longleftrightarrow>
     len \<noteq> 0 \<and> 32 \<le> bits \<and> bits \<le> 64 \<and> max alignment 4096 AND (max alignment 4096 - 1) = 0 \<and> len \<le> UINT64_MAX - DMA_PAGE_SIZE"

lemma dma_alloc_fails:
  assumes "\<not> dma_request_ok len alignment bits"
  shows "dma_alloc len alignment bits (Some b0) s = Some (- 1, Some b0, s)"
  using assms by (intro dma_alloc_refused) (auto simp: dma_request_ok_def)

text \<open>
  The page allocator manages at most 4 GiB, so an accepted request that finds its pages always
  ends below \<open>2 ^ bits\<close>: the address check behind the allocation never fails.
\<close>

lemma dma_alloc_found:
  assumes ready: "pmm_ready s" and align: "alignment < 2 ^ 64" and ok: "dma_request_ok len alignment bits"
  defines "tp \<equiv> dma_total_pages len (max alignment 4096)"
  assumes hit: "pmm_alloc_pages tp s = Some (p * 4096, t)" "0 < p" "0 < tp" "{p ..< p + tp} \<subseteq> pmm_region s"
  shows "\<exists>b. dma_alloc len alignment bits (Some b0) s = Some (0, Some b, t) \<and>
    dma_buffer_ok len (max alignment 4096) bits b \<and> allocation_base b = p * 4096 \<and> allocation_pages b = tp"
proof -
  have args: "len \<noteq> 0" "32 \<le> bits" "bits \<le> 64" "len \<le> UINT64_MAX - DMA_PAGE_SIZE"
    and pow: "max alignment 4096 AND (max alignment 4096 - 1) = 0" "max alignment 4096 \<noteq> 0"
    using ok by (auto simp: dma_request_ok_def)
  obtain k where k: "max alignment 4096 = 2 ^ k"
    using and_pred_zero_power [OF pow(2,1)] by blast
  note k' = alignment_exponent [OF align k]
  have enough: "len + 2 ^ k \<le> tp * 4096 + 4096"
    unfolding dma_total_pages_def tp_def k using args k' by (intro dma_pages_enough) auto
  have "p + tp - 1 \<in> pmm_region s"
    using hit by auto
  then have run: "p + tp \<le> PMM_MAX_PAGES"
    using pages.region_limit [OF ready] by fastforce
  have "0 < len"
    using args(1) by simp
  note place = dma_place [OF this k' enough run]
  have "(2 :: nat) ^ 32 \<le> 2 ^ bits"
    using args(2) by (intro power_increasing) auto
  then have "align_up (p * 4096) (2 ^ k) + len \<le> 2 ^ bits"
    using place(3) mult_le_mono1 [OF run, of 4096] by simp
  then show ?thesis
    using hit run place unfolding tp_def k dma_alloc_accepted [OF args(1-3) k args(4)]
    by (simp add: dma_buffer_ok_def add64_small Let_def)
qed

lemma dma_alloc_no_pages:
  assumes align: "alignment < 2 ^ 64" and ok: "dma_request_ok len alignment bits"
    and alloc: "pmm_alloc_pages (dma_total_pages len (max alignment 4096)) s = Some (0, t)"
  shows "dma_alloc len alignment bits (Some b0) s =
    Some (- 1, Some b0, if UINT32_MAX < dma_total_pages len (max alignment 4096) then s else t)"
proof -
  have args: "len \<noteq> 0" "32 \<le> bits" "bits \<le> 64" "len \<le> UINT64_MAX - DMA_PAGE_SIZE"
    and pow: "max alignment 4096 AND (max alignment 4096 - 1) = 0" "max alignment 4096 \<noteq> 0"
    using ok by (auto simp: dma_request_ok_def)
  obtain k where k: "max alignment 4096 = 2 ^ k"
    using and_pred_zero_power [OF pow(2,1)] by blast
  show ?thesis
    using alloc unfolding dma_alloc_accepted [OF args(1-3) k args(4)] k by simp
qed

text \<open>
  C17. \<^verbatim>\<open>dma_alloc\<close> succeeds exactly when the request is valid and the page allocator has a free
  run of the pages it needs. The buffer then is aligned as requested (to a page at least),
  lies inside the fresh run, ends below the address limit of the device, and its pages were
  free before; \<^verbatim>\<open>dma_free\<close> gives exactly them back. When it fails the caller's record is
  untouched and no page stays allocated.
\<close>

theorem dma_alloc_correct:
  fixes len alignment bits :: nat
  assumes ready: "pmm_ready s" and align: "alignment < 2 ^ 64"
  defines "tp \<equiv> dma_total_pages len (max alignment 4096)"
  shows "if dma_request_ok len alignment bits \<and> 0 < tp \<and> (\<exists>p. {p ..< p + tp} \<subseteq> pmm_region s \<and> {p ..< p + tp} \<inter> used_set s = {})
    then \<exists>b t p u. dma_alloc len alignment bits (Some b0) s = Some (0, Some b, t) \<and> pmm_ready t \<and>
      dma_buffer_ok len (max alignment 4096) bits b \<and> allocation_base b = p * 4096 \<and> {p ..< p + tp} \<inter> used_set s = {} \<and>
      used_set t = used_set s \<union> {p ..< p + tp} \<and>
      map_option snd (dma_free (Some b) t) = Some u \<and> pmm_ready u \<and> used_set u = used_set s
    else \<exists>t. dma_alloc len alignment bits (Some b0) s = Some (- 1, Some b0, t) \<and> pmm_ready t \<and> used_set t = used_set s"
    (is "if ?ok then ?good else ?bad")
proof (cases "dma_request_ok len alignment bits")
  case False
  then show ?thesis
    using ready by (auto simp: dma_alloc_fails)
next
  case ok: True
  from pages.alloc_law [OF ready, of tp] consider
    (fail) t where "pmm_alloc_pages tp s = Some (0, t)" "pmm_ready t" "used_set t = used_set s"
  | (hit) p t where "pmm_alloc_pages tp s = Some (p * 4096, t)" "0 < p" "0 < tp" "{p ..< p + tp} \<subseteq> pmm_region s"
      "pmm_ready t" "{p ..< p + tp} \<inter> used_set s = {}" "used_set t = used_set s \<union> {p ..< p + tp}"
    by blast
  then show ?thesis
  proof cases
    case fail
    then have "\<not> ?ok"
      using pages.alloc_complete [OF ready fail(1)] by blast
    then show ?thesis
      using fail ready dma_alloc_no_pages [OF align ok, folded tp_def, OF fail(1), of b0]
      by (cases "UINT32_MAX < tp") auto
  next
    case hit
    then have "?ok"
      using ok by blast
    obtain b where b: "dma_alloc len alignment bits (Some b0) s = Some (0, Some b, t)"
      "dma_buffer_ok len (max alignment 4096) bits b" "allocation_base b = p * 4096" "allocation_pages b = tp"
      using dma_alloc_found [OF ready align ok, folded tp_def, OF hit(1-4)] by blast
    obtain u where "pmm_free_pages (p * 4096) tp t = Some u" "pmm_ready u" "used_set u = used_set s"
      using pages.alloc_free_restores [OF ready hit(1)] hit(2) by auto
    then have "map_option snd (dma_free (Some b) t) = Some u" "pmm_ready u" "used_set u = used_set s"
      using b hit(2,3) by (auto simp: dma_free_def)
    then have ?good
      using b hit by blast
    then show ?thesis
      using \<open>?ok\<close> by simp
  qed
qed

theorem dma_alloc_correct_witness:
  "\<exists>s b t. pmm_ready s \<and> (8192 :: nat) < 2 ^ 64 \<and>
     dma_alloc 5000 8192 32 (Some \<lparr>virtual_address = 0, physical_address = 0, dma_size = 0, allocation_base = 0,
       allocation_pages = 0, address_bits = 0, coherent = 0\<rparr>) s = Some (0, Some b, t) \<and> dma_buffer_ok 5000 8192 32 b"
proof -
  obtain s where s: "pmm_ready s" "pmm_region s = {512 ..< 2048}" "pmm_region s \<inter> used_set s = {}"
    using pmm_boot_example by blast
  have tp: "dma_total_pages 5000 (max 8192 4096) = 3"
    by (simp add: dma_total_pages_def add64_def sub64_def)
  have req: "dma_request_ok 5000 8192 32"
    using and_pred_power [of 13] by (simp add: dma_request_ok_def)
  have run: "{512 ..< 512 + 3} \<subseteq> pmm_region s \<and> {512 ..< 512 + 3} \<inter> used_set s = {}"
    using s by auto
  have ok: "dma_request_ok 5000 8192 32 \<and> 0 < (3 :: nat) \<and>
      (\<exists>p. {p ..< p + 3} \<subseteq> pmm_region s \<and> {p ..< p + 3} \<inter> used_set s = {})"
    by (intro conjI req exI [of _ 512] run [THEN conjunct1] run [THEN conjunct2]) simp
  have lim: "(8192 :: nat) < 2 ^ 64" and mx: "max 8192 4096 = (8192 :: nat)"
    by simp_all
  note result = dma_alloc_correct [OF s(1) lim, of 5000 32, unfolded tp if_P [OF ok]]
  from result [unfolded mx] s(1) lim show ?thesis
    by blast
qed

subsection \<open>Scatter lists\<close>

text \<open>The segments from \<open>i\<close> to \<open>j\<close> cover the block at \<open>a\<close> without gaps, none is too long or crosses a page.\<close>

fun covers :: "(nat \<Rightarrow> dma_segment_t) \<Rightarrow> nat \<Rightarrow> nat \<Rightarrow> nat \<Rightarrow> nat \<Rightarrow> nat \<Rightarrow> bool" where
  "covers segs mx i 0 a len \<longleftrightarrow> len = 0"
| "covers segs mx i (Suc n) a len \<longleftrightarrow>
     seg_address (segs i) = a \<and> 0 < seg_length (segs i) \<and> seg_length (segs i) \<le> min len mx \<and>
     a mod 4096 + seg_length (segs i) \<le> 4096 \<and>
     covers segs mx (i + 1) n (a + seg_length (segs i)) (len - seg_length (segs i))"

lemma covers_cong: "(\<And>j. i \<le> j \<Longrightarrow> segs j = segs' j) \<Longrightarrow> covers segs mx i n a len \<longleftrightarrow> covers segs' mx i n a len"
  by (induction n arbitrary: i a len) auto

lemma scatter_loop_step:
  assumes "n = min (min len (DMA_PAGE_SIZE - cursor mod DMA_PAGE_SIZE)) mx" and "cursor + len < 2 ^ 64"
  shows "scatter_loop cursor len mx capacity used segs =
    (if len \<noteq> 0 then if capacity \<le> used then (None, segs)
       else scatter_loop (cursor + n) (len - n) mx capacity (used + 1) (segs(used := \<lparr>seg_address = cursor, seg_length = n\<rparr>))
     else (Some used, segs))"
proof -
  let ?pl = "DMA_PAGE_SIZE - cursor mod DMA_PAGE_SIZE"
  have "(if mx < (if len < pl then len else pl) then mx else (if len < pl then len else pl)) = min (min len pl) mx" for pl
    by (auto simp: min_def)
  then have pick: "(if mx < (if len < ?pl then len else ?pl) then mx else (if len < ?pl then len else ?pl)) = n"
    by (simp only: assms(1))
  have "n \<le> len"
    by (simp add: assms(1))
  then have add: "add64 cursor n = cursor + n"
    using assms(2) by (simp add: add64_small)
  show ?thesis
    by (subst scatter_loop.simps) (simp only: Let_def pick add)
qed

lemma scatter_loop_keeps: "j < used \<Longrightarrow> snd (scatter_loop cursor len mx capacity used segs) j = segs j"
  by (induction cursor len mx capacity used segs rule: scatter_loop.induct)
    (subst scatter_loop.simps, simp add: Let_def)

lemma scatter_loop_covers:
  assumes "cursor + len < 2 ^ 64" and "0 < mx" and "used \<le> capacity"
  shows "case scatter_loop cursor len mx capacity used segs of
      (Some n, segs') \<Rightarrow> used \<le> n \<and> n \<le> capacity \<and> covers segs' mx used (n - used) cursor len
    | (None, segs') \<Rightarrow> True"
  using assms
proof (induction "capacity - used" arbitrary: cursor len used segs)
  case 0
  then show ?case
    by (subst scatter_loop.simps) (simp add: Let_def)
next
  case (Suc k)
  define n where "n = min (min len (DMA_PAGE_SIZE - cursor mod DMA_PAGE_SIZE)) mx"
  define segs' where "segs' = segs(used := \<lparr>seg_address = cursor, seg_length = n\<rparr>)"
  have n: "n \<le> len" "n \<le> mx" "cursor mod 4096 + n \<le> 4096" "len \<noteq> 0 \<Longrightarrow> 0 < n"
    using Suc.prems(2) by (auto simp: n_def min_def)
  note step = scatter_loop_step [OF n_def Suc.prems(1), of capacity used segs, folded segs'_def]
  obtain r final where r: "scatter_loop (cursor + n) (len - n) mx capacity (used + 1) segs' = (r, final)"
    by (rule prod.exhaust)
  have "final used = segs' used"
    using scatter_loop_keeps [of used "used + 1" "cursor + n" "len - n" mx capacity segs'] r by simp
  moreover have ih: "case (r, final) of
      (Some n', segs') \<Rightarrow> used + 1 \<le> n' \<and> n' \<le> capacity \<and> covers segs' mx (used + 1) (n' - (used + 1)) (cursor + n) (len - n)
    | (None, segs') \<Rightarrow> True"
    unfolding r [symmetric] by (rule Suc.hyps(1)) (use Suc.prems n(1) Suc.hyps(2) in auto)
  moreover have "n' - used = Suc (n' - (used + 1))" if "r = Some n'" for n'
    using ih that by (simp, arith)
  ultimately show ?case
    using n Suc.prems(3) Suc.hyps(2) unfolding step r by (cases r) (simp_all add: segs'_def)
qed

text \<open>With segments of at least a page the block needs one segment for every page it touches.\<close>

definition pages_touched :: "nat \<Rightarrow> nat \<Rightarrow> nat" where
  "pages_touched a len = (if len = 0 then 0 else (a mod 4096 + len - 1) div 4096 + 1)"

lemma pages_touched_step:
  assumes "0 < len" and "n = min len (4096 - a mod 4096)"
  shows "pages_touched a len = Suc (pages_touched (a + n) (len - n))"
proof (cases "len \<le> 4096 - a mod 4096")
  case True
  then show ?thesis
    using assms by (simp add: pages_touched_def)
next
  case False
  then have n: "n = 4096 - a mod 4096" "a mod 4096 + n = 4096" "n < len"
    using assms by auto
  have "(a + n) mod 4096 = 0"
    using n(2) by (metis mod_add_left_eq mod_self)
  moreover have "a mod 4096 + len - 1 = 4096 + (len - n - 1)"
    using n by simp
  ultimately show ?thesis
    using n(3) assms(1) by (simp add: pages_touched_def)
qed

lemma scatter_loop_count:
  assumes "cursor + len < 2 ^ 64" and "4096 \<le> mx" and "used + pages_touched cursor len \<le> capacity"
  shows "fst (scatter_loop cursor len mx capacity used segs) = Some (used + pages_touched cursor len)"
  using assms
proof (induction "pages_touched cursor len" arbitrary: cursor len used segs)
  case 0
  then have "len = 0"
    by (simp add: pages_touched_def split: if_splits)
  then show ?case
    by (subst scatter_loop.simps) (simp add: pages_touched_def)
next
  case (Suc k)
  define n where "n = min len (4096 - cursor mod 4096)"
  have len: "0 < len"
    using Suc.hyps(2) by (cases len) (auto simp: pages_touched_def)
  note touched = pages_touched_step [OF len n_def]
  have n: "n \<le> len" "n \<le> mx"
    using Suc.prems(2) by (auto simp: n_def)
  have "n = min (min len (4096 - cursor mod 4096)) mx"
    using n by (simp add: n_def)
  note step = scatter_loop_step [OF this Suc.prems(1), of capacity used segs]
  have "fst (scatter_loop cursor len mx capacity used segs) =
      fst (scatter_loop (cursor + n) (len - n) mx capacity (used + 1) (segs(used := \<lparr>seg_address = cursor, seg_length = n\<rparr>)))"
    using len Suc.prems(3) touched by (simp add: step)
  also have "\<dots> = Some (used + 1 + pages_touched (cursor + n) (len - n))"
    by (rule Suc.hyps(1)) (use Suc.hyps(2) Suc.prems n(1) touched in auto)
  finally show ?case
    by (simp add: touched)
qed

text \<open>
  C18. \<^verbatim>\<open>dma_build_scatter\<close> describes the block it is given: when it succeeds, its segments lie
  one behind the other, cover exactly the bytes of the block, are never longer than the
  maximum and never cross a page boundary, and their number is within the capacity of the
  caller's array. With segments of at least a page and room for one segment per page that the
  block touches it does succeed, with exactly that many segments.
\<close>

theorem dma_build_scatter_covers:
  assumes "address + len < 2 ^ 64" and "dma_build_scatter address len mx (Some segs) capacity (Some c0) = (r, segs', count)"
  shows "(r = - 1 \<and> count = Some c0 \<or>
     r = 0 \<and> (\<exists>n sg. segs' = Some sg \<and> count = Some n \<and> n \<le> capacity \<and> covers sg mx 0 n address len)) \<and>
    (0 < address \<and> 0 < len \<and> 4096 \<le> mx \<and> pages_touched address len \<le> capacity \<longrightarrow>
     r = 0 \<and> count = Some (pages_touched address len))"
proof
  show "r = - 1 \<and> count = Some c0 \<or>
     r = 0 \<and> (\<exists>n sg. segs' = Some sg \<and> count = Some n \<and> n \<le> capacity \<and> covers sg mx 0 n address len)"
    using assms scatter_loop_covers [of address len mx 0 capacity segs]
    by (auto simp: dma_build_scatter_def split: if_splits prod.splits option.splits)
  show "0 < address \<and> 0 < len \<and> 4096 \<le> mx \<and> pages_touched address len \<le> capacity \<longrightarrow>
     r = 0 \<and> count = Some (pages_touched address len)"
    using assms scatter_loop_count [of address len mx 0 capacity segs]
    by (auto simp: dma_build_scatter_def split: if_splits prod.splits option.splits)
qed

theorem dma_build_scatter_covers_witness:
  "8190 + 8192 < (2 :: nat) ^ 64 \<and> (\<exists>segs' sg.
     dma_build_scatter 8190 8192 4096 (Some (\<lambda>_. \<lparr>seg_address = 0, seg_length = 0\<rparr>)) 4 (Some 0) = (0, segs', Some 3) \<and>
     segs' = Some sg \<and> covers sg 4096 0 3 8190 8192)"
proof -
  obtain r segs' count where eq: "dma_build_scatter 8190 8192 4096 (Some (\<lambda>_. \<lparr>seg_address = 0, seg_length = 0\<rparr>)) 4 (Some 0) = (r, segs', count)"
    by (metis prod_cases3)
  have "8190 + 8192 < (2 :: nat) ^ 64" and touched: "pages_touched 8190 8192 = 3"
    by (simp_all add: pages_touched_def)
  with dma_build_scatter_covers [OF this(1) eq] eq show ?thesis
    by auto
qed

end
