(* ===== verification/Task.thy ===== *)
theory Task
  imports Pmm Memory
begin

section \<open>The task scheduler\<close>

text \<open>
  The cooperative scheduler of \<open>task/task.c\<close>: a table of 64 tasks, a current task and a
  round-robin cursor for each processor, and counters of the tasks in each state. The
  processor an operation runs on is an argument, since the code reads it from a segment
  register. A context switch is a pair of table indices in the result of \<open>task_yield\<close>;
  what the tasks themselves do between two calls is not part of the state.
\<close>

abbreviation TASK_MAX :: nat where "TASK_MAX \<equiv> 64"
abbreviation TASK_NAME_MAX :: nat where "TASK_NAME_MAX \<equiv> 24"
abbreviation TASK_STACK_PAGES :: nat where "TASK_STACK_PAGES \<equiv> 4"
abbreviation TASK_NO_CURRENT :: nat where "TASK_NO_CURRENT \<equiv> UINT32_MAX"
abbreviation SMP_MAX_CPUS :: nat where "SMP_MAX_CPUS \<equiv> 64"

datatype task_state_t = TASK_UNUSED | TASK_RUNNING | TASK_READY | TASK_SLEEPING
  | TASK_BLOCKED | TASK_STOPPED | TASK_ZOMBIE

record task_info_t =
  ti_pid :: nat
  ti_tid :: nat
  ti_cpu_id :: nat
  ti_priority :: nat
  ti_state :: task_state_t
  ti_affinity :: u64
  ti_created_tick :: nat
  ti_runtime_ticks :: nat
  ti_wake_tick :: nat
  ti_context_switches :: nat
  ti_name :: bytes

record task_context_t =
  tc_rsp :: nat
  tc_rbx :: nat
  tc_rbp :: nat
  tc_r12 :: nat
  tc_r13 :: nat
  tc_r14 :: nat
  tc_r15 :: nat

record task_control_t =
  tk_info :: task_info_t
  tk_context :: task_context_t
  tk_entry :: nat
  tk_argument :: nat
  tk_stack_base :: nat
  tk_stack_pages :: nat

record scheduler_stats_t =
  ss_context_switches :: nat
  ss_yields :: nat
  ss_created :: nat
  ss_reaped :: nat
  ss_running :: nat
  ss_ready :: nat
  ss_sleeping :: nat
  ss_blocked :: nat
  ss_zombies :: nat

record sched =
  tasks :: "task_control_t list"
  current_task :: "nat list"
  next_pid :: nat
  round_robin_cursor :: "nat list"
  scheduler_lock :: spinlock_t
  scheduler_stats :: scheduler_stats_t

subsection \<open>The table\<close>

text \<open>\<open>clear_bytes\<close> on a table entry and on the counters.\<close>

definition task_zero :: task_control_t where
  "task_zero = \<lparr>tk_info = \<lparr>ti_pid = 0, ti_tid = 0, ti_cpu_id = 0, ti_priority = 0, ti_state = TASK_UNUSED,
     ti_affinity = 0, ti_created_tick = 0, ti_runtime_ticks = 0, ti_wake_tick = 0, ti_context_switches = 0,
     ti_name = []\<rparr>, tk_context = \<lparr>tc_rsp = 0, tc_rbx = 0, tc_rbp = 0, tc_r12 = 0, tc_r13 = 0, tc_r14 = 0,
     tc_r15 = 0\<rparr>, tk_entry = 0, tk_argument = 0, tk_stack_base = 0, tk_stack_pages = 0\<rparr>"

definition stats_zero :: scheduler_stats_t where
  "stats_zero = \<lparr>ss_context_switches = 0, ss_yields = 0, ss_created = 0, ss_reaped = 0, ss_running = 0,
     ss_ready = 0, ss_sleeping = 0, ss_blocked = 0, ss_zombies = 0\<rparr>"

definition task_at :: "nat \<Rightarrow> sched \<Rightarrow> task_control_t option" where
  "task_at i s = (if i < length (tasks s) then Some (tasks s ! i) else None)"

definition state_of :: "task_control_t \<Rightarrow> task_state_t" where
  "state_of t = ti_state (tk_info t)"

text \<open>Assignments to fields of \<open>tasks[index].info\<close> and of the counters.\<close>

definition upd_info :: "nat \<Rightarrow> (task_info_t \<Rightarrow> task_info_t) \<Rightarrow> sched \<Rightarrow> sched" where
  "upd_info i f s = s\<lparr>tasks := (tasks s)[i := tk_info_update f (tasks s ! i)]\<rparr>"

definition set_state :: "nat \<Rightarrow> task_state_t \<Rightarrow> sched \<Rightarrow> sched" where
  "set_state i state s = upd_info i (\<lambda>t. t\<lparr>ti_state := state\<rparr>) s"

definition upd_stats :: "(scheduler_stats_t \<Rightarrow> scheduler_stats_t) \<Rightarrow> sched \<Rightarrow> sched" where
  "upd_stats f s = s\<lparr>scheduler_stats := f (scheduler_stats s)\<rparr>"

definition sched_lock :: "sched \<Rightarrow> sched option" where
  "sched_lock s = do { l \<leftarrow> spinlock_lock (scheduler_lock s); Some (s\<lparr>scheduler_lock := l\<rparr>) }"

definition sched_unlock :: "sched \<Rightarrow> sched" where
  "sched_unlock s = s\<lparr>scheduler_lock := spinlock_unlock (scheduler_lock s)\<rparr>"

fun copy_name :: "nat \<Rightarrow> bytes \<Rightarrow> bytes" where
  "copy_name index [] = []"
| "copy_name index (c # cs) = (if index + 1 < TASK_NAME_MAX then c # copy_name (index + 1) cs else [])"

definition local_cpu_id :: "nat option \<Rightarrow> nat" where
  "local_cpu_id cpu = (case cpu of Some i \<Rightarrow> if i < SMP_MAX_CPUS then i else 0 | None \<Rightarrow> 0)"

definition index_by_pid :: "nat \<Rightarrow> sched \<Rightarrow> nat option" where
  "index_by_pid pid s =
     table_scan (\<lambda>t. state_of t \<noteq> TASK_UNUSED \<and> ti_pid (tk_info t) = pid) 0 (tasks s)"

text \<open>
  One iteration of the loop of \<open>choose_next\<close>, on the pair of \<open>selected\<close> and
  \<open>best_priority\<close>.
\<close>

definition choose_step :: "task_control_t list \<Rightarrow> nat \<Rightarrow> nat \<Rightarrow> nat \<Rightarrow> nat \<Rightarrow> nat \<times> nat \<Rightarrow> nat \<times> nat" where
  "choose_step ts cursor cpu previous offset acc =
     (let (selected, best_priority) = acc;
          index = (cursor + offset) mod TASK_MAX;
          info = tk_info (ts ! index) in
      if ti_state info = TASK_READY \<and> ti_affinity info AND push_bit cpu 1 \<noteq> 0 \<and>
         (selected = previous \<or> best_priority < ti_priority info)
      then (index, ti_priority info) else (selected, best_priority))"

definition choose_next :: "nat \<Rightarrow> nat \<Rightarrow> sched \<Rightarrow> nat" where
  "choose_next cpu previous s =
     fst (fold (choose_step (tasks s) (round_robin_cursor s ! cpu) cpu previous) [1 ..< TASK_MAX + 1] (previous, 0))"

subsection \<open>Operations\<close>

definition task_init :: "nat \<Rightarrow> sched \<Rightarrow> sched" where
  "task_init tick s =
     (let t0 = task_zero\<lparr>tk_info := (tk_info task_zero)\<lparr>ti_pid := 1, ti_tid := 1, ti_cpu_id := 0,
        ti_priority := 10, ti_state := TASK_RUNNING, ti_affinity := 1, ti_created_tick := tick,
        ti_name := copy_name 0 [107, 101, 114, 110, 101, 108, 45, 115, 104, 101, 108, 108]\<rparr>\<rparr> in
      s\<lparr>scheduler_lock := spinlock_init (scheduler_lock s), tasks := (replicate TASK_MAX task_zero)[0 := t0],
        scheduler_stats := stats_zero\<lparr>ss_created := 1, ss_running := 1\<rparr>,
        current_task := (replicate SMP_MAX_CPUS TASK_NO_CURRENT)[0 := 0],
        round_robin_cursor := replicate SMP_MAX_CPUS 0, next_pid := 2\<rparr>)"

text \<open>The control block of a new task, and its entry into the table.\<close>

definition task_fresh :: "nat \<Rightarrow> bytes \<Rightarrow> nat \<Rightarrow> nat \<Rightarrow> nat \<Rightarrow> u64 \<Rightarrow> nat \<Rightarrow> nat \<Rightarrow> task_control_t" where
  "task_fresh pid name entry argument priority affinity stack rsp =
     task_zero\<lparr>tk_info := (tk_info task_zero)\<lparr>ti_pid := pid, ti_tid := pid, ti_cpu_id := UINT32_MAX,
         ti_priority := priority, ti_state := TASK_READY, ti_affinity := affinity, ti_name := copy_name 0 name\<rparr>,
       tk_entry := entry, tk_argument := argument, tk_stack_base := stack, tk_stack_pages := TASK_STACK_PAGES,
       tk_context := (tk_context task_zero)\<lparr>tc_rsp := rsp\<rparr>\<rparr>"

definition task_publish :: "nat \<Rightarrow> task_control_t \<Rightarrow> sched \<Rightarrow> sched" where
  "task_publish index t s =
     upd_stats (\<lambda>c. c\<lparr>ss_created := add64 (ss_created c) 1, ss_ready := add32 (ss_ready c) 1\<rparr>)
       (s\<lparr>tasks := (tasks s)[index := t], next_pid := add32 (next_pid s) 1\<rparr>)"

text \<open>
  The stack is identity-mapped memory from the page allocator; \<open>bootstrap\<close> is the address of
  \<open>task_bootstrap\<close>, which is stored at the top of the stack. A null name is \<open>None\<close>.
\<close>

definition task_create_kernel ::
  "nat \<Rightarrow> bytes option \<Rightarrow> nat \<Rightarrow> nat \<Rightarrow> nat \<Rightarrow> u64 \<Rightarrow> sched \<Rightarrow> pmm \<Rightarrow> mem \<Rightarrow> (int \<times> sched \<times> pmm \<times> mem) option" where
  "task_create_kernel bootstrap name entry argument priority affinity s p m =
     (if name = None \<or> name = Some [] \<or> entry = 0 \<or> affinity = 0 then Some (- 1, s, p, m)
      else do {
        (stack, p) \<leftarrow> pmm_alloc_pages TASK_STACK_PAGES p;
        if stack = 0 then Some (- 1, s, p, m)
        else do {
          s \<leftarrow> sched_lock s;
          case table_scan (\<lambda>t. state_of t = TASK_UNUSED) 1 (tasks s) of
            None \<Rightarrow> do {
              p \<leftarrow> pmm_free_pages stack TASK_STACK_PAGES p;
              Some (- 1, sched_unlock s, p, m) }
          | Some index \<Rightarrow>
              let pid = next_pid s;
                  top = stack + TASK_STACK_PAGES * 4096 - 16;
                  t = task_fresh pid (the name) entry argument priority affinity stack top in
              Some (sint (word_of_nat pid :: u32), sched_unlock (task_publish index t s), p, st m top 8 bootstrap) } })"

text \<open>
  The pieces of \<open>task_yield\<close>: the running caller becomes ready, and either it runs on or the
  processor switches to another task.
\<close>

definition yield_release :: "nat \<Rightarrow> sched \<Rightarrow> sched" where
  "yield_release previous s =
     (if state_of (tasks s ! previous) = TASK_RUNNING
      then upd_stats (\<lambda>c. c\<lparr>ss_running := sub32 (ss_running c) 1, ss_ready := add32 (ss_ready c) 1\<rparr>)
        (set_state previous TASK_READY s)
      else s)"

definition yield_resume :: "nat \<Rightarrow> sched \<Rightarrow> sched" where
  "yield_resume previous s =
     upd_stats (\<lambda>c. c\<lparr>ss_ready := sub32 (ss_ready c) 1, ss_running := add32 (ss_running c) 1\<rparr>)
       (set_state previous TASK_RUNNING s)"

definition yield_switch :: "nat \<Rightarrow> nat \<Rightarrow> sched \<Rightarrow> sched" where
  "yield_switch cpu_id next s =
     (upd_stats (\<lambda>c. c\<lparr>ss_ready := sub32 (ss_ready c) 1, ss_running := add32 (ss_running c) 1,
          ss_context_switches := add64 (ss_context_switches c) 1, ss_yields := add64 (ss_yields c) 1\<rparr>)
        (upd_info next (\<lambda>t. t\<lparr>ti_state := TASK_RUNNING, ti_cpu_id := cpu_id,
          ti_context_switches := add64 (ti_context_switches t) 1\<rparr>) s))
       \<lparr>current_task := (current_task s)[cpu_id := next], round_robin_cursor := (round_robin_cursor s)[cpu_id := next]\<rparr>"

definition task_yield :: "nat option \<Rightarrow> sched \<Rightarrow> (sched \<times> (nat \<times> nat) option) option" where
  "task_yield cpu s =
     (let cpu_id = local_cpu_id cpu; previous = current_task s ! cpu_id in
      if previous = TASK_NO_CURRENT then Some (s, None)
      else do {
        s \<leftarrow> sched_lock s;
        t \<leftarrow> task_at previous s;
        let s = yield_release previous s;
        let next = choose_next cpu_id previous s;
        if next = previous then Some (sched_unlock (yield_resume previous s), None)
        else Some (sched_unlock (yield_switch cpu_id next s), Some (previous, next)) })"

text \<open>What \<open>task_bootstrap\<close> does when the entry function has returned, before it yields for ever.\<close>

definition task_bootstrap_exit :: "nat option \<Rightarrow> sched \<Rightarrow> sched option" where
  "task_bootstrap_exit cpu s = do {
     let index = current_task s ! local_cpu_id cpu;
     s \<leftarrow> sched_lock s;
     t \<leftarrow> task_at index s;
     Some (sched_unlock (upd_stats (\<lambda>st. st\<lparr>ss_zombies := add32 (ss_zombies st) 1, ss_running := sub32 (ss_running st) 1\<rparr>)
       (set_state index TASK_ZOMBIE s))) }"

definition task_sleep_until :: "nat option \<Rightarrow> nat \<Rightarrow> sched \<Rightarrow> (sched \<times> (nat \<times> nat) option) option" where
  "task_sleep_until cpu wake_tick s =
     (let index = current_task s ! local_cpu_id cpu in
      if index = TASK_NO_CURRENT then Some (s, None)
      else do {
        s \<leftarrow> sched_lock s;
        t \<leftarrow> task_at index s;
        let s = upd_info index (\<lambda>t. t\<lparr>ti_state := TASK_SLEEPING, ti_wake_tick := wake_tick\<rparr>) s;
        let s = upd_stats (\<lambda>st. st\<lparr>ss_running := sub32 (ss_running st) 1, ss_sleeping := add32 (ss_sleeping st) 1\<rparr>) s;
        task_yield cpu (sched_unlock s) })"

definition task_wake :: "nat \<Rightarrow> sched \<Rightarrow> (int \<times> sched) option" where
  "task_wake pid s = do {
     s \<leftarrow> sched_lock s;
     case index_by_pid pid s of
       None \<Rightarrow> Some (- 1, sched_unlock s)
     | Some i \<Rightarrow>
         let old = state_of (tasks s ! i) in
         if old \<noteq> TASK_SLEEPING \<and> old \<noteq> TASK_BLOCKED then Some (- 1, sched_unlock s)
         else
           let s = (if old = TASK_SLEEPING then upd_stats (\<lambda>st. st\<lparr>ss_sleeping := sub32 (ss_sleeping st) 1\<rparr>) s
                    else upd_stats (\<lambda>st. st\<lparr>ss_blocked := sub32 (ss_blocked st) 1\<rparr>) s);
               s = upd_stats (\<lambda>st. st\<lparr>ss_ready := add32 (ss_ready st) 1\<rparr>) (set_state i TASK_READY s) in
           Some (0, sched_unlock s) }"

definition task_block :: "nat \<Rightarrow> sched \<Rightarrow> (int \<times> sched) option" where
  "task_block pid s = do {
     s \<leftarrow> sched_lock s;
     case index_by_pid pid s of
       None \<Rightarrow> Some (- 1, sched_unlock s)
     | Some i \<Rightarrow>
         if state_of (tasks s ! i) \<noteq> TASK_READY then Some (- 1, sched_unlock s)
         else Some (0, sched_unlock (upd_stats (\<lambda>st. st\<lparr>ss_ready := sub32 (ss_ready st) 1, ss_blocked := add32 (ss_blocked st) 1\<rparr>)
           (set_state i TASK_BLOCKED s))) }"

definition task_set_affinity :: "nat \<Rightarrow> u64 \<Rightarrow> sched \<Rightarrow> (int \<times> sched) option" where
  "task_set_affinity pid affinity s =
     (if affinity = 0 then Some (- 1, s)
      else do {
        s \<leftarrow> sched_lock s;
        case index_by_pid pid s of
          None \<Rightarrow> Some (- 1, sched_unlock s)
        | Some i \<Rightarrow> Some (0, sched_unlock (upd_info i (\<lambda>t. t\<lparr>ti_affinity := affinity\<rparr>) s)) })"

text \<open>One iteration of the loop of \<open>task_scheduler_tick\<close>.\<close>

definition tick_step :: "nat \<Rightarrow> nat \<Rightarrow> sched \<Rightarrow> sched" where
  "tick_step tick i s =
     (let s = (if state_of (tasks s ! i) = TASK_RUNNING
               then upd_info i (\<lambda>t. t\<lparr>ti_runtime_ticks := add64 (ti_runtime_ticks t) 1\<rparr>) s else s) in
      if state_of (tasks s ! i) = TASK_SLEEPING \<and> ti_wake_tick (tk_info (tasks s ! i)) \<le> tick
      then upd_stats (\<lambda>st. st\<lparr>ss_sleeping := sub32 (ss_sleeping st) 1, ss_ready := add32 (ss_ready st) 1\<rparr>)
        (set_state i TASK_READY s)
      else s)"

definition task_scheduler_tick :: "nat \<Rightarrow> sched \<Rightarrow> sched option" where
  "task_scheduler_tick tick s = do {
     s \<leftarrow> sched_lock s;
     Some (sched_unlock (fold (tick_step tick) [0 ..< TASK_MAX] s)) }"

definition task_current_pid :: "nat option \<Rightarrow> sched \<Rightarrow> nat" where
  "task_current_pid cpu s =
     (let index = current_task s ! local_cpu_id cpu in
      if index \<noteq> TASK_NO_CURRENT then ti_pid (tk_info (tasks s ! index)) else 0)"

definition task_reap :: "nat \<Rightarrow> sched \<Rightarrow> pmm \<Rightarrow> (int \<times> sched \<times> pmm) option" where
  "task_reap pid s p = do {
     s \<leftarrow> sched_lock s;
     case index_by_pid pid s of
       None \<Rightarrow> Some (- 1, sched_unlock s, p)
     | Some i \<Rightarrow>
         let t = tasks s ! i in
         if state_of t \<noteq> TASK_ZOMBIE then Some (- 1, sched_unlock s, p)
         else do {
           let s = upd_stats (\<lambda>st. st\<lparr>ss_zombies := sub32 (ss_zombies st) 1, ss_reaped := add64 (ss_reaped st) 1\<rparr>)
             (s\<lparr>tasks := (tasks s)[i := task_zero]\<rparr>);
           p \<leftarrow> pmm_free_pages (tk_stack_base t) (tk_stack_pages t) p;
           Some (0, sched_unlock s, p) } }"

definition task_count :: "sched \<Rightarrow> (nat \<times> sched) option" where
  "task_count s = do {
     s \<leftarrow> sched_lock s;
     Some (fold (\<lambda>i n. if state_of (tasks s ! i) \<noteq> TASK_UNUSED then n + 1 else n) [0 ..< TASK_MAX] 0, sched_unlock s) }"

fun task_list_loop :: "task_control_t list \<Rightarrow> nat \<Rightarrow> task_info_t list \<Rightarrow> task_info_t list" where
  "task_list_loop [] capacity result = result"
| "task_list_loop (t # ts) capacity result =
     (if length result < capacity
      then task_list_loop ts capacity (if state_of t \<noteq> TASK_UNUSED then result @ [tk_info t] else result)
      else result)"

text \<open>The entries written to the caller's array; a null array is \<open>None\<close>.\<close>

definition task_list :: "task_info_t list option \<Rightarrow> nat \<Rightarrow> sched \<Rightarrow> (nat \<times> task_info_t list \<times> sched) option" where
  "task_list result capacity s =
     (if result = None \<or> capacity = 0 then Some (0, [], s)
      else do {
        s \<leftarrow> sched_lock s;
        let r = task_list_loop (take TASK_MAX (tasks s)) capacity [];
        Some (length r, r, sched_unlock s) })"

definition task_scheduler_stats :: "sched \<Rightarrow> (scheduler_stats_t \<times> sched) option" where
  "task_scheduler_stats s = do { s \<leftarrow> sched_lock s; Some (scheduler_stats s, sched_unlock s) }"

text \<open>The enumeration as C sees it, and the names behind it.\<close>

definition task_state_code :: "task_state_t \<Rightarrow> nat" where
  "task_state_code state = (case state of TASK_UNUSED \<Rightarrow> 0 | TASK_RUNNING \<Rightarrow> 1 | TASK_READY \<Rightarrow> 2 | TASK_SLEEPING \<Rightarrow> 3
     | TASK_BLOCKED \<Rightarrow> 4 | TASK_STOPPED \<Rightarrow> 5 | TASK_ZOMBIE \<Rightarrow> 6)"

definition task_state_name :: "nat \<Rightarrow> string" where
  "task_state_name state =
     (if state \<le> 6 then [''UNUSED'', ''RUNNING'', ''READY'', ''SLEEPING'', ''BLOCKED'', ''STOPPED'', ''ZOMBIE''] ! state
      else ''INVALID'')"

end
