(* ===== verification/Best.thy ===== *)
theory Best
  imports Main
begin

section \<open>The best candidate of a scan\<close>

text \<open>
  Several tables are searched from front to back for the entry that is best by some key, a
  later one replacing an earlier one only if it is strictly better. Such a loop finds the
  first element with the greatest key among those that satisfy a predicate. The scheduler
  and the routing table use it.
\<close>

fun best_of :: "('a \<Rightarrow> bool) \<Rightarrow> ('a \<Rightarrow> 'k::linorder) \<Rightarrow> 'a list \<Rightarrow> 'a option \<Rightarrow> 'a option" where
  "best_of P key [] acc = acc"
| "best_of P key (x # xs) acc =
     best_of P key xs (if P x \<and> (case acc of None \<Rightarrow> True | Some y \<Rightarrow> key y < key x) then Some x else acc)"

lemma best_of_Some:
  "best_of P key xs (Some y) = Some z \<Longrightarrow>
     z = y \<and> (\<forall>x \<in> set xs. P x \<longrightarrow> key x \<le> key y) \<or>
     (\<exists>us vs. xs = us @ z # vs \<and> P z \<and> key y < key z \<and> (\<forall>x \<in> set us. P x \<longrightarrow> key x < key z) \<and>
       (\<forall>x \<in> set vs. P x \<longrightarrow> key x \<le> key z))"
proof (induction xs arbitrary: y)
  case (Cons x xs)
  show ?case
  proof (cases "P x \<and> key y < key x")
    case True
    then have "best_of P key xs (Some x) = Some z"
      using Cons.prems by simp
    from Cons.IH [OF this] show ?thesis
    proof (elim disjE exE conjE)
      assume "z = x" "\<forall>u \<in> set xs. P u \<longrightarrow> key u \<le> key x"
      then show ?thesis
        using True by (intro disjI2 exI [of _ "[]"] exI [of _ xs]) auto
    next
      fix us vs assume "xs = us @ z # vs" "P z" "key x < key z" "\<forall>u \<in> set us. P u \<longrightarrow> key u < key z"
        "\<forall>u \<in> set vs. P u \<longrightarrow> key u \<le> key z"
      then show ?thesis
        using True by (intro disjI2 exI [of _ "x # us"] exI [of _ vs]) auto
    qed
  next
    case False
    then have "best_of P key xs (Some y) = Some z"
      using Cons.prems by (simp split: if_splits)
    from Cons.IH [OF this] show ?thesis
    proof (elim disjE exE conjE)
      assume "z = y" "\<forall>u \<in> set xs. P u \<longrightarrow> key u \<le> key y"
      then show ?thesis
        using False by auto
    next
      fix us vs assume "xs = us @ z # vs" "P z" "key y < key z" "\<forall>u \<in> set us. P u \<longrightarrow> key u < key z"
        "\<forall>u \<in> set vs. P u \<longrightarrow> key u \<le> key z"
      then show ?thesis
        using False by (intro disjI2 exI [of _ "x # us"] exI [of _ vs]) auto
    qed
  qed
qed simp

lemma best_of_None: "best_of P key xs None = None \<longleftrightarrow> (\<forall>x \<in> set xs. \<not> P x)"
proof (induction xs)
  case (Cons x xs)
  have "best_of P key xs (Some x) \<noteq> None"
    by (induction xs arbitrary: x) auto
  then show ?case
    using Cons by auto
qed simp

lemma best_of_first:
  assumes "best_of P key xs None = Some z"
  shows "\<exists>us vs. xs = us @ z # vs \<and> P z \<and> (\<forall>x \<in> set us. P x \<longrightarrow> key x < key z) \<and> (\<forall>x \<in> set vs. P x \<longrightarrow> key x \<le> key z)"
  using assms
proof (induction xs)
  case (Cons x xs)
  show ?case
  proof (cases "P x")
    case True
    then have "best_of P key xs (Some x) = Some z"
      using Cons.prems by simp
    from best_of_Some [OF this] show ?thesis
    proof (elim disjE exE conjE)
      assume "z = x" "\<forall>u \<in> set xs. P u \<longrightarrow> key u \<le> key x"
      then show ?thesis
        using True by (intro exI [of _ "[]"] exI [of _ xs]) auto
    next
      fix us vs assume "xs = us @ z # vs" "P z" "key x < key z" "\<forall>u \<in> set us. P u \<longrightarrow> key u < key z"
        "\<forall>u \<in> set vs. P u \<longrightarrow> key u \<le> key z"
      then show ?thesis
        using True by (intro exI [of _ "x # us"] exI [of _ vs]) auto
    qed
  next
    case False
    then obtain us vs where "xs = us @ z # vs" "P z" "\<forall>x \<in> set us. P x \<longrightarrow> key x < key z" "\<forall>x \<in> set vs. P x \<longrightarrow> key x \<le> key z"
      using Cons by auto
    then show ?thesis
      using False by (intro exI [of _ "x # us"] exI [of _ vs]) auto
  qed
qed simp

end
