(* ===== verification/Crc32.thy ===== *)
theory Crc32
  imports Prelude
begin

section \<open>CRC-32\<close>

text \<open>
  The bitwise CRC of \<open>core/crc32.c\<close>, on a buffer given as a list of bytes (\<open>None\<close> is a null
  pointer). What its users rely on is the interface \<open>checksum\<close>: feeding a block in pieces is
  feeding it at once, and a change in one place is noticed.
\<close>

definition crc32_bit :: "u32 \<Rightarrow> u32" where
  "crc32_bit v = (let m = - (v AND 1) in drop_bit 1 v XOR (0xEDB88320 AND m))"

definition crc32_byte :: "u8 \<Rightarrow> u32 \<Rightarrow> u32" where
  "crc32_byte b v = (crc32_bit ^^ 8) (v XOR ucast b)"

definition crc32_update :: "u32 \<Rightarrow> bytes option \<Rightarrow> nat \<Rightarrow> u32" where
  "crc32_update previous data len =
     (case data of
        None \<Rightarrow> if len \<noteq> 0 then previous else NOT (NOT previous)
      | Some bs \<Rightarrow> NOT (fold crc32_byte (take len bs) (NOT previous)))"

definition crc32 :: "bytes option \<Rightarrow> nat \<Rightarrow> u32" where
  "crc32 data len = crc32_update 0 data len"

definition crc32_vector :: bytes where
  "crc32_vector = [49, 50, 51, 52, 53, 54, 55, 56, 57]"

definition crc32_self_test :: int where
  "crc32_self_test =
     (let split = crc32_update 0 (Some crc32_vector) 4;
          split = crc32_update split (Some (drop 4 crc32_vector)) 5 in
      if crc32 (Some crc32_vector) 9 \<noteq> 0xCBF43926 \<or> split \<noteq> 0xCBF43926 then - 1
      else if crc32 None 0 = 0 then 0 else - 1)"

subsection \<open>The interface\<close>

locale checksum =
  fixes update :: "'c \<Rightarrow> bytes \<Rightarrow> 'c"
  assumes update_nil: "update c [] = c"
    and update_append: "update c (xs @ ys) = update (update c xs) ys"
    and update_inj: "update c xs = update d xs \<Longrightarrow> c = d"
    and update_byte: "update c [a] = update c [b] \<Longrightarrow> a = b"
begin

lemma update_pieces: "fold (\<lambda>xs c. update c xs) xss c = update c (concat xss)"
  by (induction xss arbitrary: c) (simp_all add: update_nil update_append)

lemma single_byte_error:
  assumes "i < length xs" and "xs ! i \<noteq> b"
  shows "update c (xs[i := b]) \<noteq> update c xs"
proof
  assume eq: "update c (xs[i := b]) = update c xs"
  have split: "xs = take i xs @ [xs ! i] @ drop (Suc i) xs" "xs[i := b] = take i xs @ [b] @ drop (Suc i) xs"
    using assms(1) by (simp_all add: id_take_nth_drop [symmetric] upd_conv_take_nth_drop)
  have "update (update (update c (take i xs)) [b]) (drop (Suc i) xs) =
      update (update (update c (take i xs)) [xs ! i]) (drop (Suc i) xs)"
    using eq split by (metis update_append)
  then have "update (update c (take i xs)) [b] = update (update c (take i xs)) [xs ! i]"
    by (rule update_inj)
  then have "b = xs ! i"
    by (rule update_byte)
  with assms(2) show False
    by simp
qed

end

text \<open>
  One step shifts the low bit out, but the polynomial has its top bit set, so the top bit of
  the result tells what the low bit was: the step is injective.
\<close>

lemma xor_right_cancel: "a = b" if "a XOR c = b XOR c" for a b c :: u32
proof -
  have "(a XOR c) XOR c = (b XOR c) XOR c"
    using that by simp
  then show ?thesis
    by (simp add: xor.assoc)
qed

lemma crc32_bit_eq: "crc32_bit v = drop_bit 1 v XOR (if bit v 0 then 0xEDB88320 else 0)"
proof -
  have "v AND 1 = (if bit v 0 then 1 else 0)"
    by (simp add: and_one_eq mod_2_eq_odd bit_0)
  then show ?thesis
    by (simp add: crc32_bit_def Let_def)
qed

lemma crc32_bit_inj: "crc32_bit v = crc32_bit w \<Longrightarrow> v = w"
proof -
  assume eq: "crc32_bit v = crc32_bit w"
  have top: "bit (crc32_bit u) 31 \<longleftrightarrow> bit u 0" for u
  proof -
    have "\<not> bit u 32"
      using bit_imp_le_length [of u 32] by auto
    then have "bit (0xEDB88320 :: u32) 31" "\<not> bit (drop_bit 1 u) 31"
      by (simp_all add: bit_simps)
    then show ?thesis
      by (simp add: crc32_bit_eq bit_simps)
  qed
  have low: "bit v 0 \<longleftrightarrow> bit w 0"
    using top [of v] top [of w] eq by simp
  have "drop_bit 1 v XOR (if bit w 0 then 0xEDB88320 else 0) = drop_bit 1 w XOR (if bit w 0 then 0xEDB88320 else 0)"
    using eq unfolding crc32_bit_eq low .
  then have "drop_bit 1 v = drop_bit 1 w"
    by (rule xor_right_cancel)
  then have "bit v (Suc n) \<longleftrightarrow> bit w (Suc n)" for n
    by (metis bit_drop_bit_eq comp_apply plus_1_eq_Suc)
  then have "bit v n \<longleftrightarrow> bit w n" for n
    using low by (cases n) auto
  then show "v = w"
    by (simp add: bit_eq_iff)
qed

lemma crc32_bits_inj: "(crc32_bit ^^ n) v = (crc32_bit ^^ n) w \<Longrightarrow> v = w"
proof (induction n)
  case (Suc n)
  then have "(crc32_bit ^^ n) v = (crc32_bit ^^ n) w"
    by (simp add: crc32_bit_inj)
  then show ?case
    by (rule Suc.IH)
qed simp

lemma crc32_byte_inj: "crc32_byte b v = crc32_byte b w \<Longrightarrow> v = w"
  unfolding crc32_byte_def
  by (drule crc32_bits_inj) (rule xor_right_cancel)

lemma crc32_byte_inj_byte: "crc32_byte a v = crc32_byte b v \<Longrightarrow> a = b"
proof -
  assume "crc32_byte a v = crc32_byte b v"
  then have "v XOR ucast a = v XOR (ucast b :: u32)"
    unfolding crc32_byte_def by (rule crc32_bits_inj)
  then have "ucast a XOR v = ucast b XOR (v :: u32)"
    by (simp only: xor.commute)
  then have "(ucast a :: u32) = ucast b"
    by (rule xor_right_cancel)
  moreover have "unat (ucast c :: u32) = unat c" for c :: u8
    using unsigned_less [of c, where 'a = nat] by (simp add: unsigned_ucast_eq take_bit_nat_eq_self)
  ultimately have "unat a = unat b"
    by metis
  then show ?thesis
    by (rule unsigned_word_eqI)
qed

lemma fold_crc32_byte_inj: "fold crc32_byte xs v = fold crc32_byte xs w \<Longrightarrow> v = w"
proof (induction xs arbitrary: v w)
  case (Cons x xs)
  then have "fold crc32_byte xs (crc32_byte x v) = fold crc32_byte xs (crc32_byte x w)"
    by simp
  then have "crc32_byte x v = crc32_byte x w"
    by (rule Cons.IH)
  then show ?case
    by (rule crc32_byte_inj)
qed simp

text \<open>The whole buffer, as every user of the CRC feeds it.\<close>

definition crc32_all :: "u32 \<Rightarrow> bytes \<Rightarrow> u32" where
  "crc32_all c xs = crc32_update c (Some xs) (length xs)"

interpretation crc: checksum crc32_all
proof
  show "crc32_all c [] = c" for c
    by (simp add: crc32_all_def crc32_update_def)
  show "crc32_all c (xs @ ys) = crc32_all (crc32_all c xs) ys" for c xs ys
    by (simp add: crc32_all_def crc32_update_def)
  show "c = d" if "crc32_all c xs = crc32_all d xs" for c d xs
  proof -
    have "fold crc32_byte xs (NOT c) = fold crc32_byte xs (NOT d)"
      using that by (simp add: crc32_all_def crc32_update_def)
    then have "NOT c = NOT d"
      by (rule fold_crc32_byte_inj)
    then show ?thesis
      by simp
  qed
  show "a = b" if "crc32_all c [a] = crc32_all c [b]" for a b c
    using that crc32_byte_inj_byte by (simp add: crc32_all_def crc32_update_def)
qed

lemma crc32_update_take: "crc32_update c (Some xs) n = crc32_all c (take n xs)"
  by (simp add: crc32_all_def crc32_update_def min_def)

lemma crc32_byte_unfold:
  "crc32_byte b v = crc32_bit (crc32_bit (crc32_bit (crc32_bit (crc32_bit (crc32_bit (crc32_bit (crc32_bit
     (v XOR ucast b))))))))"
  by (simp add: crc32_byte_def eval_nat_numeral)

lemmas crc32_eval = crc32_def crc32_update_def crc32_byte_unfold crc32_bit_def

text \<open>
  C19. The CRC behaves as its users need. The value of a block does not depend on how it is
  cut into pieces, changing any single byte of a block changes its CRC, and the check vector
  of the self test has the value the CRC-32 standard prescribes, so the self test passes.
\<close>

theorem crc32_correct:
  "crc32_update (crc32_update c (Some xs) (length xs)) (Some ys) (length ys) = crc32_update c (Some (xs @ ys)) (length xs + length ys) \<and>
   (\<forall>i b. i < length xs \<and> xs ! i \<noteq> b \<longrightarrow> crc32 (Some (xs[i := b])) (length xs) \<noteq> crc32 (Some xs) (length xs)) \<and>
   crc32 (Some crc32_vector) 9 = 0xCBF43926 \<and> crc32_self_test = 0"
proof -
  have v: "crc32 (Some crc32_vector) 9 = 0xCBF43926"
    by (simp add: crc32_eval crc32_vector_def)
  moreover have "crc32_update (crc32_update 0 (Some crc32_vector) 4) (Some (drop 4 crc32_vector)) 5 = crc32 (Some crc32_vector) 9"
    by (simp add: crc32_def crc32_update_def crc32_vector_def)
  moreover have "crc32 None 0 = 0"
    by (simp add: crc32_def crc32_update_def)
  ultimately have "crc32_self_test = 0"
    unfolding crc32_self_test_def Let_def by simp
  moreover have "crc32 (Some (xs[i := b])) (length xs) \<noteq> crc32 (Some xs) (length xs)" if "i < length xs" "xs ! i \<noteq> b" for i b
    using crc.single_byte_error [OF that, of 0] by (simp add: crc32_def crc32_all_def)
  ultimately show ?thesis
    using v crc.update_append [of c xs ys] by (simp add: crc32_all_def)
qed

theorem crc32_correct_witness:
  "crc32 (Some ([1, 2][0 := 7])) (length [1, 2 :: u8]) \<noteq> crc32 (Some [1, 2]) (length [1, 2 :: u8])"
  using crc32_correct [of 0 "[1, 2]" "[]"] by (elim conjE allE [of _ 0] allE [of _ 7]) simp

end
