(* ===== verification/Sector.thy ===== *)
theory Sector
  imports Memory Util_Mem
begin

section \<open>Sector buffers\<close>

text \<open>
  The byte arrays the storage layers work on (a sector of 512 bytes, the directory of the
  file system) as lists of bytes, with the little-endian accessors that \<open>storage/block.c\<close> and
  \<open>fs/mvhfs.c\<close> both define, and the copy of a run of bytes into a larger array.
\<close>

definition load32 :: "bytes \<Rightarrow> nat \<Rightarrow> u32" where
  "load32 d i = ucast (d ! i) OR push_bit 8 (ucast (d ! (i + 1))) OR
     push_bit 16 (ucast (d ! (i + 2))) OR push_bit 24 (ucast (d ! (i + 3)))"

definition load64 :: "bytes \<Rightarrow> nat \<Rightarrow> u64" where
  "load64 d i = ucast (load32 d i) OR push_bit 32 (ucast (load32 d (i + 4)))"

definition store32 :: "bytes \<Rightarrow> nat \<Rightarrow> u32 \<Rightarrow> bytes" where
  "store32 d i v = d[i := ucast v, i + 1 := ucast (drop_bit 8 v), i + 2 := ucast (drop_bit 16 v),
     i + 3 := ucast (drop_bit 24 v)]"

definition store64 :: "bytes \<Rightarrow> nat \<Rightarrow> u64 \<Rightarrow> bytes" where
  "store64 d i v = store32 (store32 d i (ucast v)) (i + 4) (ucast (drop_bit 32 v))"

text \<open>\<open>for (k = 0; k < length(src); k++) d[i + k] = src[k];\<close>\<close>

fun put_bytes :: "bytes \<Rightarrow> nat \<Rightarrow> bytes \<Rightarrow> bytes" where
  "put_bytes d i [] = d"
| "put_bytes d i (b # bs) = put_bytes (d[i := b]) (i + 1) bs"

definition clear_bytes :: "bytes \<Rightarrow> nat \<Rightarrow> nat \<Rightarrow> bytes" where
  "clear_bytes d i n = put_bytes d i (replicate n 0)"

subsection \<open>The accessors as codecs\<close>

lemma length_store32 [simp]: "length (store32 d i v) = length d"
  by (simp add: store32_def)

lemma length_store64 [simp]: "length (store64 d i v) = length d"
  by (simp add: store64_def)

lemma nth_store32_other: "k < i \<or> i + 4 \<le> k \<Longrightarrow> store32 d i v ! k = d ! k"
  by (auto simp: store32_def)

lemma join_bytes_u32:
  "ucast (ucast v :: u8) OR push_bit 8 (ucast (ucast (drop_bit 8 v) :: u8)) OR
   push_bit 16 (ucast (ucast (drop_bit 16 v) :: u8)) OR push_bit 24 (ucast (ucast (drop_bit 24 v) :: u8)) = v"
  for v :: u32
proof (rule bit_word_eqI)
  fix n
  assume "n < LENGTH(32)"
  then consider "n < 8" | "8 \<le> n" "n < 16" | "16 \<le> n" "n < 24" | "24 \<le> n" "n < 32"
    by fastforce
  then show "bit (ucast (ucast v :: u8) OR push_bit 8 (ucast (ucast (drop_bit 8 v) :: u8)) OR
   push_bit 16 (ucast (ucast (drop_bit 16 v) :: u8)) OR push_bit 24 (ucast (ucast (drop_bit 24 v) :: u8)) :: u32) n = bit v n"
    by cases (auto simp: bit_simps)
qed

lemma load32_store32: "i + 4 \<le> length d \<Longrightarrow> load32 (store32 d i v) i = v"
  by (simp add: load32_def store32_def join_bytes_u32)

interpretation sec32: field_codec nth load32 store32 4 "\<lambda>d i. i + 4 \<le> length d"
proof
  show "load32 m a = load32 m' a" if "\<And>i. i < 4 \<Longrightarrow> m ! (a + i) = m' ! (a + i)" for m m' a
    using that [of 0] that [of 1] that [of 2] that [of 3] by (simp add: load32_def)
qed (auto simp: load32_store32 nth_store32_other)

lemma sec64_laws:
  "i + 8 \<le> length d \<Longrightarrow> load64 (store64 d i v) i = v"
  "k < i \<or> i + 8 \<le> k \<Longrightarrow> store64 d i v ! k = d ! k"
proof -
  show "load64 (store64 d i v) i = v" if "i + 8 \<le> length d"
    using that sec32.store_store_commute_load [of i d "i + 4" "ucast v" "ucast (drop_bit 32 v)"]
    by (simp add: load64_def store64_def join_halves_u64)
  show "store64 d i v ! k = d ! k" if "k < i \<or> i + 8 \<le> k"
    using that by (auto simp: store64_def nth_store32_other)
qed

interpretation sec64: field_codec nth load64 store64 8 "\<lambda>d i. i + 8 \<le> length d"
proof
  show "load64 m a = load64 m' a"
    if "a + 8 \<le> length m" "a + 8 \<le> length m'" and eq: "\<And>i. i < 8 \<Longrightarrow> m ! (a + i) = m' ! (a + i)" for m m' a
  proof -
    have "load32 m a = load32 m' a" "load32 m (a + 4) = load32 m' (a + 4)"
      using that eq by (auto intro!: sec32.load_bytes simp: add.assoc)
    then show ?thesis
      by (simp add: load64_def)
  qed
qed (auto simp: sec64_laws)

text \<open>Fields at disjoint offsets of one buffer, of either width.\<close>

lemma load32_store32_other [buf_simps]:
  "j + 4 \<le> length d \<Longrightarrow> j + 4 \<le> i \<or> i + 4 \<le> j \<Longrightarrow> load32 (store32 d i v) j = load32 d j"
  by (rule sec32.load_store_other)

lemma load64_store64_other [buf_simps]:
  "j + 8 \<le> length d \<Longrightarrow> j + 8 \<le> i \<or> i + 8 \<le> j \<Longrightarrow> load64 (store64 d i v) j = load64 d j"
  by (rule sec64.load_store_other)

lemma load32_store64_other [buf_simps]:
  "j + 4 \<le> length d \<Longrightarrow> j + 4 \<le> i \<or> i + 8 \<le> j \<Longrightarrow> load32 (store64 d i v) j = load32 d j"
  by (rule sec32.load_bytes) (auto simp: sec64_laws)

lemma load64_store32_other [buf_simps]:
  "j + 8 \<le> length d \<Longrightarrow> j + 8 \<le> i \<or> i + 4 \<le> j \<Longrightarrow> load64 (store32 d i v) j = load64 d j"
  by (rule sec64.load_bytes) (auto simp: nth_store32_other)

lemmas [buf_simps] = sec32.load_store sec64.load_store nth_store32_other sec64_laws(2)

subsection \<open>Runs of bytes\<close>

lemma length_put_bytes [simp]: "length (put_bytes d i bs) = length d"
  by (induction bs arbitrary: d i) simp_all

lemma put_bytes_eq: "i + length bs \<le> length d \<Longrightarrow> put_bytes d i bs = take i d @ bs @ drop (i + length bs) d"
proof (induction bs arbitrary: d i)
  case (Cons b bs)
  then have "put_bytes (d[i := b]) (i + 1) bs =
      take (i + 1) (d[i := b]) @ bs @ drop (i + 1 + length bs) (d[i := b])"
    by (intro Cons.IH) simp
  with Cons.prems show ?case
    by (simp add: take_Suc_conv_app_nth)
qed simp

lemma put_bytes_nth_other [buf_simps]: "k < i \<or> i + length bs \<le> k \<Longrightarrow> put_bytes d i bs ! k = d ! k"
  by (induction bs arbitrary: d i) auto

lemma load32_put_bytes_other [buf_simps]:
  "j + 4 \<le> length d \<Longrightarrow> j + 4 \<le> i \<or> i + length bs \<le> j \<Longrightarrow> load32 (put_bytes d i bs) j = load32 d j"
  by (rule sec32.load_bytes) (auto simp: put_bytes_nth_other)

lemma length_clear_bytes [simp]: "length (clear_bytes d i n) = length d"
  by (simp add: clear_bytes_def)

lemma clear_bytes_all: "clear_bytes d 0 (length d) = replicate (length d) 0"
  by (simp add: clear_bytes_def put_bytes_eq)

lemma load32_drop: "i + 4 + j \<le> length d \<Longrightarrow> load32 (drop i d) j = load32 d (i + j)"
  by (simp add: load32_def add.assoc)

end
