(* ===== verification/Block.thy ===== *)
theory Block
  imports Sync Crc32 Sector
begin

section \<open>The block layer\<close>

text \<open>
  The registry of block devices and the partition probe of \<open>storage/block.c\<close>. A driver is a
  pair of functions on the state of the hardware, of type \<open>'w\<close>, which the model leaves open:
  a read returns its status and the buffer it filled, a write its status. Buffers are lists
  of bytes, a null pointer is \<open>None\<close>. Numbers are naturals; the additions and subtractions that
  could wrap are written with their width.
\<close>

abbreviation BLOCK_DEVICE_MAX :: nat where "BLOCK_DEVICE_MAX \<equiv> 16"
abbreviation BLOCK_NAME_MAX :: nat where "BLOCK_NAME_MAX \<equiv> 24"

type_synonym 'w block_read_fn = "nat \<Rightarrow> nat \<Rightarrow> nat \<Rightarrow> bytes \<Rightarrow> 'w \<Rightarrow> int \<times> bytes \<times> 'w"
type_synonym 'w block_write_fn = "nat \<Rightarrow> nat \<Rightarrow> nat \<Rightarrow> bytes \<Rightarrow> 'w \<Rightarrow> int \<times> 'w"

record 'w block_device_t =
  bd_id :: nat
  bd_name :: bytes
  sector_size :: nat
  sector_count :: nat
  bd_writable :: nat
  bd_context :: nat
  bd_read :: "'w block_read_fn option"
  bd_write :: "'w block_write_fn option"

datatype partition_table_t = PARTITION_TABLE_NONE | PARTITION_TABLE_MBR | PARTITION_TABLE_GPT

record partition_info_t =
  pi_type :: partition_table_t
  partition_count :: nat
  protective_mbr :: nat
  gpt_header_valid :: nat
  gpt_entries_valid :: nat
  first_usable_lba :: nat
  last_usable_lba :: nat

record 'w block_layer =
  block_devices :: "nat \<Rightarrow> 'w block_device_t"
  block_device_count :: nat
  block_lock :: spinlock_t
  hardware :: 'w

fun block_copy_name :: "nat \<Rightarrow> bytes \<Rightarrow> bytes" where
  "block_copy_name index [] = []"
| "block_copy_name index (c # cs) =
     (if index + 1 < BLOCK_NAME_MAX then c # block_copy_name (index + 1) cs else [])"

definition block_init :: "'w block_layer \<Rightarrow> 'w block_layer" where
  "block_init s = s\<lparr>block_device_count := 0, block_lock := spinlock_init (block_lock s)\<rparr>"

definition block_unlock :: "'w block_layer \<Rightarrow> 'w block_layer" where
  "block_unlock s = s\<lparr>block_lock := spinlock_unlock (block_lock s)\<rparr>"

definition block_register ::
  "bytes option \<Rightarrow> nat \<Rightarrow> nat \<Rightarrow> nat \<Rightarrow> nat \<Rightarrow> 'w block_read_fn option \<Rightarrow> 'w block_write_fn option \<Rightarrow>
   'w block_layer \<Rightarrow> (int \<times> 'w block_layer) option" where
  "block_register name bytes_per_sector count writable ctx rd wr s =
     (if name = None \<or> name = Some [] \<or> Option.is_none rd \<or> bytes_per_sector < 512 \<or> bytes_per_sector AND (bytes_per_sector - 1) \<noteq> 0 \<or>
         count = 0 \<or> writable \<noteq> 0 \<and> Option.is_none wr
      then Some (- 1, s)
      else do {
        lock \<leftarrow> spinlock_lock (block_lock s);
        let s = s\<lparr>block_lock := lock\<rparr>;
        let dev = block_device_count s;
        if BLOCK_DEVICE_MAX \<le> dev then Some (- 1, block_unlock s)
        else
          let device = \<lparr>bd_id = dev, bd_name = block_copy_name 0 (the name), sector_size = bytes_per_sector,
                sector_count = count, bd_writable = writable, bd_context = ctx, bd_read = rd, bd_write = wr\<rparr>;
              s = s\<lparr>block_devices := (block_devices s)(dev := device), block_device_count := add32 dev 1\<rparr> in
          Some (int dev, block_unlock s) })"

definition block_count :: "'w block_layer \<Rightarrow> (nat \<times> 'w block_layer) option" where
  "block_count s = do {
     lock \<leftarrow> spinlock_lock (block_lock s);
     let s = s\<lparr>block_lock := lock\<rparr>;
     Some (block_device_count s, block_unlock s) }"

definition block_list ::
  "(nat \<Rightarrow> 'w block_device_t) option \<Rightarrow> nat \<Rightarrow> 'w block_layer \<Rightarrow>
   (nat \<times> (nat \<Rightarrow> 'w block_device_t) option \<times> 'w block_layer) option" where
  "block_list devices capacity s =
     (case devices of
        None \<Rightarrow> Some (0, devices, s)
      | Some ds \<Rightarrow>
        if capacity = 0 then Some (0, devices, s)
        else do {
          lock \<leftarrow> spinlock_lock (block_lock s);
          let s = s\<lparr>block_lock := lock\<rparr>;
          let count = (if block_device_count s < capacity then block_device_count s else capacity);
          let ds = fold (\<lambda>index ds. ds(index := block_devices s index)) [0..<count] ds;
          Some (count, Some ds, block_unlock s) })"

text \<open>\<open>block_get\<close> returns 0 and a copy of the device, or -1, here \<open>None\<close>.\<close>

definition block_get :: "nat \<Rightarrow> 'w block_layer \<Rightarrow> ('w block_device_t option \<times> 'w block_layer) option" where
  "block_get dev s = do {
     lock \<leftarrow> spinlock_lock (block_lock s);
     let s = s\<lparr>block_lock := lock\<rparr>;
     if block_device_count s \<le> dev then Some (None, block_unlock s)
     else Some (Some (block_devices s dev), block_unlock s) }"

text \<open>The buffer is what the caller passes; a call that fails before the driver leaves it alone.\<close>

definition block_read ::
  "nat \<Rightarrow> nat \<Rightarrow> nat \<Rightarrow> bytes option \<Rightarrow> 'w block_layer \<Rightarrow> (int \<times> bytes option \<times> 'w block_layer) option" where
  "block_read dev lba count buffer s =
     (if count = 0 \<or> buffer = None then Some (- 1, buffer, s)
      else do {
        (device, s) \<leftarrow> block_get dev s;
        case device of
          None \<Rightarrow> Some (- 1, buffer, s)
        | Some d \<Rightarrow>
          if sector_count d \<le> lba \<or> diff64 (sector_count d) lba < count then Some (- 1, buffer, s)
          else do {
            f \<leftarrow> bd_read d;
            let (r, data, w) = f (bd_context d) lba count (the buffer) (hardware s);
            Some (r, Some data, s\<lparr>hardware := w\<rparr>) } })"

definition block_write ::
  "nat \<Rightarrow> nat \<Rightarrow> nat \<Rightarrow> bytes option \<Rightarrow> 'w block_layer \<Rightarrow> (int \<times> 'w block_layer) option" where
  "block_write dev lba count buffer s =
     (if count = 0 \<or> buffer = None then Some (- 1, s)
      else do {
        (device, s) \<leftarrow> block_get dev s;
        case device of
          None \<Rightarrow> Some (- 1, s)
        | Some d \<Rightarrow>
          if bd_writable d = 0 \<or> Option.is_none (bd_write d) \<or> sector_count d \<le> lba \<or> diff64 (sector_count d) lba < count
          then Some (- 1, s)
          else let (r, w) = (the (bd_write d)) (bd_context d) lba count (the buffer) (hardware s) in
            Some (r, s\<lparr>hardware := w\<rparr>) })"

subsection \<open>Partition tables\<close>

text \<open>The type GUID of an entry: \<open>for (byte = 0; byte < 16; byte++) populated |= sector[offset + byte];\<close>.\<close>

definition entry_populated :: "bytes \<Rightarrow> nat \<Rightarrow> bool" where
  "entry_populated sector offset = (fold (\<lambda>byte p. p OR sector ! (offset + byte)) [0..<16] 0 \<noteq> (0 :: u8))"

function count_entries :: "bytes \<Rightarrow> nat \<Rightarrow> nat \<Rightarrow> nat \<Rightarrow> nat \<Rightarrow> nat" where
  "count_entries sector entry_size chunk offset populated =
     (if 0 < entry_size \<and> offset + entry_size \<le> chunk
      then count_entries sector entry_size chunk (offset + entry_size)
        (if entry_populated sector offset then populated + 1 else populated)
      else populated)"
  by auto
termination
  by (relation "measure (\<lambda>(sector, entry_size, chunk, offset, populated). chunk - offset)") auto

declare count_entries.simps [simp del]

text \<open>The loop over the sectors of the entry array; \<open>None\<close> is the early \<open>return -2\<close>.\<close>

fun gpt_entries ::
  "nat \<Rightarrow> nat \<Rightarrow> nat \<Rightarrow> nat \<Rightarrow> nat \<Rightarrow> nat \<Rightarrow> u32 \<Rightarrow> nat \<Rightarrow> bytes \<Rightarrow> 'w block_layer \<Rightarrow>
   ((u32 \<times> nat) option \<times> 'w block_layer) option" where
  "gpt_entries dev entry_lba entry_size 0 sector_index remaining crc populated sector s = Some (Some (crc, populated), s)"
| "gpt_entries dev entry_lba entry_size (Suc n) sector_index remaining crc populated sector s = do {
     let chunk = (if 512 < remaining then 512 else remaining);
     (r, buf, s) \<leftarrow> block_read dev (add64 entry_lba sector_index) 1 (Some sector) s;
     if r \<noteq> 0 then Some (None, s)
     else do {
       sector \<leftarrow> buf;
       gpt_entries dev entry_lba entry_size n (sector_index + 1) (remaining - chunk)
         (crc32_update crc (Some sector) chunk) (count_entries sector entry_size chunk 0 populated) sector s } }"

text \<open>The conditions on the header alone, before the checksum is compared.\<close>

definition gpt_header_ok :: "nat \<Rightarrow> bytes \<Rightarrow> bool" where
  "gpt_header_ok sectors header \<longleftrightarrow>
     \<not> (load32 header 8 \<noteq> 0x00010000 \<or> load32 header 12 < 92 \<or> 512 < load32 header 12 \<or>
        load32 header 20 \<noteq> 0 \<or> load64 header 24 \<noteq> 1 \<or> sectors \<le> unat (load64 header 32) \<or>
        load32 header 80 = 0 \<or> 128 < load32 header 80 \<or> load32 header 84 < 128 \<or>
        512 < load32 header 84 \<or> load32 header 84 AND 127 \<noteq> 0 \<or> 512 mod load32 header 84 \<noteq> 0)"

definition gpt_probe ::
  "nat \<Rightarrow> 'w block_device_t \<Rightarrow> bytes \<Rightarrow> partition_info_t \<Rightarrow> 'w block_layer \<Rightarrow>
   (int \<times> partition_info_t \<times> 'w block_layer) option" where
  "gpt_probe dev device header info s =
     (let entry_count = unat (load32 header 80);
          entry_size = unat (load32 header 84);
          entry_lba = unat (load64 header 72) in
      if \<not> gpt_header_ok (sector_count device) header then Some (- 2, info, s)
      else let info = info\<lparr>first_usable_lba := unat (load64 header 40), last_usable_lba := unat (load64 header 48)\<rparr> in
      if last_usable_lba info < first_usable_lba info \<or> sector_count device \<le> last_usable_lba info \<or>
         unat (load64 header 32) \<le> last_usable_lba info then Some (- 2, info, s)
      else if crc32 (Some (store32 header 16 0)) (unat (load32 header 12)) \<noteq> load32 header 16 then Some (- 2, info, s)
      else let info = info\<lparr>gpt_header_valid := 1\<rparr>;
               entry_bytes = entry_count * entry_size;
               entry_sectors = (entry_bytes + 511) div 512 in
      if entry_lba \<le> 1 \<or> first_usable_lba info \<le> entry_lba \<or> sector_count device \<le> entry_lba \<or>
         diff64 (sector_count device) entry_lba < entry_sectors \<or> diff64 (first_usable_lba info) entry_lba < entry_sectors
      then Some (- 2, info, s)
      else do {
        (res, s) \<leftarrow> gpt_entries dev entry_lba entry_size entry_sectors 0 entry_bytes 0 0 (replicate 512 0) s;
        case res of
          None \<Rightarrow> Some (- 2, info, s)
        | Some (crc, populated) \<Rightarrow>
          if crc \<noteq> load32 header 88 then Some (- 2, info, s)
          else Some (0, info\<lparr>gpt_entries_valid := 1, pi_type := PARTITION_TABLE_GPT, partition_count := populated\<rparr>, s) })"

definition partition_info_zero :: partition_info_t where
  "partition_info_zero = \<lparr>pi_type = PARTITION_TABLE_NONE, partition_count = 0, protective_mbr = 0,
     gpt_header_valid = 0, gpt_entries_valid = 0, first_usable_lba = 0, last_usable_lba = 0\<rparr>"

definition mbr_protective :: "bytes \<Rightarrow> bool" where
  "mbr_protective sector = list_ex (\<lambda>index. sector ! (446 + index * 16 + 4) = 0xEE) [0..<4]"

definition mbr_count :: "bytes \<Rightarrow> nat" where
  "mbr_count sector = length (filter (\<lambda>index. sector ! (446 + index * 16 + 4) \<noteq> 0 \<and>
     load32 sector (446 + index * 16 + 12) \<noteq> 0) [0..<4])"

definition partition_probe ::
  "nat \<Rightarrow> partition_info_t option \<Rightarrow> 'w block_layer \<Rightarrow> (int \<times> partition_info_t option \<times> 'w block_layer) option" where
  "partition_probe dev info s =
     (if info = None then Some (- 1, info, s)
      else do {
        (device, s) \<leftarrow> block_get dev s;
        case device of
          None \<Rightarrow> Some (- 1, info, s)
        | Some d \<Rightarrow>
          if sector_size d \<noteq> 512 then Some (- 1, info, s)
          else do {
            (r, buf, s) \<leftarrow> block_read dev 0 1 (Some (replicate 512 0)) s;
            if r \<noteq> 0 then Some (- 1, info, s)
            else do {
              sector \<leftarrow> buf;
              let i = partition_info_zero;
              if sector ! 510 \<noteq> 0x55 \<or> sector ! 511 \<noteq> 0xAA then Some (0, Some i, s)
              else if mbr_protective sector then do {
                let i = i\<lparr>protective_mbr := 1\<rparr>;
                (r, buf, s) \<leftarrow> block_read dev 1 1 (Some sector) s;
                if r \<noteq> 0 then Some (- 2, Some i, s)
                else do {
                  sector \<leftarrow> buf;
                  if load64 sector 0 \<noteq> 0x5452415020494645 then Some (- 2, Some i, s)
                  else do {
                    (r, i, s) \<leftarrow> gpt_probe dev d sector i s;
                    Some (r, Some i, s) } } }
              else Some (0, Some (i\<lparr>pi_type := PARTITION_TABLE_MBR, partition_count := mbr_count sector,
                protective_mbr := 0\<rparr>), s) } } })"

definition partition_table_name :: "partition_table_t \<Rightarrow> string" where
  "partition_table_name type =
     (if type = PARTITION_TABLE_MBR then ''MBR''
      else if type = PARTITION_TABLE_GPT then ''GPT'' else ''none'')"

subsection \<open>The self test\<close>

text \<open>
  The self test probes a disk of eight sectors in an array. Its driver is \<open>test_read\<close>; the array
  is the hardware of that device, so here \<open>'w\<close> is the array.
\<close>

definition test_read :: "bytes block_read_fn" where
  "test_read ctx lba count buffer test_disk =
     (if 8 \<le> lba \<or> diff64 8 lba < count then (- 1, buffer, test_disk)
      else (0, put_bytes buffer 0 (take (count * 512) (drop (lba * 512) test_disk)), test_disk))"

definition test_image :: bytes where
  "test_image =
     (let d = replicate 4096 0;
          d = d[446 + 4 := 0xEE, 446 + 12 := 1, 510 := 0x55, 511 := 0xAA];
          d = store64 d 512 0x5452415020494645;
          d = store32 d (512 + 8) 0x00010000;
          d = store32 d (512 + 12) 92;
          d = store64 d (512 + 24) 1;
          d = store64 d (512 + 32) 7;
          d = store64 d (512 + 40) 3;
          d = store64 d (512 + 48) 6;
          d = store64 d (512 + 72) 2;
          d = store32 d (512 + 80) 4;
          d = store32 d (512 + 84) 128;
          d = d[1024 := 0x28];
          d = store32 d (512 + 88) (crc32 (Some (drop 1024 d)) 512) in
      store32 d (512 + 16) (crc32 (Some (drop 512 d)) 92))"

text \<open>The first probe must find the table, and reads and writes outside must fail.\<close>

definition self_test_finds :: "nat \<Rightarrow> bytes block_layer \<Rightarrow> (bool \<times> bytes block_layer) option" where
  "self_test_finds dev s = do {
     (r, info, s) \<leftarrow> partition_probe dev (Some partition_info_zero) s;
     i \<leftarrow> info;
     (r8, scratch, s) \<leftarrow> block_read dev 8 1 (Some (replicate 512 0)) s;
     (w0, s) \<leftarrow> block_write dev 0 1 scratch s;
     Some (r = 0 \<and> pi_type i = PARTITION_TABLE_GPT \<and> partition_count i = 1 \<and> gpt_header_valid i \<noteq> 0 \<and>
       gpt_entries_valid i \<noteq> 0 \<and> first_usable_lba i = 3 \<and> last_usable_lba i = 6 \<and>
       protective_mbr i \<noteq> 0 \<and> r8 \<noteq> 0 \<and> w0 \<noteq> 0, s) }"

text \<open>A probe after the array was changed must return \<open>-2\<close>.\<close>

definition self_test_rejects :: "nat \<Rightarrow> (bytes \<Rightarrow> bytes) \<Rightarrow> bytes block_layer \<Rightarrow> (bool \<times> bytes block_layer) option" where
  "self_test_rejects dev change s = do {
     (r, info, s) \<leftarrow> partition_probe dev (Some partition_info_zero) (s\<lparr>hardware := change (hardware s)\<rparr>);
     Some (r = - 2, s) }"

definition flip_entry :: "bytes \<Rightarrow> bytes" where
  "flip_entry d = d[1024 + 16 := d ! (1024 + 16) XOR 1]"

definition self_test_mbr :: "nat \<Rightarrow> bytes block_layer \<Rightarrow> (bool \<times> bytes block_layer) option" where
  "self_test_mbr dev s = do {
     let d = put_bytes ((hardware s)[446 + 4 := 0x83]) 512 (replicate 8 0);
     (r, info, s) \<leftarrow> partition_probe dev (Some partition_info_zero) (s\<lparr>hardware := d\<rparr>);
     i \<leftarrow> info;
     Some (r = 0 \<and> pi_type i = PARTITION_TABLE_MBR \<and> partition_count i = 1 \<and> protective_mbr i = 0, s) }"

definition block_self_test :: "bytes block_layer \<Rightarrow> (int \<times> bytes block_layer) option" where
  "block_self_test s = do {
     (before, s) \<leftarrow> block_count s;
     (dev, s) \<leftarrow> block_register (Some [115, 101, 108, 102, 116, 101, 115, 116]) 512 8 0 0 (Some test_read) None
       (s\<lparr>hardware := test_image\<rparr>);
     (ok, s) \<leftarrow> (if 0 \<le> dev then self_test_finds (nat dev) s else Some (False, s));
     (ok, s) \<leftarrow> (if \<not> ok then Some (False, s)
       else do {
         (rejected, s) \<leftarrow> self_test_rejects (nat dev) flip_entry s;
         let s = s\<lparr>hardware := flip_entry (hardware s)\<rparr>;
         if \<not> rejected then Some (False, s)
         else do {
           (rejected, s) \<leftarrow> self_test_rejects (nat dev) (\<lambda>d. d[512 + 20 := 1]) s;
           Some (rejected, s\<lparr>hardware := (hardware s)[512 + 20 := 0]\<rparr>) } });
     (ok, s) \<leftarrow> (if ok then self_test_mbr (nat dev) s else Some (False, s));
     lock \<leftarrow> spinlock_lock (block_lock s);
     let s = s\<lparr>block_lock := lock, block_device_count := before\<rparr>;
     Some (if ok then 0 else - 1, block_unlock s) }"

end
