(* ===== verification/Block_Props.thy ===== *)
theory Block_Props
  imports Block
begin

section \<open>Correctness of the block layer\<close>

text \<open>
  The registry keeps its invariant and no request outside a device reaches its driver. For a
  driver that delivers the sectors of a disk, the partition probe accepts exactly the disks
  with a valid GUID partition table. What the laws of a driver are is said by
  \<open>reads_sectors\<close> and \<open>writes_sectors\<close>.
\<close>

definition device_ok :: "nat \<Rightarrow> 'w block_device_t \<Rightarrow> bool" where
  "device_ok i d \<longleftrightarrow> bd_id d = i \<and> 512 \<le> sector_size d \<and> sector_size d AND (sector_size d - 1) = 0 \<and>
     0 < sector_count d \<and> bd_read d \<noteq> None \<and> (bd_writable d \<noteq> 0 \<longrightarrow> bd_write d \<noteq> None) \<and>
     bd_name d \<noteq> [] \<and> length (bd_name d) < BLOCK_NAME_MAX"

definition block_ok :: "'w block_layer \<Rightarrow> bool" where
  "block_ok s \<longleftrightarrow> sl_state (block_lock s) = 0 \<and> block_device_count s \<le> BLOCK_DEVICE_MAX \<and>
     (\<forall>i < block_device_count s. device_ok i (block_devices s i))"

text \<open>What a driver does: it delivers sectors, and a write either happens or fails without effect on others.\<close>

definition full_sectors :: "nat \<Rightarrow> (nat \<Rightarrow> bytes) \<Rightarrow> bool" where
  "full_sectors n D \<longleftrightarrow> (\<forall>lba < n. length (D lba) = 512)"

definition reads_sectors :: "'w block_read_fn \<Rightarrow> nat \<Rightarrow> nat \<Rightarrow> ('w \<Rightarrow> nat \<Rightarrow> bytes) \<Rightarrow> bool" where
  "reads_sectors f ctx n sec \<longleftrightarrow>
     (\<forall>lba buf w. lba < n \<and> length buf = 512 \<and> full_sectors n (sec w) \<longrightarrow>
        (case f ctx lba 1 buf w of (r, data, w') \<Rightarrow> r = 0 \<and> data = sec w lba \<and> sec w' = sec w))"

definition writes_sectors :: "'w block_write_fn \<Rightarrow> nat \<Rightarrow> nat \<Rightarrow> ('w \<Rightarrow> nat \<Rightarrow> bytes) \<Rightarrow> bool" where
  "writes_sectors f ctx n sec \<longleftrightarrow>
     (\<forall>lba data w. lba < n \<and> length data = 512 \<and> full_sectors n (sec w) \<longrightarrow>
        (case f ctx lba 1 data w of (r, w') \<Rightarrow> sec w' = (sec w)(lba := data) \<or> r \<noteq> 0 \<and> sec w' = sec w))"

definition disk_device :: "nat \<Rightarrow> ('w \<Rightarrow> nat \<Rightarrow> bytes) \<Rightarrow> 'w block_layer \<Rightarrow> bool" where
  "disk_device dev sec s \<longleftrightarrow> block_ok s \<and> dev < block_device_count s \<and>
     (let d = block_devices s dev; n = sector_count d in
        n < 2 ^ 64 \<and> full_sectors n (sec (hardware s)) \<and> reads_sectors (the (bd_read d)) (bd_context d) n sec)"

subsection \<open>The registry\<close>

lemma block_unlock_id: "sl_state (block_lock s) = 0 \<Longrightarrow>
    block_unlock (s\<lparr>block_lock := (block_lock s)\<lparr>sl_state := 1\<rparr>\<rparr>) = s"
  by (simp add: block_unlock_def spinlock_unlock_def atomic_defs)

lemma block_get_eq:
  "block_ok s \<Longrightarrow> block_get dev s = Some (if dev < block_device_count s then Some (block_devices s dev) else None, s)"
  by (simp add: block_get_def block_ok_def block_unlock_id)

lemma block_read_eq:
  assumes "block_ok s"
  shows "block_read dev lba count (Some buf) s =
    (if 0 < count \<and> dev < block_device_count s \<and> lba + count \<le> sector_count (block_devices s dev)
     then let d = block_devices s dev; (r, data, w) = (the (bd_read d)) (bd_context d) lba count buf (hardware s) in
       Some (r, Some data, s\<lparr>hardware := w\<rparr>)
     else Some (- 1, Some buf, s))"
proof (cases "0 < count \<and> dev < block_device_count s")
  case True
  then obtain f where "bd_read (block_devices s dev) = Some f"
    using assms by (auto simp: block_ok_def device_ok_def)
  then show ?thesis
    using True assms by (auto simp: block_read_def block_get_eq diff64_def Let_def split: prod.splits)
next
  case False
  then show ?thesis
    using assms by (auto simp: block_read_def block_get_eq)
qed

lemma block_write_eq:
  assumes "block_ok s"
  shows "block_write dev lba count (Some buf) s =
    (if 0 < count \<and> dev < block_device_count s \<and> bd_writable (block_devices s dev) \<noteq> 0 \<and>
        lba + count \<le> sector_count (block_devices s dev)
     then let d = block_devices s dev; (r, w) = (the (bd_write d)) (bd_context d) lba count buf (hardware s) in
       Some (r, s\<lparr>hardware := w\<rparr>)
     else Some (- 1, s))"
proof (cases "0 < count \<and> dev < block_device_count s")
  case True
  then have "bd_writable (block_devices s dev) \<noteq> 0 \<Longrightarrow> \<not> Option.is_none (bd_write (block_devices s dev))"
    using assms by (auto simp: block_ok_def device_ok_def)
  then show ?thesis
    using True assms by (auto simp: block_write_def block_get_eq diff64_def Let_def split: prod.splits)
next
  case False
  then show ?thesis
    using assms by (auto simp: block_write_def block_get_eq)
qed

lemma block_copy_name_props:
  "index < BLOCK_NAME_MAX \<Longrightarrow> index + length (block_copy_name index cs) < BLOCK_NAME_MAX"
  "block_copy_name index cs = take (BLOCK_NAME_MAX - 1 - index) cs"
  by (induction index cs rule: block_copy_name.induct) (auto simp: take_Cons')

lemma block_register_ok:
  assumes ok: "block_ok s"
  shows "\<exists>r s'. block_register name bps count writable ctx rd wr s = Some (r, s') \<and> block_ok s' \<and>
      (if name = None \<or> name = Some [] \<or> rd = None \<or> bps < 512 \<or> bps AND (bps - 1) \<noteq> 0 \<or> count = 0 \<or>
          writable \<noteq> 0 \<and> wr = None \<or> block_device_count s = BLOCK_DEVICE_MAX
       then r = - 1 \<and> s' = s
       else r = int (block_device_count s) \<and> block_device_count s' = block_device_count s + 1 \<and>
         (\<forall>i. i \<noteq> block_device_count s \<longrightarrow> block_devices s' i = block_devices s i) \<and>
         sector_count (block_devices s' (block_device_count s)) = count)"
proof (cases "name = None \<or> name = Some [] \<or> rd = None \<or> bps < 512 \<or> bps AND (bps - 1) \<noteq> 0 \<or> count = 0 \<or>
    writable \<noteq> 0 \<and> wr = None")
  case True
  then show ?thesis
    using ok by (auto simp: block_register_def)
next
  case False
  then obtain c cs where "name = Some (c # cs)"
    by (metis neq_Nil_conv not_None_eq)
  moreover have "length (block_copy_name 0 (c # cs)) < BLOCK_NAME_MAX"
    using block_copy_name_props(1) [of 0 "c # cs"] by simp
  ultimately show ?thesis
    using ok False by (auto simp: block_register_def block_ok_def block_unlock_def spinlock_unlock_def atomic_defs device_ok_def Let_def wrap_simps less_Suc_eq)
qed

text \<open>
  C31. The block layer is safe. Registering a device keeps the registry well formed and either
  refuses the arguments, leaving everything as it was, or appends the device without touching
  the others; it refuses exactly invalid arguments and a full table. A read or write reaches
  the driver exactly when the device exists, the request is not empty and lies within the
  device, computed without overflow, and for a write the device is writable; in every other
  case the call returns -1 and neither the buffer nor the hardware changes.
\<close>

theorem block_layer_safe:
  assumes ok: "block_ok s"
  shows "(\<exists>r s'. block_register name bps count writable ctx rd wr s = Some (r, s') \<and> block_ok s' \<and>
      (if name = None \<or> name = Some [] \<or> rd = None \<or> bps < 512 \<or> bps AND (bps - 1) \<noteq> 0 \<or> count = 0 \<or>
          writable \<noteq> 0 \<and> wr = None \<or> block_device_count s = BLOCK_DEVICE_MAX
       then r = - 1 \<and> s' = s
       else r = int (block_device_count s) \<and> block_device_count s' = block_device_count s + 1 \<and>
         (\<forall>i. i \<noteq> block_device_count s \<longrightarrow> block_devices s' i = block_devices s i) \<and>
         sector_count (block_devices s' (block_device_count s)) = count)) \<and>
    block_read dev lba n (Some buf) s =
      (if 0 < n \<and> dev < block_device_count s \<and> lba + n \<le> sector_count (block_devices s dev)
       then let d = block_devices s dev; (r, data, w) = (the (bd_read d)) (bd_context d) lba n buf (hardware s) in
         Some (r, Some data, s\<lparr>hardware := w\<rparr>)
       else Some (- 1, Some buf, s)) \<and>
    block_write dev lba n (Some buf) s =
      (if 0 < n \<and> dev < block_device_count s \<and> bd_writable (block_devices s dev) \<noteq> 0 \<and>
          lba + n \<le> sector_count (block_devices s dev)
       then let d = block_devices s dev; (r, w) = (the (bd_write d)) (bd_context d) lba n buf (hardware s) in
         Some (r, s\<lparr>hardware := w\<rparr>)
       else Some (- 1, s))"
  using block_register_ok [OF ok] block_read_eq [OF ok] block_write_eq [OF ok] by (intro conjI)

text \<open>A device without sectors of its own: it reports success and does nothing.\<close>

definition null_layer :: "unit block_layer" where
  "null_layer = \<lparr>block_devices = (\<lambda>i. \<lparr>bd_id = i, bd_name = [110], sector_size = 512, sector_count = 8, bd_writable = 1,
     bd_context = 0, bd_read = Some (\<lambda>ctx lba n buf w. (0, buf, w)), bd_write = Some (\<lambda>ctx lba n buf w. (0, w))\<rparr>),
     block_device_count = 1, block_lock = \<lparr>sl_state = 0\<rparr>, hardware = ()\<rparr>"

theorem block_layer_safe_witness:
  "block_ok null_layer \<and> block_read 0 7 2 (Some [1]) null_layer = Some (- 1, Some [1], null_layer) \<and>
   block_write 0 6 2 (Some [1]) null_layer = Some (0, null_layer)"
proof -
  have ok: "block_ok null_layer"
    by (simp add: block_ok_def device_ok_def null_layer_def)
  from block_layer_safe [OF this, of None 0 0 0 0 None None 0 7 2 "[1]"]
    block_layer_safe [OF this, of None 0 0 0 0 None None 0 6 2 "[1]"] ok
  show ?thesis
    by (simp add: null_layer_def)
qed

subsection \<open>Reading the sectors of a disk\<close>

lemma reads_sectorsD:
  assumes "reads_sectors f ctx n sec" and "lba < n" "length buf = 512" "full_sectors n (sec w)"
    and "f ctx lba 1 buf w = (r, data, w')"
  shows "r = 0 \<and> data = sec w lba \<and> sec w' = sec w"
proof -
  have "lba < n \<and> length buf = 512 \<and> full_sectors n (sec w)"
    using assms by simp
  from assms(1) [unfolded reads_sectors_def, rule_format, OF this] show ?thesis
    using assms(5) by auto
qed

lemma disk_read_sector:
  assumes "disk_device dev sec s" and "lba < sector_count (block_devices s dev)" and "length buf = 512"
  obtains w where "block_read dev lba 1 (Some buf) s = Some (0, Some (sec (hardware s) lba), s\<lparr>hardware := w\<rparr>)"
    and "sec w = sec (hardware s)"
proof -
  obtain r data w where "the (bd_read (block_devices s dev)) (bd_context (block_devices s dev)) lba 1 buf (hardware s) = (r, data, w)"
    by (metis prod_cases3)
  moreover from this have "r = 0 \<and> data = sec (hardware s) lba \<and> sec w = sec (hardware s)"
    using assms reads_sectorsD [of "the (bd_read (block_devices s dev))"]
    by (simp only: disk_device_def Let_def) blast
  ultimately show ?thesis
    using assms by (intro that [of w]) (auto simp: block_read_eq disk_device_def)
qed

lemma block_ok_hardware [simp]: "block_ok (s\<lparr>hardware := w\<rparr>) = block_ok s"
  by (simp add: block_ok_def)

lemma disk_device_hardware: "sec w = sec (hardware s) \<Longrightarrow> disk_device dev sec (s\<lparr>hardware := w\<rparr>) = disk_device dev sec s"
  by (simp add: disk_device_def)

lemma disk_sector_length:
  "disk_device dev sec s \<Longrightarrow> lba < sector_count (block_devices s dev) \<Longrightarrow> length (sec (hardware s) lba) = 512"
  by (simp add: disk_device_def full_sectors_def Let_def)

subsection \<open>The entry array\<close>

definition entry_array :: "(nat \<Rightarrow> bytes) \<Rightarrow> nat \<Rightarrow> nat \<Rightarrow> bytes" where
  "entry_array D lba n = concat (map D [lba..<lba + n])"

definition entry_used :: "bytes \<Rightarrow> nat \<Rightarrow> bool" where
  "entry_used a offset \<longleftrightarrow> (\<exists>k < 16. a ! (offset + k) \<noteq> 0)"

definition used_entries :: "bytes \<Rightarrow> nat \<Rightarrow> nat \<Rightarrow> nat" where
  "used_entries a entry_size n = length (filter (\<lambda>i. entry_used a (i * entry_size)) [0..<n])"

lemma entry_populated_iff: "entry_populated a offset \<longleftrightarrow> entry_used a offset"
proof -
  have "fold (\<lambda>byte p. p OR a ! (offset + byte)) ks c \<noteq> 0 \<longleftrightarrow> c \<noteq> 0 \<or> (\<exists>k \<in> set ks. a ! (offset + k) \<noteq> 0)" for ks c
    by (induction ks arbitrary: c) (auto simp: or_eq_0_iff)
  from this [of "[0..<16]" 0] show ?thesis
    unfolding entry_populated_def entry_used_def by (simp only: set_upt) auto
qed

lemma count_entries_eq:
  assumes "0 < sz" and "chunk = (i + n) * sz"
  shows "count_entries a sz chunk (i * sz) p = p + length (filter (\<lambda>k. entry_used a (k * sz)) [i..<i + n])"
  using assms(2)
proof (induction n arbitrary: i p)
  case 0
  then show ?case
    using assms(1) by (subst count_entries.simps) simp
next
  case (Suc n)
  have "count_entries a sz chunk (Suc i * sz) q = q + length (filter (\<lambda>k. entry_used a (k * sz)) [Suc i..<Suc i + n])" for q
    by (rule Suc.IH) (simp add: Suc.prems)
  moreover have "i * sz + sz \<le> chunk"
    by (simp add: Suc.prems algebra_simps)
  moreover have "[i..<i + Suc n] = i # [Suc i..<Suc i + n]"
    by (simp add: upt_conv_Cons del: upt_Suc)
  ultimately show ?case
    using assms(1) by (subst count_entries.simps) (simp add: entry_populated_iff add.commute del: upt_Suc)
qed

lemma count_entries_sector: "0 < sz \<Longrightarrow> count_entries a sz (n * sz) 0 p = p + used_entries a sz n"
  using count_entries_eq [of sz "n * sz" 0 n a p] by (simp add: used_entries_def)

lemma used_entries_append:
  assumes "length a = q * sz" and "16 \<le> sz"
  shows "used_entries (a @ b) sz (q + n) = used_entries a sz q + used_entries b sz n"
proof -
  have "entry_used (a @ b) (i * sz) = entry_used a (i * sz)" if "i < q" for i
  proof -
    have "i * sz + sz \<le> q * sz"
      using mult_le_mono1 [of "Suc i" q sz] that by simp
    then have "i * sz + k < length a" if "k < 16" for k
      using assms that by linarith
    then show ?thesis
      by (simp add: entry_used_def nth_append cong: conj_cong)
  qed
  then have "filter (\<lambda>i. entry_used (a @ b) (i * sz)) [0..<q] = filter (\<lambda>i. entry_used a (i * sz)) [0..<q]"
    by (intro filter_cong) auto
  moreover have "entry_used (a @ b) ((q + i) * sz) = entry_used b (i * sz)" for i
    using assms(1) by (simp add: entry_used_def nth_append algebra_simps)
  moreover have "[q..<q + n] = map (\<lambda>i. q + i) [0..<n]"
    by (simp add: map_add_upt add.commute)
  ultimately show ?thesis
    by (simp add: used_entries_def upt_add_eq_append [of 0] filter_map o_def)
qed

lemma used_entries_take: "n * sz \<le> m \<Longrightarrow> 16 \<le> sz \<Longrightarrow> used_entries (take m a) sz n = used_entries a sz n"
proof -
  assume "n * sz \<le> m" "16 \<le> sz"
  have "entry_used (take m a) (i * sz) = entry_used a (i * sz)" if "i < n" for i
  proof -
    have "i * sz + sz \<le> n * sz"
      using mult_le_mono1 [of "Suc i" n sz] that by simp
    then have "i * sz + k < m" if "k < 16" for k
      using \<open>n * sz \<le> m\<close> \<open>16 \<le> sz\<close> that by linarith
    then show ?thesis
      by (simp add: entry_used_def cong: conj_cong)
  qed
  then show ?thesis
    unfolding used_entries_def by (intro arg_cong [of _ _ length] filter_cong) auto
qed

lemma entry_array_Suc: "entry_array D l (Suc n) = D l @ entry_array D (Suc l) n"
  by (simp add: entry_array_def upt_conv_Cons del: upt_Suc)

lemma length_entry_array:
  "(\<And>l. lba \<le> l \<Longrightarrow> l < lba + n \<Longrightarrow> length (D l) = 512) \<Longrightarrow> length (entry_array D lba n) = 512 * n"
proof (induction n arbitrary: lba)
  case (Suc n)
  then show ?case
    using Suc.IH [of "Suc lba"] by (simp add: entry_array_Suc)
qed (simp add: entry_array_def)

lemma used_entries_prefix:
  assumes "m * sz \<le> length a" and "16 \<le> sz"
  shows "used_entries (a @ b) sz m = used_entries a sz m"
  using assms used_entries_take [of m sz "m * sz" "a @ b"] used_entries_take [of m sz "m * sz" a] by simp

text \<open>One round of the loop, on the checksum and on the count, for an array of \<open>m\<close> entries.\<close>

lemma gpt_chunk:
  assumes sz: "16 \<le> sz" "512 = q * sz" and a: "length a = 512" and rem: "m * sz \<le> 512 + length b"
  defines "chunk \<equiv> if 512 < m * sz then 512 else m * sz"
  shows "\<exists>k. m * sz - chunk = k * sz \<and> k * sz \<le> length b \<and>
    crc32_all (crc32_update crc (Some a) chunk) (take (k * sz) b) = crc32_all crc (take (m * sz) (a @ b)) \<and>
    count_entries a sz chunk 0 p + used_entries b sz k = p + used_entries (a @ b) sz m"
proof (cases "512 < m * sz")
  case True
  then have "q * sz < m * sz"
    using sz(2) by linarith
  then obtain k where k: "m = q + k"
    using less_imp_add_positive by (metis mult_less_cancel2)
  have ksz: "m * sz = 512 + k * sz"
    by (simp add: k sz(2) algebra_simps)
  have "crc32_all crc (take (m * sz) (a @ b)) = crc32_all (crc32_all crc a) (take (k * sz) b)"
    using a by (simp add: ksz crc.update_append)
  moreover have "crc32_update crc (Some a) 512 = crc32_all crc a"
    using a by (simp add: crc32_update_take)
  moreover have "count_entries a sz 512 0 p = p + used_entries a sz q"
    using count_entries_sector [of sz a q p] sz by simp
  moreover have "used_entries (a @ b) sz m = used_entries a sz q + used_entries b sz k"
    using used_entries_append [of a q sz b k] a sz k by simp
  ultimately show ?thesis
    using True rem a by (intro exI [of _ k]) (simp add: chunk_def ksz)
next
  case False
  have "crc32_update crc (Some a) (m * sz) = crc32_all crc (take (m * sz) (a @ b))"
    using False a by (simp add: crc32_update_take)
  moreover have "count_entries a sz (m * sz) 0 p = p + used_entries (a @ b) sz m"
    using count_entries_sector [of sz a m p] used_entries_prefix [of m sz a b] False a sz by simp
  ultimately show ?thesis
    using False by (intro exI [of _ 0]) (simp add: chunk_def crc.update_nil used_entries_def)
qed

lemma gpt_entries_disk:
  assumes "disk_device dev sec s" and "lba + idx + n \<le> sector_count (block_devices s dev)"
    and sz: "16 \<le> sz" "512 = q * sz" and "m * sz \<le> 512 * n" and "length buf = 512"
  shows "\<exists>w. gpt_entries dev lba sz n idx (m * sz) crc p buf s =
      Some (Some (crc32_all crc (take (m * sz) (entry_array (sec (hardware s)) (lba + idx) n)),
        p + used_entries (entry_array (sec (hardware s)) (lba + idx) n) sz m), s\<lparr>hardware := w\<rparr>) \<and>
      sec w = sec (hardware s)"
  using assms(1,2,5,6)
proof (induction n arbitrary: idx m crc p buf s)
  case 0
  then have "m = 0"
    using sz by simp
  then show ?case
    by (intro exI [of _ "hardware s"]) (simp add: used_entries_def crc.update_nil entry_array_def)
next
  case (Suc n)
  let ?D = "sec (hardware s)"
  let ?chunk = "if 512 < m * sz then 512 else m * sz"
  have lba: "lba + idx < sector_count (block_devices s dev)"
    using Suc.prems by simp
  then have add: "add64 lba idx = lba + idx"
    using Suc.prems by (intro wrap_simps) (auto simp: disk_device_def Let_def)
  obtain w where rd: "block_read dev (lba + idx) 1 (Some buf) s = Some (0, Some (?D (lba + idx)), s\<lparr>hardware := w\<rparr>)"
    and w: "sec w = ?D"
    using disk_read_sector [OF Suc.prems(1) lba Suc.prems(4)] by blast
  have len: "length (?D (lba + idx)) = 512"
    using disk_sector_length [OF Suc.prems(1) lba] .
  have lens: "length (entry_array ?D (Suc (lba + idx)) n) = 512 * n"
    using Suc.prems disk_sector_length [OF Suc.prems(1)] by (intro length_entry_array) simp
  have fits: "m * sz \<le> 512 + length (entry_array ?D (Suc (lba + idx)) n)"
    using Suc.prems(3) by (simp add: lens)
  obtain k where k: "m * sz - ?chunk = k * sz" "k * sz \<le> 512 * n"
    and crc: "crc32_all (crc32_update crc (Some (?D (lba + idx))) ?chunk) (take (k * sz) (entry_array ?D (Suc (lba + idx)) n)) =
      crc32_all crc (take (m * sz) (entry_array ?D (lba + idx) (Suc n)))"
    and cnt: "count_entries (?D (lba + idx)) sz ?chunk 0 p + used_entries (entry_array ?D (Suc (lba + idx)) n) sz k =
      p + used_entries (entry_array ?D (lba + idx) (Suc n)) sz m"
    using gpt_chunk [OF sz len fits, of crc p] unfolding entry_array_Suc [symmetric] lens by (elim exE conjE) (rule that)
  obtain v where "gpt_entries dev lba sz n (idx + 1) (k * sz) (crc32_update crc (Some (?D (lba + idx))) ?chunk)
      (count_entries (?D (lba + idx)) sz ?chunk 0 p) (?D (lba + idx)) (s\<lparr>hardware := w\<rparr>) =
      Some (Some (crc32_all (crc32_update crc (Some (?D (lba + idx))) ?chunk) (take (k * sz) (entry_array ?D (Suc (lba + idx)) n)),
        count_entries (?D (lba + idx)) sz ?chunk 0 p + used_entries (entry_array ?D (Suc (lba + idx)) n) sz k), s\<lparr>hardware := v\<rparr>)"
    and "sec v = ?D"
    using Suc.IH [of "s\<lparr>hardware := w\<rparr>" "idx + 1" k "?D (lba + idx)" "crc32_update crc (Some (?D (lba + idx))) ?chunk"
        "count_entries (?D (lba + idx)) sz ?chunk 0 p"] Suc.prems w k(2) len
    by (auto simp: disk_device_hardware)
  then show ?case
    using rd add k(1) unfolding crc cnt by (intro exI [of _ v]) (simp add: Let_def)
qed

subsection \<open>The probe\<close>

text \<open>A valid GUID partition table on a disk of \<open>n\<close> sectors.\<close>

definition gpt_sectors :: "bytes \<Rightarrow> nat" where
  "gpt_sectors h = (unat (load32 h 80) * unat (load32 h 84) + 511) div 512"

definition gpt_array :: "(nat \<Rightarrow> bytes) \<Rightarrow> bytes" where
  "gpt_array D = take (unat (load32 (D 1) 80) * unat (load32 (D 1) 84))
     (entry_array D (unat (load64 (D 1) 72)) (gpt_sectors (D 1)))"

text \<open>
  The fields of a header as the format prescribes them, as numbers and without the tests of the
  code: revision 1.0, a header that fits its sector, sector 1 as its own, the backup on the disk,
  up to 128 entries, and entries of one of the three sizes that fill a sector evenly.
\<close>

definition gpt_header_fields :: "nat \<Rightarrow> bytes \<Rightarrow> bool" where
  "gpt_header_fields n h \<longleftrightarrow>
     unat (load32 h 8) = 65536 \<and> unat (load32 h 12) \<in> {92..512} \<and> unat (load32 h 20) = 0 \<and>
     unat (load64 h 24) = 1 \<and> unat (load64 h 32) < n \<and> unat (load32 h 80) \<in> {1..128} \<and>
     unat (load32 h 84) \<in> {128, 256, 512}"

definition gpt_disk :: "(nat \<Rightarrow> bytes) \<Rightarrow> nat \<Rightarrow> bool" where
  "gpt_disk D n \<longleftrightarrow>
     D 0 ! 510 = 0x55 \<and> D 0 ! 511 = 0xAA \<and> (\<exists>i < 4. D 0 ! (446 + i * 16 + 4) = 0xEE) \<and>
     (let h = D 1; first = unat (load64 h 40); last = unat (load64 h 48); backup = unat (load64 h 32); at = unat (load64 h 72) in
        1 < n \<and> load64 h 0 = 0x5452415020494645 \<and> gpt_header_fields n h \<and> first \<le> last \<and> last < backup \<and> backup < n \<and>
        crc32 (Some (store32 h 16 0)) (unat (load32 h 12)) = load32 h 16 \<and>
        2 \<le> at \<and> at + gpt_sectors h \<le> first \<and> crc32_all 0 (gpt_array D) = load32 h 88)"

lemma mbr_protective_iff: "mbr_protective sector \<longleftrightarrow> (\<exists>i < 4. sector ! (446 + i * 16 + 4) = 0xEE)"
  unfolding mbr_protective_def list_ex_iff by auto

text \<open>The sizes that pass the tests of the code, a mask and a remainder, are those three.\<close>

lemma gpt_entry_size_iff:
  fixes x :: u32
  shows "\<not> (x < 128 \<or> 512 < x \<or> x AND 127 \<noteq> 0 \<or> 512 mod x \<noteq> 0) \<longleftrightarrow> unat x \<in> {128, 256, 512}" (is "?ok \<longleftrightarrow> _")
proof
  assume ?ok
  then have large: "128 \<le> unat x" and rem: "512 mod x = 0"
    by (auto simp: not_less word_le_nat_alt)
  have "512 mod unat x = 0"
    using arg_cong [OF rem, of unat] by (simp add: unat_mod)
  then have "unat x dvd 512"
    by (simp add: dvd_eq_mod_eq_0)
  then obtain q where q: "512 = unat x * q"
    by (elim dvdE)
  with large have "q * 128 \<le> 512"
    by (metis mult.commute mult_le_mono2)
  then consider "q = 0" | "q = 1" | "q = 2" | "q = 3" | "q = 4"
    by linarith
  then show "unat x \<in> {128, 256, 512}"
    using q by cases (simp_all, presburger)
next
  assume "unat x \<in> {128, 256, 512}"
  then have "x = 128 \<or> x = 256 \<or> x = 512"
    by (auto simp: word_unat_eq_iff)
  then show ?ok
    by auto
qed

lemma gpt_header_ok_iff: "gpt_header_ok n h \<longleftrightarrow> gpt_header_fields n h"
proof -
  have "load32 h 80 \<noteq> 0 \<longleftrightarrow> 1 \<le> unat (load32 h 80)"
    by (simp add: unat_gt_0 Suc_le_eq)
  then show ?thesis
    unfolding gpt_header_ok_def gpt_header_fields_def gpt_entry_size_iff [symmetric]
    by (auto simp: word_unat_eq_iff word_le_nat_alt word_less_nat_alt not_less not_le)
qed

lemma gpt_header_backup: "gpt_header_ok n h \<Longrightarrow> unat (load64 h 32) < n"
  by (simp add: gpt_header_ok_def)

text \<open>The sizes an accepted header can give: the sector is a whole number of entries.\<close>

lemma gpt_header_sizes:
  assumes "gpt_header_ok n h"
  obtains q where "128 \<le> unat (load32 h 84)" and "512 = q * unat (load32 h 84)" and "0 < unat (load32 h 80)"
proof -
  have *: "128 \<le> load32 h 84" "512 mod load32 h 84 = 0" "load32 h 80 \<noteq> 0"
    using assms by (auto simp: gpt_header_ok_def not_less)
  have "128 \<le> unat (load32 h 84)"
    using *(1) by (simp add: word_le_nat_alt)
  moreover have "512 mod unat (load32 h 84) = 0"
    using arg_cong [OF *(2), of unat] by (simp add: unat_mod)
  moreover have "0 < unat (load32 h 80)"
    using *(3) by (simp add: unat_gt_0)
  ultimately show ?thesis
    by (intro that [of "512 div unat (load32 h 84)"]) auto
qed

definition gpt_layout :: "bytes \<Rightarrow> nat \<Rightarrow> bool" where
  "gpt_layout h n \<longleftrightarrow> gpt_header_ok n h \<and> load64 h 40 \<le> load64 h 48 \<and> load64 h 48 < load64 h 32 \<and>
     crc32 (Some (store32 h 16 0)) (unat (load32 h 12)) = load32 h 16 \<and>
     2 \<le> unat (load64 h 72) \<and> unat (load64 h 72) + gpt_sectors h \<le> unat (load64 h 40)"

lemma gpt_sectors_pos: "gpt_header_ok n h \<Longrightarrow> 0 < gpt_sectors h"
proof -
  assume "gpt_header_ok n h"
  then obtain q where "128 \<le> unat (load32 h 84)" "0 < unat (load32 h 80)"
    by (rule gpt_header_sizes)
  then have "0 < unat (load32 h 80) * unat (load32 h 84)"
    by simp
  then have "512 \<le> unat (load32 h 80) * unat (load32 h 84) + 511"
    by linarith
  from div_le_mono [OF this, of 512] show ?thesis
    unfolding gpt_sectors_def by simp
qed

lemma gpt_probe_unfold:
  assumes "n = sector_count d"
  shows "gpt_probe dev d h info s =
    (if gpt_layout h n then do {
       (res, s) \<leftarrow> gpt_entries dev (unat (load64 h 72)) (unat (load32 h 84)) (gpt_sectors h) 0
         (unat (load32 h 80) * unat (load32 h 84)) 0 0 (replicate 512 0) s;
       let info = info\<lparr>first_usable_lba := unat (load64 h 40), last_usable_lba := unat (load64 h 48), gpt_header_valid := 1\<rparr>;
       case res of
         None \<Rightarrow> Some (- 2, info, s)
       | Some (crc, populated) \<Rightarrow>
         if crc \<noteq> load32 h 88 then Some (- 2, info, s)
         else Some (0, info\<lparr>gpt_entries_valid := 1, pi_type := PARTITION_TABLE_GPT, partition_count := populated\<rparr>, s) }
     else Some (- 2, (if gpt_header_ok n h then
       (if load64 h 40 \<le> load64 h 48 \<and> load64 h 48 < load64 h 32 \<and> crc32 (Some (store32 h 16 0)) (unat (load32 h 12)) = load32 h 16
        then info\<lparr>first_usable_lba := unat (load64 h 40), last_usable_lba := unat (load64 h 48), gpt_header_valid := 1\<rparr>
        else info\<lparr>first_usable_lba := unat (load64 h 40), last_usable_lba := unat (load64 h 48)\<rparr>) else info), s))"
proof (cases "gpt_header_ok n h")
  case True
  then have "unat (load64 h 32) < n"
    by (rule gpt_header_backup)
  moreover have "0 < gpt_sectors h"
    using True by (rule gpt_sectors_pos)
  ultimately show ?thesis
    using True assms unfolding gpt_probe_def gpt_layout_def Let_def gpt_sectors_def [symmetric]
    by (auto simp: word_le_nat_alt word_less_nat_alt diff64_def)
next
  case False
  then show ?thesis
    using assms by (simp add: gpt_probe_def gpt_layout_def)
qed

lemma gpt_probe_disk:
  assumes disk: "disk_device dev sec s"
  defines "n \<equiv> sector_count (block_devices s dev)" and "D \<equiv> sec (hardware s)"
  shows "\<exists>r info' w. gpt_probe dev (block_devices s dev) (D 1) info s = Some (r, info', s\<lparr>hardware := w\<rparr>) \<and> sec w = D \<and>
    (r = 0 \<longleftrightarrow> gpt_layout (D 1) n \<and> crc32_all 0 (gpt_array D) = load32 (D 1) 88) \<and>
    (r = 0 \<longrightarrow> info' = info\<lparr>first_usable_lba := unat (load64 (D 1) 40), last_usable_lba := unat (load64 (D 1) 48),
       gpt_header_valid := 1, gpt_entries_valid := 1, pi_type := PARTITION_TABLE_GPT,
       partition_count := used_entries (gpt_array D) (unat (load32 (D 1) 84)) (unat (load32 (D 1) 80))\<rparr>)"
proof (cases "gpt_layout (D 1) n")
  case True
  let ?h = "D 1"
  let ?sz = "unat (load32 ?h 84)" and ?m = "unat (load32 ?h 80)" and ?at = "unat (load64 ?h 72)"
  from True have hdr: "gpt_header_ok n ?h" and fits: "?at + gpt_sectors ?h \<le> n"
    by (auto simp: gpt_layout_def gpt_header_ok_def word_le_nat_alt word_less_nat_alt)
  obtain q where "128 \<le> ?sz" and q: "512 = q * ?sz"
    using gpt_header_sizes [OF hdr] by metis
  then have sz: "16 \<le> ?sz"
    by linarith
  have "x \<le> 512 * ((x + 511) div 512)" for x :: nat
    using dividend_less_times_div [of 512 "x + 511"] by linarith
  then have all: "?m * ?sz \<le> 512 * gpt_sectors ?h"
    unfolding gpt_sectors_def .
  obtain w where w: "gpt_entries dev ?at ?sz (gpt_sectors ?h) 0 (?m * ?sz) 0 0 (replicate 512 0) s =
      Some (Some (crc32_all 0 (gpt_array D), used_entries (entry_array D ?at (gpt_sectors ?h)) ?sz ?m), s\<lparr>hardware := w\<rparr>)"
    and "sec w = D"
    using gpt_entries_disk [OF disk _ sz q all, of ?at 0 "replicate 512 0" 0 0] fits length_replicate [of 512 "0 :: u8"]
    unfolding add_0_right add_0_left gpt_array_def D_def n_def by blast
  moreover have "used_entries (entry_array D ?at (gpt_sectors ?h)) ?sz ?m = used_entries (gpt_array D) ?sz ?m"
    unfolding gpt_array_def using sz by (intro used_entries_take [symmetric]) simp_all
  ultimately show ?thesis
    using True by (cases "crc32_all 0 (gpt_array D) = load32 ?h 88")
      (auto simp: gpt_probe_unfold [OF n_def [THEN meta_eq_to_obj_eq]] Let_def simp del: One_nat_def)
next
  case False
  then obtain info' where "gpt_probe dev (block_devices s dev) (D 1) info s = Some (- 2, info', s\<lparr>hardware := hardware s\<rparr>)"
    by (simp add: gpt_probe_unfold [OF n_def [THEN meta_eq_to_obj_eq]])
  then show ?thesis
    by (intro exI conjI, assumption) (use False in \<open>simp_all add: D_def\<close>)
qed

lemma gpt_disk_iff:
  "gpt_disk D n \<longleftrightarrow> D 0 ! 510 = 0x55 \<and> D 0 ! 511 = 0xAA \<and> mbr_protective (D 0) \<and> 1 < n \<and>
     load64 (D 1) 0 = 0x5452415020494645 \<and> gpt_layout (D 1) n \<and> crc32_all 0 (gpt_array D) = load32 (D 1) 88"
  unfolding gpt_disk_def gpt_layout_def mbr_protective_iff gpt_header_ok_iff [symmetric] Let_def word_le_nat_alt word_less_nat_alt
  using gpt_header_backup [of n "D 1"] by blast

text \<open>
  C8. The partition probe accepts exactly the valid disks. On a device whose driver delivers
  the sectors of a disk the probe always returns, changes no sector, and reports a GUID
  partition table exactly when the disk has one: boot signature, protective entry, a header
  with the prescribed fields and the right checksum, the entry array between the header and
  the first usable sector, and the checksum of the whole array, read sector by sector, right.
  It then reports the usable range of the header and the number of entries with a type.
\<close>

theorem partition_probe_gpt_exact:
  assumes disk: "disk_device dev sec s" and "sector_size (block_devices s dev) = 512"
  defines "n \<equiv> sector_count (block_devices s dev)" and "D \<equiv> sec (hardware s)"
  shows "\<exists>r info w. partition_probe dev (Some i0) s = Some (r, Some info, s\<lparr>hardware := w\<rparr>) \<and> sec w = D \<and>
    (r = 0 \<and> pi_type info = PARTITION_TABLE_GPT \<longleftrightarrow> gpt_disk D n) \<and>
    (gpt_disk D n \<longrightarrow> info = \<lparr>pi_type = PARTITION_TABLE_GPT,
       partition_count = used_entries (gpt_array D) (unat (load32 (D 1) 84)) (unat (load32 (D 1) 80)),
       protective_mbr = 1, gpt_header_valid = 1, gpt_entries_valid = 1,
       first_usable_lba = unat (load64 (D 1) 40), last_usable_lba = unat (load64 (D 1) 48)\<rparr>)"
proof -
  from disk have ok: "block_ok s" and dev: "dev < block_device_count s" and n: "0 < n"
    by (auto simp: disk_device_def block_ok_def device_ok_def n_def)
  obtain w0 where rd0: "block_read dev 0 1 (Some (replicate 512 0)) s = Some (0, Some (D 0), s\<lparr>hardware := w0\<rparr>)"
    and w0: "sec w0 = D"
    using disk_read_sector [OF disk, of 0 "replicate 512 0"] n unfolding n_def D_def by (metis length_replicate)
  let ?s = "s\<lparr>hardware := w0\<rparr>"
  have start: "partition_probe dev (Some i0) s =
     (if D 0 ! 510 \<noteq> 0x55 \<or> D 0 ! 511 \<noteq> 0xAA then Some (0, Some partition_info_zero, ?s)
      else if mbr_protective (D 0) then do {
        (r, buf, t) \<leftarrow> block_read dev 1 1 (Some (D 0)) ?s;
        if r \<noteq> 0 then Some (- 2, Some (partition_info_zero\<lparr>protective_mbr := 1\<rparr>), t)
        else do {
          sector \<leftarrow> buf;
          if load64 sector 0 \<noteq> 0x5452415020494645 then Some (- 2, Some (partition_info_zero\<lparr>protective_mbr := 1\<rparr>), t)
          else do {
            (r, i, t) \<leftarrow> gpt_probe dev (block_devices s dev) sector (partition_info_zero\<lparr>protective_mbr := 1\<rparr>) t;
            Some (r, Some i, t) } } }
      else Some (0, Some (partition_info_zero\<lparr>pi_type := PARTITION_TABLE_MBR, partition_count := mbr_count (D 0),
          protective_mbr := 0\<rparr>), ?s))"
    using assms(2) ok dev by (simp add: partition_probe_def block_get_eq rd0 [simplified] Let_def cong: if_cong)
  show ?thesis
  proof (cases "D 0 ! 510 = 0x55 \<and> D 0 ! 511 = 0xAA \<and> mbr_protective (D 0)")
    case False
    then show ?thesis
      using w0 by (auto simp: start gpt_disk_iff partition_info_zero_def)
  next
    case boot: True
    show ?thesis
    proof (cases "1 < n")
      case False
      then show ?thesis
        using w0 ok boot dev by (auto simp: start gpt_disk_iff block_read_eq n_def)
    next
      case True
      then obtain w1 where rd1: "block_read dev 1 1 (Some (D 0)) ?s = Some (0, Some (D 1), ?s\<lparr>hardware := w1\<rparr>)"
        and w1: "sec w1 = D"
        using disk_read_sector [of dev sec ?s 1 "D 0"] disk w0 n disk_sector_length [OF disk, of 0]
        unfolding n_def D_def by (auto simp: disk_device_hardware)
      let ?i = "partition_info_zero\<lparr>protective_mbr := 1\<rparr>"
      obtain r info w where "gpt_probe dev (block_devices s dev) (D 1) ?i (s\<lparr>hardware := w1\<rparr>) = Some (r, info, s\<lparr>hardware := w\<rparr>)"
        and "sec w = D" "r = 0 \<longleftrightarrow> gpt_layout (D 1) n \<and> crc32_all 0 (gpt_array D) = load32 (D 1) 88"
        and "r = 0 \<longrightarrow> info = ?i\<lparr>first_usable_lba := unat (load64 (D 1) 40), last_usable_lba := unat (load64 (D 1) 48),
          gpt_header_valid := 1, gpt_entries_valid := 1, pi_type := PARTITION_TABLE_GPT,
          partition_count := used_entries (gpt_array D) (unat (load32 (D 1) 84)) (unat (load32 (D 1) 80))\<rparr>"
        using gpt_probe_disk [of dev sec "s\<lparr>hardware := w1\<rparr>" ?i] disk w1 by (auto simp: n_def D_def disk_device_hardware)
      then show ?thesis
        using boot True rd1 w1 by (cases "load64 (D 1) 0 = 0x5452415020494645")
          (auto simp: start gpt_disk_iff partition_info_zero_def simp del: One_nat_def)
    qed
  qed
qed

end
