(* ===== verification/Block_Test.thy ===== *)
theory Block_Test
  imports Block_Props
begin

section \<open>The disk of the block self test\<close>

text \<open>
  The array that \<open>block_self_test\<close> builds is a valid disk in the sense of the partition
  probe's specification, and \<open>test_read\<close> is a driver for it.
\<close>

definition sector_of :: "bytes \<Rightarrow> nat \<Rightarrow> bytes" where
  "sector_of w lba = take 512 (drop (lba * 512) w)"

definition test_layer :: "bytes block_layer" where
  "test_layer = \<lparr>block_devices = (\<lambda>i. \<lparr>bd_id = i, bd_name = [115], sector_size = 512, sector_count = 8, bd_writable = 0,
     bd_context = 0, bd_read = Some test_read, bd_write = None\<rparr>),
     block_device_count = 1, block_lock = \<lparr>sl_state = 0\<rparr>, hardware = test_image\<rparr>"

text \<open>The image before the two checksums are stored.\<close>

definition image_fields :: bytes where
  "image_fields =
     store32 (store32 (store64 (store64 (store64 (store64 (store64 (store32 (store32 (store64
       ((replicate 4096 0)[450 := 0xEE, 458 := 1, 510 := 0x55, 511 := 0xAA])
       512 0x5452415020494645) 520 0x00010000) 524 92) 536 1) 544 7) 552 3) 560 6) 584 2) 592 4) 596 128"

definition image_base :: bytes where
  "image_base = image_fields[1024 := 0x28]"

definition image_entries :: bytes where
  "image_entries = store32 image_base 600 (crc32 (Some (drop 1024 image_base)) 512)"

lemma test_image_eq: "test_image = store32 image_entries 528 (crc32 (Some (drop 512 image_entries)) 92)"
  by (simp add: test_image_def image_entries_def image_base_def image_fields_def Let_def)

lemma length_images [simp]: "length image_fields = 4096" "length image_base = 4096" "length image_entries = 4096" "length test_image = 4096"
  by (simp_all add: test_image_eq image_entries_def image_base_def image_fields_def)

lemma load32_update_other: "j + 4 \<le> k \<or> k < j \<Longrightarrow> j + 4 \<le> length d \<Longrightarrow> load32 (d[k := b]) j = load32 d j"
  by (rule sec32.load_bytes) auto

lemma load64_update_other: "j + 8 \<le> k \<or> k < j \<Longrightarrow> j + 8 \<le> length d \<Longrightarrow> load64 (d[k := b]) j = load64 d j"
  by (rule sec64.load_bytes) auto

lemma load32_sector_of:
  "j + 4 \<le> 512 \<Longrightarrow> lba * 512 + 512 \<le> length w \<Longrightarrow> load32 (sector_of w lba) j = load32 w (lba * 512 + j)"
  by (simp add: load32_def sector_of_def add.assoc)

lemma load64_sector_of:
  "j + 8 \<le> 512 \<Longrightarrow> lba * 512 + 512 \<le> length w \<Longrightarrow> load64 (sector_of w lba) j = load64 w (lba * 512 + j)"
  by (simp add: load64_def load32_sector_of add.assoc)

lemma nth_sector_of: "j < 512 \<Longrightarrow> sector_of w lba ! j = w ! (lba * 512 + j)" if "lba * 512 + 512 \<le> length w"
  using that by (simp add: sector_of_def)

lemma drop_store32: "i + 4 \<le> n \<Longrightarrow> drop n (store32 d i v) = drop n d"
  by (simp add: store32_def)

lemma drop_store64: "i + 8 \<le> n \<Longrightarrow> drop n (store64 d i v) = drop n d"
  by (simp add: store64_def drop_store32)

lemma load_zeros: "j + 4 \<le> n \<Longrightarrow> load32 (replicate n 0) j = 0" "j + 8 \<le> n \<Longrightarrow> load64 (replicate n 0) j = 0"
  by (simp_all add: load32_def load64_def)

lemmas image_loads = buf_simps load32_update_other load64_update_other load_zeros

lemma image_fields_values:
  "load64 image_fields 512 = 0x5452415020494645" "load32 image_fields 520 = 0x00010000" "load32 image_fields 524 = 92"
  "load32 image_fields 532 = 0" "load64 image_fields 536 = 1" "load64 image_fields 544 = 7" "load64 image_fields 552 = 3"
  "load64 image_fields 560 = 6" "load64 image_fields 584 = 2" "load32 image_fields 592 = 4" "load32 image_fields 596 = 128"
  by (simp_all add: image_fields_def image_loads)

lemma image_bytes:
  "image_fields ! 450 = 0xEE" "image_fields ! 510 = 0x55" "image_fields ! 511 = 0xAA"
  "image_fields ! 528 = 0" "image_fields ! 529 = 0" "image_fields ! 530 = 0" "image_fields ! 531 = 0"
  by (simp_all add: image_fields_def buf_simps)

lemma image_rest: "drop 1024 image_fields = replicate 3072 0"
  by (simp add: image_fields_def drop_store32 drop_store64)

lemma image_rest_base: "drop 1024 image_base = (replicate 3072 0)[0 := 0x28]"
  by (simp add: image_base_def drop_update_swap image_rest)

lemma test_image_values:
  "load64 test_image 512 = 0x5452415020494645" "load32 test_image 520 = 0x00010000" "load32 test_image 524 = 92"
  "load32 test_image 532 = 0" "load64 test_image 536 = 1" "load64 test_image 544 = 7" "load64 test_image 552 = 3"
  "load64 test_image 560 = 6" "load64 test_image 584 = 2" "load32 test_image 592 = 4" "load32 test_image 596 = 128"
  by (simp_all add: test_image_eq image_entries_def image_base_def image_loads image_fields_values)

lemma test_image_bytes: "test_image ! 450 = 0xEE" "test_image ! 510 = 0x55" "test_image ! 511 = 0xAA"
  by (simp_all add: test_image_eq image_entries_def image_base_def buf_simps image_bytes)

lemma test_image_crcs:
  "load32 test_image 528 = crc32 (Some (drop 512 image_entries)) 92"
  "load32 test_image 600 = crc32 (Some (drop 1024 image_base)) 512"
  by (simp_all add: test_image_eq image_entries_def image_loads)

lemma test_image_rest: "drop 1024 test_image = drop 1024 image_base"
  by (simp add: test_image_eq image_entries_def drop_store32)

lemma test_header_bytes: "take 92 (store32 (sector_of test_image 1) 16 0) = take 92 (drop 512 image_entries)"
proof (rule nth_equalityI)
  show "length (take 92 (store32 (sector_of test_image 1) 16 0)) = length (take 92 (drop 512 image_entries))"
    by (simp add: sector_of_def)
  fix k
  assume "k < length (take 92 (store32 (sector_of test_image 1) 16 0))"
  then have k: "k < 92"
    by simp
  have len: "length (sector_of test_image 1) = 512"
    by (simp add: sector_of_def)
  have zeros: "store32 (sector_of test_image 1) 16 0 ! j = 0 \<and> image_entries ! (512 + j) = 0" if "j \<in> {16, 17, 18, 19}" for j
    using that len by (auto simp: store32_def image_entries_def image_base_def buf_simps image_bytes)
  show "take 92 (store32 (sector_of test_image 1) 16 0) ! k = take 92 (drop 512 image_entries) ! k"
  proof (cases "k \<in> {16, 17, 18, 19}")
    case True
    then show ?thesis
      using zeros [OF True] k by simp
  next
    case False
    then have "k < 16 \<or> 20 \<le> k"
      by auto
    then show ?thesis
      using k by (simp add: buf_simps nth_sector_of test_image_eq)
  qed
qed

lemma sector_of_values:
  "load64 (sector_of test_image 1) 0 = 0x5452415020494645" "load32 (sector_of test_image 1) 8 = 0x00010000"
  "load32 (sector_of test_image 1) 12 = 92" "load32 (sector_of test_image 1) 20 = 0" "load64 (sector_of test_image 1) 24 = 1"
  "load64 (sector_of test_image 1) 32 = 7" "load64 (sector_of test_image 1) 40 = 3" "load64 (sector_of test_image 1) 48 = 6"
  "load64 (sector_of test_image 1) 72 = 2" "load32 (sector_of test_image 1) 80 = 4" "load32 (sector_of test_image 1) 84 = 128"
  by (simp_all add: load32_sector_of load64_sector_of test_image_values)

lemma gpt_array_test_image: "gpt_array (sector_of test_image) = take 512 (drop 1024 image_base)"
  unfolding gpt_array_def gpt_sectors_def sector_of_values
  by (simp add: entry_array_def sector_of_def test_image_rest)

lemma gpt_disk_test_image: "gpt_disk (sector_of test_image) 8"
proof -
  have "crc32 (Some (store32 (sector_of test_image 1) 16 0)) 92 = load32 (sector_of test_image 1) 16"
    by (simp add: load32_sector_of test_image_crcs crc32_def crc32_update_take test_header_bytes [simplified])
  moreover have "crc32_all 0 (gpt_array (sector_of test_image)) = load32 (sector_of test_image 1) 88"
    by (simp add: gpt_array_test_image load32_sector_of test_image_crcs crc32_def crc32_update_take)
  moreover have "gpt_header_ok 8 (sector_of test_image 1)"
    unfolding gpt_header_ok_def sector_of_values by simp
  moreover have "gpt_sectors (sector_of test_image 1) = 1"
    unfolding gpt_sectors_def sector_of_values by simp
  moreover have "mbr_protective (sector_of test_image 0)"
    unfolding mbr_protective_iff by (intro exI [of _ 0]) (simp add: nth_sector_of test_image_bytes)
  moreover have "sector_of test_image 0 ! 510 = 0x55" "sector_of test_image 0 ! 511 = 0xAA"
    by (simp_all add: nth_sector_of test_image_bytes)
  ultimately show ?thesis
    unfolding gpt_disk_iff gpt_layout_def sector_of_values by simp
qed

lemma test_read_sectors: "reads_sectors test_read ctx 8 sector_of"
proof -
  have "test_read ctx lba 1 buf w = (0, sector_of w lba, w)"
    if "lba < 8" "length buf = 512" "full_sectors 8 (sector_of w)" for lba buf w
  proof -
    have "length (sector_of w lba) = length buf"
      using that by (simp add: full_sectors_def)
    then have "put_bytes buf 0 (sector_of w lba) = sector_of w lba"
      by (simp add: put_bytes_eq)
    then show ?thesis
      using that by (simp add: test_read_def sector_of_def)
  qed
  then show ?thesis
    unfolding reads_sectors_def by simp
qed

lemma test_layer_disk: "disk_device 0 sector_of test_layer"
proof -
  have "full_sectors 8 (sector_of test_image)"
    by (auto simp: full_sectors_def sector_of_def)
  then show ?thesis
    using test_read_sectors by (simp add: disk_device_def block_ok_def device_ok_def test_layer_def)
qed

lemma used_entries_test_image: "used_entries (gpt_array (sector_of test_image)) 128 4 = 1"
proof -
  have nth: "gpt_array (sector_of test_image) ! j = (if j = 0 then 0x28 else 0)" if "j < 512" for j
    using that by (simp add: gpt_array_test_image image_rest_base nth_list_update)
  have "entry_used (gpt_array (sector_of test_image)) (i * 128) \<longleftrightarrow> i = 0" if "i < 4" for i
  proof -
    have "i * 128 + k < 512" if "k < 16" for k
      using that \<open>i < 4\<close> by simp
    then have "entry_used (gpt_array (sector_of test_image)) (i * 128) \<longleftrightarrow> (\<exists>k < 16. i * 128 + k = 0)"
      by (simp add: entry_used_def nth cong: conj_cong)
    also have "\<dots> \<longleftrightarrow> i = 0"
      by (auto intro: exI [of _ 0])
    finally show ?thesis .
  qed
  then have "filter (\<lambda>i. entry_used (gpt_array (sector_of test_image)) (i * 128)) [0..<4] = filter (\<lambda>i. i = 0) [0..<4]"
    by (intro filter_cong) auto
  then show ?thesis
    by (simp add: used_entries_def upt_rec)
qed

theorem partition_probe_gpt_exact_witness:
  "\<exists>info w. partition_probe 0 (Some partition_info_zero) test_layer = Some (0, Some info, test_layer\<lparr>hardware := w\<rparr>) \<and>
     pi_type info = PARTITION_TABLE_GPT \<and> partition_count info = 1 \<and> first_usable_lba info = 3 \<and> last_usable_lba info = 6"
proof -
  have dev: "sector_count (block_devices test_layer 0) = 8" "sector_size (block_devices test_layer 0) = 512" "hardware test_layer = test_image"
    by (simp_all add: test_layer_def)
  show ?thesis
    using partition_probe_gpt_exact [OF test_layer_disk dev(2), of partition_info_zero] gpt_disk_test_image used_entries_test_image
    unfolding dev sector_of_values by auto
qed

end
