(* ===== verification/Mvhfs.thy ===== *)
theory Mvhfs
  imports Block_Props
begin

section \<open>The MVHFS file system\<close>

text \<open>
  The file system of \<open>fs/mvhfs.c\<close> on top of the block layer: two superblocks, two copies of
  the directory and two copies of the data of each file. A change is written to the copies
  that are not in use and takes effect with the one sector of the new superblock. Names and
  buffers are lists of bytes, a name ends at its first zero byte or at the end of the list,
  null pointers are \<open>None\<close>.
\<close>

abbreviation MVHFS_VERSION :: u32 where "MVHFS_VERSION \<equiv> 1"
abbreviation MVHFS_SECTOR_SIZE :: nat where "MVHFS_SECTOR_SIZE \<equiv> 512"
abbreviation MVHFS_DIRECTORY_SECTORS :: nat where "MVHFS_DIRECTORY_SECTORS \<equiv> 4"
abbreviation MVHFS_DIRECTORY0_LBA :: nat where "MVHFS_DIRECTORY0_LBA \<equiv> 2"
abbreviation MVHFS_DIRECTORY1_LBA :: nat where "MVHFS_DIRECTORY1_LBA \<equiv> 6"
abbreviation MVHFS_DATA_LBA :: nat where "MVHFS_DATA_LBA \<equiv> 10"
abbreviation MVHFS_SECTORS_PER_COPY :: nat where "MVHFS_SECTORS_PER_COPY \<equiv> 8"
abbreviation MVHFS_ENTRY_SIZE :: nat where "MVHFS_ENTRY_SIZE \<equiv> 64"
abbreviation MVHFS_CLEAN_MARKER :: u32 where "MVHFS_CLEAN_MARKER \<equiv> 0xC1EA4D56"
abbreviation MVHFS_MAX_FILES :: nat where "MVHFS_MAX_FILES \<equiv> 32"
abbreviation MVHFS_NAME_MAX :: nat where "MVHFS_NAME_MAX \<equiv> 32"
abbreviation MVHFS_FILE_MAX :: nat where "MVHFS_FILE_MAX \<equiv> 4096"
abbreviation MVHFS_DIRECTORY_BYTES :: nat where "MVHFS_DIRECTORY_BYTES \<equiv> 2048"
abbreviation MVHFS_MIN_SECTORS :: nat where "MVHFS_MIN_SECTORS \<equiv> 522"

record mvhfs_entry_t =
  me_name :: bytes
  me_size :: nat

record mvhfs_t =
  fs_device_id :: nat
  superblock_slot :: nat
  directory_slot :: nat
  generation :: nat
  mounted :: nat
  directory :: bytes

definition mvhfs_magic :: bytes where
  "mvhfs_magic = [77, 86, 72, 70, 83, 49, 13, 10]"

subsection \<open>The layout of the disk\<close>

definition device_info :: "nat \<Rightarrow> 'w block_layer \<Rightarrow> ('w block_device_t option \<times> 'w block_layer) option" where
  "device_info dev s = do {
     (count, devices, s) \<leftarrow> block_list (Some (block_devices s)) BLOCK_DEVICE_MAX s;
     ds \<leftarrow> devices;
     Some (map_option ds (find (\<lambda>index. bd_id (ds index) = dev) [0..<count]), s) }"

definition directory_lba :: "nat \<Rightarrow> nat" where
  "directory_lba slot = (if slot = 0 then MVHFS_DIRECTORY0_LBA else MVHFS_DIRECTORY1_LBA)"

definition data_lba :: "nat \<Rightarrow> nat \<Rightarrow> nat" where
  "data_lba file slot = MVHFS_DATA_LBA + file * MVHFS_SECTORS_PER_COPY * 2 + slot * MVHFS_SECTORS_PER_COPY"

text \<open>An entry is named by its offset in the directory.\<close>

definition entry_at :: "nat \<Rightarrow> nat" where
  "entry_at index = index * MVHFS_ENTRY_SIZE"

definition name_at :: "bytes \<Rightarrow> nat \<Rightarrow> u8" where
  "name_at name i = (if i < length name then name ! i else 0)"

fun valid_name_loop :: "nat \<Rightarrow> bytes \<Rightarrow> bool" where
  "valid_name_loop len [] = True"
| "valid_name_loop len (c # cs) =
     (if c = 0 then True
      else if MVHFS_NAME_MAX \<le> len + 1 \<or> c = 47 \<or> c = 92 then False
      else valid_name_loop (len + 1) cs)"

definition valid_name :: "bytes option \<Rightarrow> bool" where
  "valid_name name =
     (case name of
        None \<Rightarrow> False
      | Some cs \<Rightarrow> if name_at cs 0 = 0 then False else valid_name_loop 0 cs)"

fun name_equal_loop :: "nat \<Rightarrow> nat \<Rightarrow> bytes \<Rightarrow> nat \<Rightarrow> bytes \<Rightarrow> bool" where
  "name_equal_loop 0 index dir entry name = False"
| "name_equal_loop (Suc n) index dir entry name =
     (if dir ! (entry + index) \<noteq> name_at name index then False
      else if name_at name index = 0 then True
      else name_equal_loop n (index + 1) dir entry name)"

definition entry_name_equal :: "bytes \<Rightarrow> nat \<Rightarrow> bytes \<Rightarrow> bool" where
  "entry_name_equal dir entry name =
     (if load32 dir (entry + 32) = 0 then False else name_equal_loop MVHFS_NAME_MAX 0 dir entry name)"

definition find_entry :: "mvhfs_t \<Rightarrow> bytes \<Rightarrow> nat option" where
  "find_entry fs name = find (\<lambda>index. entry_name_equal (directory fs) (entry_at index) name) [0..<MVHFS_MAX_FILES]"

definition find_free :: "mvhfs_t \<Rightarrow> nat option" where
  "find_free fs = find (\<lambda>index. load32 (directory fs) (entry_at index + 32) = 0) [0..<MVHFS_MAX_FILES]"

subsection \<open>Superblocks and the directory\<close>

definition superblock_fields :: "bytes \<Rightarrow> nat \<Rightarrow> nat \<Rightarrow> nat \<Rightarrow> u32 \<Rightarrow> bytes" where
  "superblock_fields sector total_sectors gen dir_slot dir_crc =
     (let s = clear_bytes sector 0 MVHFS_SECTOR_SIZE;
          s = put_bytes s 0 mvhfs_magic;
          s = store32 s 8 MVHFS_VERSION;
          s = store32 s 12 (word_of_nat MVHFS_SECTOR_SIZE);
          s = store64 s 16 (word_of_nat total_sectors);
          s = store64 s 24 (word_of_nat gen);
          s = store32 s 32 (word_of_nat dir_slot);
          s = store32 s 36 (word_of_nat MVHFS_MAX_FILES);
          s = store32 s 40 dir_crc;
          s = store32 s 44 MVHFS_CLEAN_MARKER;
          s = store32 s 52 (word_of_nat MVHFS_DATA_LBA) in
      store32 s 56 (word_of_nat MVHFS_SECTORS_PER_COPY))"

definition build_superblock :: "bytes \<Rightarrow> nat \<Rightarrow> nat \<Rightarrow> nat \<Rightarrow> u32 \<Rightarrow> bytes" where
  "build_superblock sector total_sectors gen dir_slot dir_crc =
     (let s = superblock_fields sector total_sectors gen dir_slot dir_crc in
      store32 s 48 (crc32 (Some s) MVHFS_SECTOR_SIZE))"

definition superblock_checks :: "bytes \<Rightarrow> nat \<Rightarrow> bool" where
  "superblock_checks sector sectors \<longleftrightarrow>
     \<not> (take 8 sector \<noteq> mvhfs_magic \<or> load32 sector 8 \<noteq> MVHFS_VERSION \<or>
        load32 sector 12 \<noteq> word_of_nat MVHFS_SECTOR_SIZE \<or> sectors < unat (load64 sector 16) \<or>
        unat (load64 sector 16) < MVHFS_MIN_SECTORS \<or> 1 < load32 sector 32 \<or>
        load32 sector 36 \<noteq> word_of_nat MVHFS_MAX_FILES \<or> load32 sector 44 \<noteq> MVHFS_CLEAN_MARKER \<or>
        load32 sector 52 \<noteq> word_of_nat MVHFS_DATA_LBA \<or>
        load32 sector 56 \<noteq> word_of_nat MVHFS_SECTORS_PER_COPY)"

text \<open>The checksum field of the buffer is zeroed on the way.\<close>

definition validate_superblock :: "bytes \<Rightarrow> nat \<Rightarrow> int \<times> bytes" where
  "validate_superblock sector sectors =
     (if \<not> superblock_checks sector sectors then (- 1, sector)
      else let expected_crc = load32 sector 48; sector = store32 sector 48 0 in
        (if crc32 (Some sector) MVHFS_SECTOR_SIZE = expected_crc then 0 else - 1, sector))"

fun read_sectors :: "nat \<Rightarrow> nat \<Rightarrow> nat \<Rightarrow> nat \<Rightarrow> bytes \<Rightarrow> 'w block_layer \<Rightarrow> (int \<times> bytes \<times> 'w block_layer) option" where
  "read_sectors dev slot 0 sector dir s = Some (0, dir, s)"
| "read_sectors dev slot (Suc n) sector dir s = do {
     (r, buf, s) \<leftarrow> block_read dev (directory_lba slot + sector) 1
       (Some (take MVHFS_SECTOR_SIZE (drop (sector * MVHFS_SECTOR_SIZE) dir))) s;
     data \<leftarrow> buf;
     let dir = put_bytes dir (sector * MVHFS_SECTOR_SIZE) data;
     if r \<noteq> 0 then Some (- 1, dir, s) else read_sectors dev slot n (sector + 1) dir s }"

definition read_directory :: "nat \<Rightarrow> nat \<Rightarrow> bytes \<Rightarrow> u32 \<Rightarrow> 'w block_layer \<Rightarrow> (int \<times> bytes \<times> 'w block_layer) option" where
  "read_directory dev slot dir expected_crc s = do {
     (r, dir, s) \<leftarrow> read_sectors dev slot MVHFS_DIRECTORY_SECTORS 0 dir s;
     if r \<noteq> 0 then Some (- 1, dir, s)
     else Some (if crc32 (Some dir) MVHFS_DIRECTORY_BYTES = expected_crc then 0 else - 1, dir, s) }"

definition mount_from_superblock ::
  "mvhfs_t \<Rightarrow> nat \<Rightarrow> nat \<Rightarrow> bytes \<Rightarrow> 'w block_layer \<Rightarrow> (int \<times> mvhfs_t \<times> 'w block_layer) option" where
  "mount_from_superblock fs dev sb_slot superblock s = do {
     let slot = unat (load32 superblock 32);
     (r, dir, s) \<leftarrow> read_directory dev slot (directory fs) (load32 superblock 40) s;
     let fs = fs\<lparr>directory := dir\<rparr>;
     if r \<noteq> 0 then Some (- 1, fs, s)
     else Some (0, fs\<lparr>fs_device_id := dev, superblock_slot := sb_slot, directory_slot := slot,
       generation := unat (load64 superblock 24), mounted := 1\<rparr>, s) }"

fun write_sectors :: "nat \<Rightarrow> nat \<Rightarrow> nat \<Rightarrow> nat \<Rightarrow> bytes \<Rightarrow> 'w block_layer \<Rightarrow> (int \<times> 'w block_layer) option" where
  "write_sectors dev lba 0 sector dir s = Some (0, s)"
| "write_sectors dev lba (Suc n) sector dir s = do {
     (r, s) \<leftarrow> block_write dev (lba + sector) 1
       (Some (take MVHFS_SECTOR_SIZE (drop (sector * MVHFS_SECTOR_SIZE) dir))) s;
     if r \<noteq> 0 then Some (- 1, s) else write_sectors dev lba n (sector + 1) dir s }"

definition commit_directory :: "mvhfs_t \<Rightarrow> 'w block_layer \<Rightarrow> (int \<times> mvhfs_t \<times> 'w block_layer) option" where
  "commit_directory fs s = do {
     let new_directory_slot = directory_slot fs XOR 1;
     let new_superblock_slot = superblock_slot fs XOR 1;
     (device, s) \<leftarrow> device_info (fs_device_id fs) s;
     case device of
       None \<Rightarrow> Some (- 1, fs, s)
     | Some d \<Rightarrow> do {
         (r, s) \<leftarrow> write_sectors (fs_device_id fs) (directory_lba new_directory_slot) MVHFS_DIRECTORY_SECTORS 0 (directory fs) s;
         if r \<noteq> 0 then Some (- 1, fs, s)
         else do {
           let superblock = build_superblock (replicate 512 0) (sector_count d) (add64 (generation fs) 1)
             new_directory_slot (crc32 (Some (directory fs)) MVHFS_DIRECTORY_BYTES);
           (r, s) \<leftarrow> block_write (fs_device_id fs) new_superblock_slot 1 (Some superblock) s;
           if r \<noteq> 0 then Some (- 1, fs, s)
           else Some (0, fs\<lparr>directory_slot := new_directory_slot, superblock_slot := new_superblock_slot,
             generation := add64 (generation fs) 1\<rparr>, s) } } }"

subsection \<open>Formatting and mounting\<close>

fun write_same :: "nat \<Rightarrow> nat \<Rightarrow> nat \<Rightarrow> nat \<Rightarrow> bytes \<Rightarrow> 'w block_layer \<Rightarrow> (int \<times> 'w block_layer) option" where
  "write_same dev lba 0 index sector s = Some (0, s)"
| "write_same dev lba (Suc n) index sector s = do {
     (r, s) \<leftarrow> block_write dev (lba + index) 1 (Some sector) s;
     if r \<noteq> 0 then Some (- 1, s) else write_same dev lba n (index + 1) sector s }"

definition mvhfs_format :: "nat \<Rightarrow> 'w block_layer \<Rightarrow> (int \<times> 'w block_layer) option" where
  "mvhfs_format dev s = do {
     (device, s) \<leftarrow> device_info dev s;
     case device of
       None \<Rightarrow> Some (- 1, s)
     | Some d \<Rightarrow>
       if sector_size d \<noteq> MVHFS_SECTOR_SIZE \<or> sector_count d < MVHFS_MIN_SECTORS \<or> bd_writable d = 0 then Some (- 1, s)
       else do {
         let sector = replicate MVHFS_SECTOR_SIZE 0;
         let zero_crc = fold (\<lambda>index crc. crc32_update crc (Some sector) MVHFS_SECTOR_SIZE) [0..<MVHFS_DIRECTORY_SECTORS] 0;
         (r, s) \<leftarrow> write_same dev MVHFS_DIRECTORY0_LBA (MVHFS_DIRECTORY_SECTORS * 2) 0 sector s;
         if r \<noteq> 0 then Some (- 1, s)
         else do {
           let sector = build_superblock sector (sector_count d) 0 1 zero_crc;
           (r, s) \<leftarrow> block_write dev 1 1 (Some sector) s;
           if r \<noteq> 0 then Some (- 1, s)
           else do {
             let sector = build_superblock sector (sector_count d) 1 0 zero_crc;
             block_write dev 0 1 (Some sector) s } } } }"

text \<open>Read one superblock into a buffer and validate it.\<close>

definition probe_superblock :: "nat \<Rightarrow> nat \<Rightarrow> nat \<Rightarrow> 'w block_layer \<Rightarrow> (bool \<times> bytes \<times> 'w block_layer) option" where
  "probe_superblock dev lba sectors s = do {
     (r, buf, s) \<leftarrow> block_read dev lba 1 (Some (replicate MVHFS_SECTOR_SIZE 0)) s;
     sector \<leftarrow> buf;
     if r \<noteq> 0 then Some (False, sector, s)
     else let (v, sector) = validate_superblock sector sectors in Some (v = 0, sector, s) }"

definition mvhfs_mount ::
  "mvhfs_t option \<Rightarrow> nat \<Rightarrow> 'w block_layer \<Rightarrow> (int \<times> mvhfs_t option \<times> 'w block_layer) option" where
  "mvhfs_mount filesystem dev s =
     (case filesystem of
        None \<Rightarrow> Some (- 1, None, s)
      | Some fs \<Rightarrow> do {
          (device, s) \<leftarrow> device_info dev s;
          case device of
            None \<Rightarrow> Some (- 1, Some fs, s)
          | Some d \<Rightarrow>
            if sector_size d \<noteq> MVHFS_SECTOR_SIZE \<or> sector_count d < MVHFS_MIN_SECTORS then Some (- 1, Some fs, s)
            else do {
              let fs = fs\<lparr>mounted := 0\<rparr>;
              (first_valid, first, s) \<leftarrow> probe_superblock dev 0 (sector_count d) s;
              (second_valid, second, s) \<leftarrow> probe_superblock dev 1 (sector_count d) s;
              if \<not> first_valid \<and> \<not> second_valid then Some (- 1, Some fs, s)
              else if first_valid \<and> (\<not> second_valid \<or> load64 second 24 \<le> load64 first 24) then do {
                (r, fs, s) \<leftarrow> mount_from_superblock fs dev 0 first s;
                if r = 0 then Some (0, Some fs, s)
                else if second_valid then do {
                  (r, fs, s) \<leftarrow> mount_from_superblock fs dev 1 second s;
                  Some (r, Some fs, s) }
                else Some (- 1, Some fs, s) }
              else do {
                (r, fs, s) \<leftarrow> mount_from_superblock fs dev 1 second s;
                if r = 0 then Some (0, Some fs, s)
                else if first_valid then do {
                  (r, fs, s) \<leftarrow> mount_from_superblock fs dev 0 first s;
                  Some (r, Some fs, s) }
                else Some (- 1, Some fs, s) } } })"

subsection \<open>Files\<close>

text \<open>Commit the changed directory, or put the old entry back.\<close>

definition commit_entry :: "mvhfs_t \<Rightarrow> nat \<Rightarrow> bytes \<Rightarrow> 'w block_layer \<Rightarrow> (int \<times> mvhfs_t option \<times> 'w block_layer) option" where
  "commit_entry fs entry backup s = do {
     (r, fs, s) \<leftarrow> commit_directory fs s;
     if r \<noteq> 0 then Some (- 1, Some (fs\<lparr>directory := put_bytes (directory fs) entry backup\<rparr>), s)
     else Some (0, Some fs, s) }"

definition entry_backup :: "mvhfs_t \<Rightarrow> nat \<Rightarrow> bytes" where
  "entry_backup fs entry = take MVHFS_ENTRY_SIZE (drop entry (directory fs))"

definition new_entry :: "bytes \<Rightarrow> nat \<Rightarrow> bytes \<Rightarrow> bytes" where
  "new_entry dir entry name =
     (let dir = clear_bytes dir entry MVHFS_ENTRY_SIZE;
          dir = put_bytes dir entry (takeWhile (\<lambda>c. c \<noteq> 0) name);
          dir = store32 dir (entry + 32) 1;
          dir = store32 dir (entry + 36) 0;
          dir = store32 dir (entry + 40) 0 in
      store32 dir (entry + 44) 0)"

definition mvhfs_create ::
  "mvhfs_t option \<Rightarrow> bytes option \<Rightarrow> 'w block_layer \<Rightarrow> (int \<times> mvhfs_t option \<times> 'w block_layer) option" where
  "mvhfs_create filesystem name s =
     (case filesystem of
        None \<Rightarrow> Some (- 1, None, s)
      | Some fs \<Rightarrow>
        if mounted fs = 0 \<or> \<not> valid_name name \<or> find_entry fs (the name) \<noteq> None then Some (- 1, Some fs, s)
        else case find_free fs of
            None \<Rightarrow> Some (- 1, Some fs, s)
          | Some slot \<Rightarrow>
            let entry = entry_at slot; backup = entry_backup fs entry in
            commit_entry (fs\<lparr>directory := new_entry (directory fs) entry (the name)\<rparr>) entry backup s)"

fun write_data :: "nat \<Rightarrow> nat \<Rightarrow> nat \<Rightarrow> nat \<Rightarrow> nat \<Rightarrow> nat \<Rightarrow> bytes \<Rightarrow> 'w block_layer \<Rightarrow> (int \<times> 'w block_layer) option" where
  "write_data dev lba 0 sector_index offset len input s = Some (0, s)"
| "write_data dev lba (Suc n) sector_index offset len input s = do {
     let chunk = (if MVHFS_SECTOR_SIZE < len - offset then MVHFS_SECTOR_SIZE else len - offset);
     let sector = put_bytes (replicate MVHFS_SECTOR_SIZE 0) 0 (take chunk (drop offset input));
     (r, s) \<leftarrow> block_write dev (lba + sector_index) 1 (Some sector) s;
     if r \<noteq> 0 then Some (- 1, s)
     else write_data dev lba n (sector_index + 1) (offset + chunk) len input s }"

definition mvhfs_write ::
  "mvhfs_t option \<Rightarrow> bytes option \<Rightarrow> bytes option \<Rightarrow> nat \<Rightarrow> 'w block_layer \<Rightarrow> (int \<times> mvhfs_t option \<times> 'w block_layer) option" where
  "mvhfs_write filesystem name data len s =
     (case filesystem of
        None \<Rightarrow> Some (- 1, None, s)
      | Some fs \<Rightarrow>
        if mounted fs = 0 \<or> \<not> valid_name name \<or> MVHFS_FILE_MAX < len \<or> data = None \<and> len \<noteq> 0 then Some (- 1, Some fs, s)
        else case find_entry fs (the name) of
            None \<Rightarrow> Some (- 1, Some fs, s)
          | Some file \<Rightarrow> do {
              let entry = entry_at file;
              let backup = entry_backup fs entry;
              let new_slot = load32 (directory fs) (entry + 44) XOR 1;
              (r, s) \<leftarrow> write_data (fs_device_id fs) (data_lba file (unat new_slot)) MVHFS_SECTORS_PER_COPY 0 0 len
                (case data of None \<Rightarrow> [] | Some input \<Rightarrow> input) s;
              if r \<noteq> 0 then Some (- 1, Some fs, s)
              else
                let dir = store32 (directory fs) (entry + 36) (word_of_nat len);
                    dir = store32 dir (entry + 40) (crc32 data len);
                    dir = store32 dir (entry + 44) new_slot in
                commit_entry (fs\<lparr>directory := dir\<rparr>) entry backup s })"

function read_data ::
  "nat \<Rightarrow> nat \<Rightarrow> nat \<Rightarrow> nat \<Rightarrow> nat \<Rightarrow> u32 \<Rightarrow> bytes \<Rightarrow> bytes \<Rightarrow> 'w block_layer \<Rightarrow> (int \<times> u32 \<times> bytes \<times> 'w block_layer) option" where
  "read_data dev lba sector_index offset file_size check output sector s =
     (if offset < file_size then do {
        let chunk = (if MVHFS_SECTOR_SIZE < file_size - offset then MVHFS_SECTOR_SIZE else file_size - offset);
        (r, buf, s) \<leftarrow> block_read dev (lba + sector_index) 1 (Some sector) s;
        sector \<leftarrow> buf;
        if r \<noteq> 0 then Some (- 1, check, output, s)
        else read_data dev lba (sector_index + 1) (offset + chunk) file_size (crc32_update check (Some sector) chunk)
          (put_bytes output offset (take chunk sector)) sector s }
      else Some (0, check, output, s))"
  by auto
termination
  by (relation "measure (\<lambda>(dev, lba, sector_index, offset, file_size, check, output, sector, s). file_size - offset)") auto

declare read_data.simps [simp del]

definition mvhfs_read ::
  "mvhfs_t option \<Rightarrow> bytes option \<Rightarrow> bytes option \<Rightarrow> nat \<Rightarrow> nat option \<Rightarrow> 'w block_layer \<Rightarrow>
   (int \<times> bytes option \<times> nat option \<times> 'w block_layer) option" where
  "mvhfs_read filesystem name buffer capacity size_out s =
     (case filesystem of
        None \<Rightarrow> Some (- 1, buffer, size_out, s)
      | Some fs \<Rightarrow>
        if mounted fs = 0 \<or> \<not> valid_name name \<or> size_out = None then Some (- 1, buffer, size_out, s)
        else case find_entry fs (the name) of
            None \<Rightarrow> Some (- 1, buffer, size_out, s)
          | Some file \<Rightarrow>
            let entry = entry_at file;
                file_size = unat (load32 (directory fs) (entry + 36));
                active_slot = unat (load32 (directory fs) (entry + 44)) in
            if MVHFS_FILE_MAX < file_size \<or> capacity < file_size \<or> buffer = None \<and> file_size \<noteq> 0
            then Some (- 2, buffer, Some file_size, s)
            else if 1 < active_slot then Some (- 3, buffer, Some file_size, s)
            else do {
              (r, check, output, s) \<leftarrow> read_data (fs_device_id fs) (data_lba file active_slot) 0 0 file_size 0
                (case buffer of None \<Rightarrow> [] | Some b \<Rightarrow> b) (replicate MVHFS_SECTOR_SIZE 0) s;
              let buffer = map_option (\<lambda>_. output) buffer;
              if r \<noteq> 0 then Some (- 1, buffer, Some file_size, s)
              else Some (if check = load32 (directory fs) (entry + 40) then 0 else - 3, buffer, Some file_size, s) })"

definition mvhfs_remove ::
  "mvhfs_t option \<Rightarrow> bytes option \<Rightarrow> 'w block_layer \<Rightarrow> (int \<times> mvhfs_t option \<times> 'w block_layer) option" where
  "mvhfs_remove filesystem name s =
     (case filesystem of
        None \<Rightarrow> Some (- 1, None, s)
      | Some fs \<Rightarrow>
        if mounted fs = 0 \<or> \<not> valid_name name then Some (- 1, Some fs, s)
        else case find_entry fs (the name) of
            None \<Rightarrow> Some (- 1, Some fs, s)
          | Some file \<Rightarrow>
            let entry = entry_at file; backup = entry_backup fs entry in
            commit_entry (fs\<lparr>directory := clear_bytes (directory fs) entry MVHFS_ENTRY_SIZE\<rparr>) entry backup s)"

definition list_step ::
  "mvhfs_t \<Rightarrow> nat \<Rightarrow> nat \<Rightarrow> nat \<times> (nat \<Rightarrow> mvhfs_entry_t) option \<Rightarrow> nat \<times> (nat \<Rightarrow> mvhfs_entry_t) option" where
  "list_step fs capacity index acc =
     (let entry = entry_at index; (count, entries) = acc in
      if load32 (directory fs) (entry + 32) = 0 then (count, entries)
      else (count + 1, case entries of
          None \<Rightarrow> None
        | Some es \<Rightarrow>
          if count < capacity
          then Some (es(count := \<lparr>me_name = take MVHFS_NAME_MAX (drop entry (directory fs)),
                 me_size = unat (load32 (directory fs) (entry + 36))\<rparr>))
          else Some es))"

definition mvhfs_list ::
  "mvhfs_t option \<Rightarrow> (nat \<Rightarrow> mvhfs_entry_t) option \<Rightarrow> nat \<Rightarrow> nat \<times> (nat \<Rightarrow> mvhfs_entry_t) option" where
  "mvhfs_list filesystem entries capacity =
     (case filesystem of
        None \<Rightarrow> (0, entries)
      | Some fs \<Rightarrow>
        if mounted fs = 0 then (0, entries)
        else fold (list_step fs capacity) [0..<MVHFS_MAX_FILES] (0, entries))"

end
