(* ===== verification/Mvhfs_Disk.thy ===== *)
theory Mvhfs_Disk
  imports Mvhfs
begin

section \<open>What a mounted file system is on the disk\<close>

text \<open>
  The state of the disk is a function from sectors to their bytes. \<open>current\<close> says which
  superblock, directory copy and generation are in force; mounting finds exactly these, and a
  commit moves from one such state to the next with a single sector write, so that a commit
  that stops anywhere leaves the disk in the old or in the new state. Drivers are assumed to
  deliver what was written and to write a sector entirely or not at all.
\<close>

definition mvh_device :: "nat \<Rightarrow> ('w \<Rightarrow> nat \<Rightarrow> bytes) \<Rightarrow> 'w block_layer \<Rightarrow> bool" where
  "mvh_device dev sec s \<longleftrightarrow> disk_device dev sec s \<and>
     (let d = block_devices s dev in
        sector_size d = MVHFS_SECTOR_SIZE \<and> MVHFS_MIN_SECTORS \<le> sector_count d \<and> bd_writable d \<noteq> 0 \<and>
        writes_sectors (the (bd_write d)) (bd_context d) (sector_count d) sec)"

abbreviation sectors :: "'w block_layer \<Rightarrow> nat \<Rightarrow> nat" where
  "sectors s dev \<equiv> sector_count (block_devices s dev)"

definition sb_valid :: "bytes \<Rightarrow> nat \<Rightarrow> bool" where
  "sb_valid sb n \<longleftrightarrow> fst (validate_superblock sb n) = 0"

definition dir_of :: "(nat \<Rightarrow> bytes) \<Rightarrow> nat \<Rightarrow> bytes" where
  "dir_of D slot = entry_array D (directory_lba slot) MVHFS_DIRECTORY_SECTORS"

definition current :: "(nat \<Rightarrow> bytes) \<Rightarrow> nat \<Rightarrow> nat \<Rightarrow> nat \<Rightarrow> nat \<Rightarrow> bytes \<Rightarrow> bool" where
  "current D n sb ds g dir \<longleftrightarrow> sb \<le> 1 \<and> ds \<le> 1 \<and> length dir = MVHFS_DIRECTORY_BYTES \<and>
     sb_valid (D sb) n \<and> unat (load64 (D sb) 24) = g \<and> unat (load32 (D sb) 32) = ds \<and>
     load32 (D sb) 40 = crc32_all 0 dir \<and> dir_of D ds = dir \<and>
     (sb_valid (D (1 - sb)) n \<longrightarrow> unat (load64 (D (1 - sb)) 24) < g)"

definition fs_inv :: "nat \<Rightarrow> ('w \<Rightarrow> nat \<Rightarrow> bytes) \<Rightarrow> 'w block_layer \<Rightarrow> mvhfs_t \<Rightarrow> bool" where
  "fs_inv dev sec s fs \<longleftrightarrow> mvh_device dev sec s \<and> mounted fs \<noteq> 0 \<and> fs_device_id fs = dev \<and>
     current (sec (hardware s)) (sectors s dev) (superblock_slot fs) (directory_slot fs) (generation fs) (directory fs)"

subsection \<open>The device\<close>

lemma mvh_device_disk: "mvh_device dev sec s \<Longrightarrow> disk_device dev sec s"
  by (simp add: mvh_device_def)

lemma block_list_ok:
  "block_ok s \<Longrightarrow> block_list (Some (block_devices s)) BLOCK_DEVICE_MAX s = Some (block_device_count s, Some (block_devices s), s)"
proof -
  assume ok: "block_ok s"
  have "fold (\<lambda>index ds. ds(index := block_devices s index)) xs (block_devices s) = block_devices s" for xs
    by (induction xs) (simp_all del: fun_upd_apply)
  then show ?thesis
    using ok by (auto simp: block_list_def block_ok_def block_unlock_id Let_def)
qed

lemma device_info_ok:
  assumes "disk_device dev sec s"
  shows "device_info dev s = Some (Some (block_devices s dev), s)"
proof -
  have ok: "block_ok s" and dev: "dev < block_device_count s"
    using assms by (auto simp: disk_device_def)
  then have ids: "bd_id (block_devices s index) = index" if "index < block_device_count s" for index
    using that by (simp add: block_ok_def device_ok_def)
  have "find (\<lambda>index. bd_id (block_devices s index) = dev) [0..<block_device_count s] = Some dev"
    unfolding find_Some_iff using dev by (intro exI [of _ dev]) (simp add: ids)
  then show ?thesis
    using ok by (simp add: device_info_def block_list_ok)
qed

lemma full_sectors_upd: "full_sectors n D \<Longrightarrow> length data = 512 \<Longrightarrow> full_sectors n (D(lba := data))"
  by (simp add: full_sectors_def)

lemma mvh_device_hardware:
  "mvh_device dev sec s \<Longrightarrow> full_sectors (sectors s dev) (sec w) \<Longrightarrow> mvh_device dev sec (s\<lparr>hardware := w\<rparr>)"
  by (simp add: mvh_device_def disk_device_def Let_def)

lemma mvh_write:
  assumes dev: "mvh_device dev sec s" and lba: "lba < sectors s dev" and data: "length data = 512"
  obtains r w where "block_write dev lba 1 (Some data) s = Some (r, s\<lparr>hardware := w\<rparr>)"
    and "mvh_device dev sec (s\<lparr>hardware := w\<rparr>)"
    and "sec w = (sec (hardware s))(lba := data) \<or> r \<noteq> 0 \<and> sec w = sec (hardware s)"
proof -
  let ?d = "block_devices s dev"
  obtain r w where rw: "the (bd_write ?d) (bd_context ?d) lba 1 data (hardware s) = (r, w)"
    by fastforce
  have full: "full_sectors (sectors s dev) (sec (hardware s))" and laws: "writes_sectors (the (bd_write ?d)) (bd_context ?d) (sectors s dev) sec"
    using dev by (simp_all add: mvh_device_def disk_device_def Let_def)
  have "lba < sectors s dev \<and> length data = 512 \<and> full_sectors (sectors s dev) (sec (hardware s))"
    using lba data full by simp
  from laws [unfolded writes_sectors_def, rule_format, OF this]
  have sec: "sec w = (sec (hardware s))(lba := data) \<or> r \<noteq> 0 \<and> sec w = sec (hardware s)"
    using rw by simp
  moreover from this have "full_sectors (sectors s dev) (sec w)"
    using full data by (auto simp: full_sectors_upd)
  moreover have "block_write dev lba 1 (Some data) s = Some (r, s\<lparr>hardware := w\<rparr>)"
    using dev lba rw by (simp add: block_write_eq mvh_device_def disk_device_def Let_def)
  ultimately show ?thesis
    using dev by (intro that) (auto intro: mvh_device_hardware)
qed

subsection \<open>Superblocks\<close>

lemma take_store32: "n \<le> i \<Longrightarrow> take n (store32 d i v) = take n d"
  by (simp add: store32_def)

lemma take_store64: "n \<le> i \<Longrightarrow> take n (store64 d i v) = take n d"
  by (simp add: store64_def take_store32)

lemma store32_store32: "store32 (store32 d i v) i w = store32 d i w"
  by (simp add: store32_def list_update_swap)

lemma store32_same:
  assumes "d ! i = 0" "d ! (i + 1) = 0" "d ! (i + 2) = 0" "d ! (i + 3) = 0"
  shows "store32 d i 0 = d"
proof -
  have same: "xs[k := 0] = xs" if "xs ! k = 0" for xs :: bytes and k
    using list_update_id [of xs k] that by simp
  show ?thesis
    unfolding store32_def using assms by (simp add: same)
qed

lemma superblock_fields_values:
  fixes t g ds :: nat and crc :: u32
  assumes "length sector = 512"
  defines "S \<equiv> superblock_fields sector t g ds crc"
  shows "length S = 512" "take 8 S = mvhfs_magic" "load32 S 8 = MVHFS_VERSION" "load32 S 12 = 512"
    "load64 S 16 = word_of_nat t" "load64 S 24 = word_of_nat g" "load32 S 32 = word_of_nat ds" "load32 S 36 = 32"
    "load32 S 40 = crc" "load32 S 44 = MVHFS_CLEAN_MARKER" "load32 S 52 = 10" "load32 S 56 = 8" "store32 S 48 0 = S"
proof -
  have clear: "clear_bytes sector 0 512 = replicate 512 0"
    using clear_bytes_all [of sector] assms by simp
  note S = S_def [unfolded superblock_fields_def Let_def clear]
  have mag: "length mvhfs_magic = 8"
    by (simp add: mvhfs_magic_def)
  show "length S = 512"
    by (simp add: S)
  show "take 8 S = mvhfs_magic"
    by (simp add: S take_store32 take_store64 put_bytes_eq mag)
  show "load32 S 8 = MVHFS_VERSION" "load32 S 12 = 512" "load64 S 16 = word_of_nat t" "load64 S 24 = word_of_nat g"
    "load32 S 32 = word_of_nat ds" "load32 S 36 = 32" "load32 S 40 = crc" "load32 S 44 = MVHFS_CLEAN_MARKER"
    "load32 S 52 = 10" "load32 S 56 = 8"
    by (simp_all add: S buf_simps mag)
  show "store32 S 48 0 = S"
    by (rule store32_same) (simp_all add: S buf_simps mag)
qed

lemma build_superblock_ok:
  fixes crc :: u32
  assumes "length sector = 512" and "MVHFS_MIN_SECTORS \<le> t" "t \<le> n" "t < 2 ^ 64" and "g < 2 ^ 64" and "ds \<le> 1"
  defines "B \<equiv> build_superblock sector t g ds crc"
  shows "length B = 512" "sb_valid B n" "unat (load64 B 24) = g" "unat (load32 B 32) = ds" "load32 B 40 = crc"
proof -
  define S where "S = superblock_fields sector t g ds crc"
  note vals = superblock_fields_values [OF assms(1), of t g ds crc, folded S_def]
  have B: "B = store32 S 48 (crc32 (Some S) 512)"
    by (simp add: B_def build_superblock_def S_def Let_def)
  show "length B = 512"
    by (simp add: B vals)
  show "unat (load64 B 24) = g" "load32 B 40 = crc"
    using assms(5) by (simp_all add: B buf_simps vals unat_of_nat)
  have ds: "load32 B 32 = word_of_nat ds"
    by (simp add: B buf_simps vals)
  show "unat (load32 B 32) = ds"
    using assms(6) by (simp add: ds unat_of_nat)
  have "superblock_checks B n"
    using assms(2-6) unfolding superblock_checks_def ds
    by (simp add: B buf_simps vals take_store32 unat_of_nat word_less_nat_alt)
  then show "sb_valid B n"
    by (simp add: sb_valid_def validate_superblock_def Let_def B store32_store32 vals buf_simps)
qed

subsection \<open>Mounting\<close>

lemma mvh_device_same: "mvh_device dev sec s \<Longrightarrow> sec w = sec (hardware s) \<Longrightarrow> mvh_device dev sec (s\<lparr>hardware := w\<rparr>)"
  by (rule mvh_device_hardware) (simp_all add: mvh_device_def disk_device_def Let_def)

lemma validate_loads:
  assumes "length sb = 512"
  shows "load64 (snd (validate_superblock sb n)) 24 = load64 sb 24" "load32 (snd (validate_superblock sb n)) 32 = load32 sb 32"
    "load32 (snd (validate_superblock sb n)) 40 = load32 sb 40"
  using assms by (simp_all add: validate_superblock_def Let_def buf_simps)

lemma probe_superblock_disk:
  assumes "mvh_device dev sec s" and "slot \<le> 1"
  obtains w where "probe_superblock dev slot (sectors s dev) s =
      Some (sb_valid (sec (hardware s) slot) (sectors s dev), snd (validate_superblock (sec (hardware s) slot) (sectors s dev)),
        s\<lparr>hardware := w\<rparr>)"
    and "sec w = sec (hardware s)"
proof -
  have "slot < sectors s dev"
    using assms by (simp add: mvh_device_def Let_def)
  then obtain w where "block_read dev slot 1 (Some (replicate 512 0)) s = Some (0, Some (sec (hardware s) slot), s\<lparr>hardware := w\<rparr>)"
    and "sec w = sec (hardware s)"
    using disk_read_sector [OF mvh_device_disk [OF assms(1)]] by (metis length_replicate)
  then show ?thesis
    by (intro that [of w]) (simp_all add: probe_superblock_def sb_valid_def split: prod.split)
qed

lemma directory_lba_bound: "directory_lba slot + 4 \<le> 10" "2 \<le> directory_lba slot"
  by (simp_all add: directory_lba_def)

lemma read_sectors_disk:
  assumes "mvh_device dev sec s" and "i + n \<le> 4" and "length dir = 2048"
  shows "\<exists>w. read_sectors dev slot n i dir s =
      Some (0, take (i * 512) dir @ entry_array (sec (hardware s)) (directory_lba slot + i) n @ drop ((i + n) * 512) dir,
        s\<lparr>hardware := w\<rparr>) \<and> sec w = sec (hardware s)"
  using assms
proof (induction n arbitrary: i dir s)
  case 0
  then show ?case
    by (intro exI [of _ "hardware s"]) (simp add: entry_array_def)
next
  case (Suc n)
  let ?D = "sec (hardware s)" and ?l = "directory_lba slot + i"
  have lba: "?l < sectors s dev"
    using Suc.prems directory_lba_bound [of slot] by (simp add: mvh_device_def Let_def)
  have chunk: "length (take 512 (drop (i * 512) dir)) = 512"
    using Suc.prems by simp
  obtain w where rd: "block_read dev ?l 1 (Some (take 512 (drop (i * 512) dir))) s = Some (0, Some (?D ?l), s\<lparr>hardware := w\<rparr>)"
    and w: "sec w = ?D"
    using disk_read_sector [OF mvh_device_disk [OF Suc.prems(1)] lba chunk] by blast
  have len: "length (?D ?l) = 512"
    using disk_sector_length [OF mvh_device_disk [OF Suc.prems(1)] lba] .
  let ?dir = "put_bytes dir (i * 512) (?D ?l)"
  have dir: "?dir = take (i * 512) dir @ ?D ?l @ drop (Suc i * 512) dir"
    using Suc.prems len by (simp add: put_bytes_eq add.commute)
  obtain v where "read_sectors dev slot n (Suc i) ?dir (s\<lparr>hardware := w\<rparr>) =
      Some (0, take (Suc i * 512) ?dir @ entry_array ?D (Suc ?l) n @ drop ((Suc i + n) * 512) ?dir, s\<lparr>hardware := v\<rparr>)"
    and "sec v = ?D"
    using Suc.IH [of "s\<lparr>hardware := w\<rparr>" "Suc i" ?dir] Suc.prems w by (auto intro: mvh_device_same)
  moreover have "take (Suc i * 512) ?dir = take (i * 512) dir @ ?D ?l" "drop ((Suc i + n) * 512) ?dir = drop ((Suc i + n) * 512) dir"
    unfolding dir using Suc.prems len by (simp_all add: ac_simps)
  ultimately show ?case
    using rd by (intro exI [of _ v]) (simp add: entry_array_Suc)
qed

lemma length_dir_of:
  assumes "mvh_device dev sec s"
  shows "length (dir_of (sec (hardware s)) slot) = 2048"
proof -
  have "length (sec (hardware s) l) = 512" if "l < 10" for l
    using disk_sector_length [OF mvh_device_disk [OF assms]] that assms by (simp add: mvh_device_def Let_def)
  then show ?thesis
    using length_entry_array [of "directory_lba slot" 4 "sec (hardware s)"] directory_lba_bound [of slot] by (simp add: dir_of_def)
qed

lemma mount_from_superblock_disk:
  fixes sb :: bytes
  assumes "mvh_device dev sec s" and "length (directory fs) = 2048"
  defines "dir \<equiv> dir_of (sec (hardware s)) (unat (load32 sb 32))"
  shows "\<exists>w. sec w = sec (hardware s) \<and> mount_from_superblock fs dev slot sb s =
    (if crc32_all 0 dir = load32 sb 40
     then Some (0, \<lparr>fs_device_id = dev, superblock_slot = slot, directory_slot = unat (load32 sb 32),
       generation = unat (load64 sb 24), mounted = 1, directory = dir\<rparr>, s\<lparr>hardware := w\<rparr>)
     else Some (- 1, fs\<lparr>directory := dir\<rparr>, s\<lparr>hardware := w\<rparr>))"
proof -
  obtain w where "read_sectors dev (unat (load32 sb 32)) 4 0 (directory fs) s = Some (0, dir, s\<lparr>hardware := w\<rparr>)"
    and "sec w = sec (hardware s)"
    using read_sectors_disk [OF assms(1) _ assms(2), of 0 4 "unat (load32 sb 32)"] assms(2) by (auto simp: dir_def dir_of_def)
  moreover have "length dir = 2048"
    unfolding dir_def by (rule length_dir_of [OF assms(1)])
  ultimately show ?thesis
    by (intro exI [of _ w]) (simp add: mount_from_superblock_def read_directory_def crc32_def crc32_update_take Let_def)
qed

lemma current_slot: "current D n sb ds g dir \<Longrightarrow> sb = 0 \<or> sb = 1"
  by (auto simp: current_def)

lemma mount_current:
  assumes dev: "mvh_device dev sec s" and fs: "length (directory fs) = 2048"
    and cur: "current (sec (hardware s)) (sectors s dev) sb ds g dir"
  shows "\<exists>w. mvhfs_mount (Some fs) dev s = Some (0, Some \<lparr>fs_device_id = dev, superblock_slot = sb, directory_slot = ds,
      generation = g, mounted = 1, directory = dir\<rparr>, s\<lparr>hardware := w\<rparr>) \<and> sec w = sec (hardware s)"
proof -
  let ?D = "sec (hardware s)" and ?n = "sectors s dev"
  let ?v = "\<lambda>slot. snd (validate_superblock (?D slot) ?n)"
  have len: "length (?D slot) = 512" if "slot \<le> 1" for slot
    using that disk_sector_length [OF mvh_device_disk [OF dev], of slot] dev by (simp add: mvh_device_def Let_def)
  have loads: "load64 (?v slot) 24 = load64 (?D slot) 24" "load32 (?v slot) 32 = load32 (?D slot) 32"
    "load32 (?v slot) 40 = load32 (?D slot) 40" if "slot \<le> 1" for slot
    using validate_loads [OF len [OF that]] by simp_all
  obtain w0 where p0: "probe_superblock dev 0 ?n s = Some (sb_valid (?D 0) ?n, ?v 0, s\<lparr>hardware := w0\<rparr>)" and w0: "sec w0 = ?D"
    using probe_superblock_disk [OF dev, of 0] by auto
  obtain w1 where p1: "probe_superblock dev 1 ?n (s\<lparr>hardware := w0\<rparr>) = Some (sb_valid (?D 1) ?n, ?v 1, s\<lparr>hardware := w1\<rparr>)" and w1: "sec w1 = ?D"
    using probe_superblock_disk [OF mvh_device_same [OF dev w0], of 1] w0 by auto
  have "sb \<le> 1"
    using cur by (simp add: current_def)
  obtain w where w: "sec w = ?D" "mount_from_superblock (fs\<lparr>mounted := 0\<rparr>) dev sb (?v sb) (s\<lparr>hardware := w1\<rparr>) =
      Some (0, \<lparr>fs_device_id = dev, superblock_slot = sb, directory_slot = ds,
        generation = g, mounted = 1, directory = dir\<rparr>, s\<lparr>hardware := w\<rparr>)"
    using mount_from_superblock_disk [OF mvh_device_same [OF dev w1], of "fs\<lparr>mounted := 0\<rparr>" sb "?v sb"] fs cur w1 loads [OF \<open>sb \<le> 1\<close>]
    by (auto simp: current_def)
  have start: "mvhfs_mount (Some fs) dev s = do {
      (first_valid, first, s) \<leftarrow> probe_superblock dev 0 ?n s;
      (second_valid, second, s) \<leftarrow> probe_superblock dev 1 ?n s;
      if \<not> first_valid \<and> \<not> second_valid then Some (- 1, Some (fs\<lparr>mounted := 0\<rparr>), s)
      else if first_valid \<and> (\<not> second_valid \<or> load64 second 24 \<le> load64 first 24) then do {
        (r, fs, s) \<leftarrow> mount_from_superblock (fs\<lparr>mounted := 0\<rparr>) dev 0 first s;
        if r = 0 then Some (0, Some fs, s)
        else if second_valid then do {
          (r, fs, s) \<leftarrow> mount_from_superblock fs dev 1 second s;
          Some (r, Some fs, s) }
        else Some (- 1, Some fs, s) }
      else do {
        (r, fs, s) \<leftarrow> mount_from_superblock (fs\<lparr>mounted := 0\<rparr>) dev 1 second s;
        if r = 0 then Some (0, Some fs, s)
        else if first_valid then do {
          (r, fs, s) \<leftarrow> mount_from_superblock fs dev 0 first s;
          Some (r, Some fs, s) }
        else Some (- 1, Some fs, s) } }"
    using dev device_info_ok [OF mvh_device_disk [OF dev]] by (simp add: mvhfs_mount_def mvh_device_def Let_def)
  show ?thesis
    using current_slot [OF cur]
  proof
    assume "sb = 0"
    then show ?thesis
      using cur w w1 loads [of 0] loads [of 1] unfolding start p0
      by (auto simp: p1 current_def word_le_nat_alt simp del: One_nat_def)
  next
    assume "sb = 1"
    then show ?thesis
      using cur w w1 loads [of 0] loads [of 1] unfolding start p0
      by (auto simp: p1 current_def word_le_nat_alt simp del: One_nat_def)
  qed
qed

subsection \<open>Committing\<close>

lemma write_sectors_disk:
  assumes "mvh_device dev sec s" and "lba + i + n \<le> sectors s dev" and "(i + n) * 512 \<le> length dir"
  shows "\<exists>r w. write_sectors dev lba n i dir s = Some (r, s\<lparr>hardware := w\<rparr>) \<and> mvh_device dev sec (s\<lparr>hardware := w\<rparr>) \<and>
    (\<forall>l. l < lba + i \<or> lba + i + n \<le> l \<longrightarrow> sec w l = sec (hardware s) l) \<and>
    (r = 0 \<longrightarrow> (\<forall>k. i \<le> k \<longrightarrow> k < i + n \<longrightarrow> sec w (lba + k) = take 512 (drop (k * 512) dir)))"
  using assms
proof (induction n arbitrary: i s)
  case 0
  then show ?case
    by (intro exI [of _ 0] exI [of _ "hardware s"]) simp
next
  case (Suc n)
  let ?data = "take 512 (drop (i * 512) dir)"
  have lba: "lba + i < sectors s dev" and len: "length ?data = 512"
    using Suc.prems by simp_all
  obtain r w where wr: "block_write dev (lba + i) 1 (Some ?data) s = Some (r, s\<lparr>hardware := w\<rparr>)"
    and dev: "mvh_device dev sec (s\<lparr>hardware := w\<rparr>)"
    and w: "sec w = (sec (hardware s))(lba + i := ?data) \<or> r \<noteq> 0 \<and> sec w = sec (hardware s)"
    using mvh_write [OF Suc.prems(1) lba len] by blast
  show ?case
  proof (cases "r = 0")
    case False
    then show ?thesis
      using wr dev w by (intro exI [of _ "- 1"] exI [of _ w]) auto
  next
    case True
    then have sec: "sec w = (sec (hardware s))(lba + i := ?data)"
      using w by simp
    obtain r' v where "write_sectors dev lba n (Suc i) dir (s\<lparr>hardware := w\<rparr>) = Some (r', s\<lparr>hardware := v\<rparr>)"
      and "mvh_device dev sec (s\<lparr>hardware := v\<rparr>)"
      and frame: "\<forall>l. l < lba + Suc i \<or> lba + Suc i + n \<le> l \<longrightarrow> sec v l = sec w l"
      and wrote: "r' = 0 \<longrightarrow> (\<forall>k. Suc i \<le> k \<longrightarrow> k < Suc i + n \<longrightarrow> sec v (lba + k) = take 512 (drop (k * 512) dir))"
      using Suc.IH [OF dev, of "Suc i"] Suc.prems by auto
    moreover have "sec v (lba + i) = ?data"
      using frame by (simp add: sec)
    then have "sec v (lba + k) = take 512 (drop (k * 512) dir)" if "r' = 0" "i \<le> k" "k < i + Suc n" for k
      using wrote that by (cases "k = i") simp_all
    moreover have "\<forall>l. l < lba + i \<or> lba + i + Suc n \<le> l \<longrightarrow> sec v l = sec (hardware s) l"
      using frame by (simp add: sec)
    ultimately show ?thesis
      using wr True by (intro exI [of _ r'] exI [of _ v]) simp
  qed
qed

lemma entry_array_cut:
  assumes "\<And>k. k < n \<Longrightarrow> D (l + k) = take 512 (drop (k * 512) dir)"
  shows "entry_array D l n = take (n * 512) dir"
  using assms
proof (induction n)
  case (Suc n)
  have "entry_array D l (Suc n) = entry_array D l n @ D (l + n)"
    by (simp add: entry_array_def)
  then show ?case
    using Suc by (simp add: take_add add.commute [of 512])
qed (simp add: entry_array_def)

lemma entry_array_cong: "(\<And>k. l \<le> k \<Longrightarrow> k < l + n \<Longrightarrow> D k = D' k) \<Longrightarrow> entry_array D l n = entry_array D' l n"
  unfolding entry_array_def by (intro arg_cong [of _ _ concat] map_cong) auto

lemma current_frame:
  assumes "current D n sb ds g dir" and "D' 0 = D 0" "D' 1 = D 1"
    and "\<And>l. directory_lba ds \<le> l \<Longrightarrow> l < directory_lba ds + 4 \<Longrightarrow> D' l = D l"
  shows "current D' n sb ds g dir"
proof -
  have "dir_of D' ds = dir_of D ds"
    unfolding dir_of_def using assms(4) by (intro entry_array_cong) simp
  moreover have "D' sb = D sb" "D' (1 - sb) = D (1 - sb)"
    using current_slot [OF assms(1)] assms(2,3) by auto
  ultimately show ?thesis
    using assms(1) by (simp add: current_def)
qed

lemma slot_flip: "sb \<le> 1 \<Longrightarrow> sb XOR 1 = 1 - sb" for sb :: nat
  by (cases sb) auto

lemma commit_directory_disk:
  assumes dev: "mvh_device dev sec s" and fs: "fs_device_id fs = dev" "length (directory fs) = 2048"
    and cur: "current (sec (hardware s)) (sectors s dev) (superblock_slot fs) (directory_slot fs) (generation fs) old"
    and gen: "generation fs + 1 < 2 ^ 64"
  defines "fs' \<equiv> fs\<lparr>directory_slot := 1 - directory_slot fs, superblock_slot := 1 - superblock_slot fs, generation := generation fs + 1\<rparr>"
  shows "\<exists>r w. commit_directory fs s = Some (if r then 0 else - 1, if r then fs' else fs, s\<lparr>hardware := w\<rparr>) \<and>
    mvh_device dev sec (s\<lparr>hardware := w\<rparr>) \<and> (\<forall>l \<ge> 10. sec w l = sec (hardware s) l) \<and>
    (current (sec w) (sectors s dev) (superblock_slot fs') (directory_slot fs') (generation fs') (directory fs) \<or>
     \<not> r \<and> current (sec w) (sectors s dev) (superblock_slot fs) (directory_slot fs) (generation fs) old)"
proof -
  let ?D = "sec (hardware s)" and ?n = "sectors s dev"
  let ?sb = "superblock_slot fs" and ?ds = "directory_slot fs" and ?dir = "directory fs" and ?g = "generation fs"
  let ?L = "directory_lba (1 - ?ds)" and ?B = "build_superblock (replicate 512 0) ?n (?g + 1) (1 - ?ds) (crc32_all 0 ?dir)"
  have le: "?sb \<le> 1" "?ds \<le> 1" and n: "522 \<le> ?n" "?n < 2 ^ 64"
    using cur dev by (simp_all add: current_def mvh_device_def disk_device_def Let_def)
  have apart: "directory_lba ?ds + 4 \<le> ?L \<or> ?L + 4 \<le> directory_lba ?ds"
    using le(2) by (auto simp: directory_lba_def)
  obtain r1 w1 where wr1: "write_sectors dev ?L 4 0 ?dir s = Some (r1, s\<lparr>hardware := w1\<rparr>)"
    and dev1: "mvh_device dev sec (s\<lparr>hardware := w1\<rparr>)"
    and frame1: "\<And>l. l < ?L \<or> ?L + 4 \<le> l \<Longrightarrow> sec w1 l = ?D l"
    and wrote: "r1 = 0 \<Longrightarrow> k < 4 \<Longrightarrow> sec w1 (?L + k) = take 512 (drop (k * 512) ?dir)" for k
    using write_sectors_disk [OF dev, of ?L 0 4 ?dir] fs n directory_lba_bound [of "1 - ?ds"] by auto
  have cur1: "current (sec w1) ?n ?sb ?ds ?g old"
    using cur apart directory_lba_bound [of "1 - ?ds"] by (intro current_frame [OF cur] frame1) auto
  have add: "add64 ?g 1 = ?g + 1"
    using gen by (intro wrap_simps)
  have start: "commit_directory fs s =
      (if r1 \<noteq> 0 then Some (- 1, fs, s\<lparr>hardware := w1\<rparr>)
       else do {
         (r, s) \<leftarrow> block_write dev (1 - ?sb) 1 (Some ?B) (s\<lparr>hardware := w1\<rparr>);
         if r \<noteq> 0 then Some (- 1, fs, s) else Some (0, fs', s) })"
    unfolding commit_directory_def Let_def slot_flip [OF le(1)] slot_flip [OF le(2)] fs(1)
      device_info_ok [OF mvh_device_disk [OF dev]] add fs'_def
    using fs(2) wr1 by (simp add: crc32_def crc32_update_take wrap_simps del: One_nat_def)
  show ?thesis
  proof (cases "r1 = 0")
    case False
    then show ?thesis
      using start dev1 cur1 frame1 directory_lba_bound [of "1 - ?ds"] by (intro exI [of _ False] exI [of _ w1]) auto
  next
    case True
    have B: "length ?B = 512" "sb_valid ?B ?n" "unat (load64 ?B 24) = ?g + 1" "unat (load32 ?B 32) = 1 - ?ds" "load32 ?B 40 = crc32_all 0 ?dir"
      using build_superblock_ok [of "replicate 512 0" ?n ?n "?g + 1" "1 - ?ds" "crc32_all 0 ?dir"] n gen by simp_all
    have dir: "dir_of (sec w1) (1 - ?ds) = ?dir"
      unfolding dir_of_def using entry_array_cut [of 4 "sec w1" ?L ?dir] wrote [OF True] fs by simp
    have lba: "1 - ?sb < sectors (s\<lparr>hardware := w1\<rparr>) dev"
      using n by simp
    obtain r2 w2 where wr2: "block_write dev (1 - ?sb) 1 (Some ?B) (s\<lparr>hardware := w1\<rparr>) = Some (r2, s\<lparr>hardware := w2\<rparr>)"
      and dev2: "mvh_device dev sec (s\<lparr>hardware := w2\<rparr>)"
      and w2: "sec w2 = (sec w1)(1 - ?sb := ?B) \<or> r2 \<noteq> 0 \<and> sec w2 = sec w1"
      using mvh_write [OF dev1 lba B(1)] by (simp del: One_nat_def) blast
    have "current (sec w2) ?n (1 - ?sb) (1 - ?ds) (?g + 1) ?dir" if "sec w2 = (sec w1)(1 - ?sb := ?B)"
    proof -
      have "dir_of (sec w2) (1 - ?ds) = dir_of (sec w1) (1 - ?ds)"
        unfolding dir_of_def that using directory_lba_bound [of "1 - ?ds"] by (intro entry_array_cong) auto
      then show ?thesis
        using B dir cur1 fs le by (auto simp: current_def that)
    qed
    moreover have "\<forall>l \<ge> 10. sec w2 l = ?D l"
      using w2 frame1 directory_lba_bound [of "1 - ?ds"] by auto
    ultimately show ?thesis
      using start True wr2 dev2 w2 cur1 by (intro exI [of _ "r2 = 0"] exI [of _ w2]) (auto simp: fs'_def)
  qed
qed

end
