(* ===== verification/Mvhfs_Props.thy ===== *)
theory Mvhfs_Props
  imports Mvhfs_Disk
begin

section \<open>Files of MVHFS\<close>

text \<open>
  A file is a directory entry and the sectors of its active copy. The theorems say that a
  write is atomic, whatever the driver does, and that a read returns the contents of the file.
\<close>

definition lookup :: "bytes \<Rightarrow> bytes \<Rightarrow> nat option" where
  "lookup dir name = find (\<lambda>i. entry_name_equal dir (entry_at i) name) [0..<MVHFS_MAX_FILES]"

definition stored :: "(nat \<Rightarrow> bytes) \<Rightarrow> bytes \<Rightarrow> nat \<Rightarrow> bytes \<Rightarrow> bool" where
  "stored D dir i data \<longleftrightarrow>
     (let slot = unat (load32 dir (entry_at i + 44)) in
        length data \<le> MVHFS_FILE_MAX \<and> slot \<le> 1 \<and> unat (load32 dir (entry_at i + 36)) = length data \<and>
        load32 dir (entry_at i + 40) = crc32_all 0 data \<and>
        take (length data) (entry_array D (data_lba i slot) MVHFS_SECTORS_PER_COPY) = data)"

definition has_file :: "(nat \<Rightarrow> bytes) \<Rightarrow> bytes \<Rightarrow> bytes \<Rightarrow> bytes \<Rightarrow> bool" where
  "has_file D dir name data \<longleftrightarrow> (\<exists>i. lookup dir name = Some i \<and> stored D dir i data)"

lemma find_entry_lookup: "find_entry fs name = lookup (directory fs) name"
  by (simp add: find_entry_def lookup_def)

lemma lookup_Some_less: "lookup dir name = Some i \<Longrightarrow> i < 32"
  unfolding lookup_def find_Some_iff by auto

lemma data_lba_bound: "i < 32 \<Longrightarrow> slot \<le> 1 \<Longrightarrow> data_lba i slot + 8 \<le> 522" "10 \<le> data_lba i slot"
  by (simp_all add: data_lba_def)

lemma data_lba_apart:
  "slot \<le> 1 \<Longrightarrow> slot' \<le> 1 \<Longrightarrow> i \<noteq> j \<or> slot \<noteq> slot' \<Longrightarrow> data_lba i slot + 8 \<le> data_lba j slot' \<or> data_lba j slot' + 8 \<le> data_lba i slot"
proof -
  assume "slot \<le> 1" "slot' \<le> 1" "i \<noteq> j \<or> slot \<noteq> slot'"
  then have "2 * i + slot \<noteq> 2 * j + slot'"
    by presburger
  then have "Suc (2 * i + slot) \<le> 2 * j + slot' \<or> Suc (2 * j + slot') \<le> 2 * i + slot"
    by linarith
  then show ?thesis
    unfolding data_lba_def by linarith
qed

subsection \<open>Entries\<close>

lemma name_equal_loop_cong:
  "(\<And>k. index \<le> k \<Longrightarrow> k < index + n \<Longrightarrow> dir' ! (e + k) = dir ! (e + k)) \<Longrightarrow>
   name_equal_loop n index dir' e name = name_equal_loop n index dir e name"
  by (induction n arbitrary: index) auto

lemma entry_name_equal_cong:
  assumes "\<And>k. k < 36 \<Longrightarrow> dir' ! (e + k) = dir ! (e + k)" and "e + 36 \<le> length dir" "length dir' = length dir"
  shows "entry_name_equal dir' e name = entry_name_equal dir e name"
proof -
  have "load32 dir' (e + 32) = load32 dir (e + 32)"
    using assms by (intro sec32.load_bytes) (auto simp: add.assoc)
  moreover have "name_equal_loop 32 0 dir' e name = name_equal_loop 32 0 dir e name"
    using assms by (intro name_equal_loop_cong) auto
  ultimately show ?thesis
    by (simp add: entry_name_equal_def)
qed

lemma lookup_cong:
  assumes "\<And>j. j < 32 \<Longrightarrow> entry_name_equal dir' (entry_at j) name = entry_name_equal dir (entry_at j) name"
  shows "lookup dir' name = lookup dir name"
  unfolding lookup_def by (rule find_cong) (use assms in auto)

text \<open>A file only depends on its entry and on the sectors of its active copy.\<close>

lemma stored_cong:
  assumes "stored D dir i data" and "i < 32" and len: "length dir = 2048" "length dir' = 2048"
    and entry: "\<And>k. k < 64 \<Longrightarrow> dir' ! (entry_at i + k) = dir ! (entry_at i + k)"
    and sec: "\<And>l. data_lba i (unat (load32 dir (entry_at i + 44))) \<le> l \<Longrightarrow> l < data_lba i (unat (load32 dir (entry_at i + 44))) + 8 \<Longrightarrow> D' l = D l"
  shows "stored D' dir' i data"
proof -
  have loads: "load32 dir' (entry_at i + k) = load32 dir (entry_at i + k)" if "k \<le> 60" for k
    using assms(2) len entry that by (intro sec32.load_bytes) (auto simp: add.assoc entry_at_def)
  moreover have "entry_array D' (data_lba i (unat (load32 dir (entry_at i + 44)))) 8 = entry_array D (data_lba i (unat (load32 dir (entry_at i + 44)))) 8"
    using sec by (rule entry_array_cong)
  ultimately show ?thesis
    using assms(1) by (simp add: stored_def Let_def)
qed

subsection \<open>The sectors of a file\<close>

definition pad :: "bytes \<Rightarrow> bytes" where
  "pad x = x @ replicate (512 - length x) 0"

lemma put_bytes_pad: "length x \<le> 512 \<Longrightarrow> put_bytes (replicate 512 0) 0 x = pad x"
  by (simp add: put_bytes_eq pad_def)

lemma length_pad: "length x \<le> 512 \<Longrightarrow> length (pad x) = 512"
  by (simp add: pad_def)

lemma entry_array_snoc: "entry_array D l (Suc n) = entry_array D l n @ D (l + n)"
  by (simp add: entry_array_def)

lemma entry_array_pad:
  assumes "\<And>k. k < n \<Longrightarrow> D (l + k) = pad (take 512 (drop (k * 512) data))"
  shows "length (entry_array D l n) = n * 512 \<and> take (length data) (entry_array D l n) = take (n * 512) data"
  using assms
proof (induction n)
  case (Suc n)
  let ?x = "take 512 (drop (n * 512) data)"
  have IH: "length (entry_array D l n) = n * 512" "take (length data) (entry_array D l n) = take (n * 512) data"
    using Suc by simp_all
  have "take (length data - n * 512) (pad ?x) = ?x"
    by (cases "512 \<le> length data - n * 512") (auto simp: pad_def min_def)
  then show ?case
    using IH Suc.prems [of n] by (simp add: entry_array_snoc length_pad take_add add.commute [of 512])
qed (simp add: entry_array_def)

lemma entry_array_nth:
  assumes "\<And>k. k < n \<Longrightarrow> length (D (l + k)) = 512" and "i < n"
  shows "take 512 (drop (i * 512) (entry_array D l n)) = D (l + i)"
proof -
  have "entry_array D l n = entry_array D l i @ D (l + i) @ entry_array D (Suc (l + i)) (n - Suc i)"
  proof -
    have "[l..<l + n] = [l..<l + i] @ (l + i) # [Suc (l + i)..<l + n]"
      using assms(2) upt_add_eq_append [of l "l + i" "n - i"] by (simp add: upt_conv_Cons)
    moreover have "Suc (l + i) + (n - Suc i) = l + n"
      using assms(2) by simp
    ultimately show ?thesis
      by (simp add: entry_array_def)
  qed
  moreover have "length (entry_array D l i) = i * 512"
    using assms length_entry_array [of l i D] by (metis add.commute le_add_diff_inverse mult.commute nat_add_left_cancel_less order_less_trans)
  ultimately show ?thesis
    using assms by simp
qed

lemma put_bytes_append: "put_bytes d i (xs @ ys) = put_bytes (put_bytes d i xs) (i + length xs) ys"
  by (induction xs arbitrary: d i) simp_all

subsection \<open>Writing and reading the data\<close>

lemma write_data_disk:
  assumes "mvh_device dev sec s" and "lba + i + n \<le> sectors s dev" and "off = min (i * 512) (length data)"
  shows "\<exists>r w. write_data dev lba n i off (length data) data s = Some (r, s\<lparr>hardware := w\<rparr>) \<and>
    mvh_device dev sec (s\<lparr>hardware := w\<rparr>) \<and>
    (\<forall>l. l < lba + i \<or> lba + i + n \<le> l \<longrightarrow> sec w l = sec (hardware s) l) \<and>
    (r = 0 \<longrightarrow> (\<forall>k. i \<le> k \<longrightarrow> k < i + n \<longrightarrow> sec w (lba + k) = pad (take 512 (drop (k * 512) data))))"
  using assms
proof (induction n arbitrary: i off s)
  case 0
  then show ?case
    by (intro exI [of _ 0] exI [of _ "hardware s"]) simp
next
  case (Suc n)
  let ?chunk = "if 512 < length data - off then 512 else length data - off"
  let ?sector = "pad (take 512 (drop (i * 512) data))"
  have lba: "lba + i < sectors s dev"
    using Suc.prems by simp
  have "take ?chunk (drop off data) = take 512 (drop (i * 512) data)"
    using Suc.prems(3) by (auto simp: min_def)
  then have sector: "put_bytes (replicate 512 0) 0 (take ?chunk (drop off data)) = ?sector"
    by (simp add: put_bytes_pad)
  have off: "off + ?chunk = min (Suc i * 512) (length data)"
    using Suc.prems(3) by (auto simp: min_def)
  have len: "length ?sector = 512"
    by (simp add: length_pad)
  obtain r w where wr: "block_write dev (lba + i) 1 (Some ?sector) s = Some (r, s\<lparr>hardware := w\<rparr>)"
    and dev: "mvh_device dev sec (s\<lparr>hardware := w\<rparr>)"
    and w: "sec w = (sec (hardware s))(lba + i := ?sector) \<or> r \<noteq> 0 \<and> sec w = sec (hardware s)"
    using mvh_write [OF Suc.prems(1) lba len] by blast
  have step: "write_data dev lba (Suc n) i off (length data) data s =
      (if r \<noteq> 0 then Some (- 1, s\<lparr>hardware := w\<rparr>)
       else write_data dev lba n (Suc i) (off + ?chunk) (length data) data (s\<lparr>hardware := w\<rparr>))"
    unfolding write_data.simps Let_def sector wr by simp
  show ?case
  proof (cases "r = 0")
    case False
    then show ?thesis
      using step dev w by (intro exI [of _ "- 1"] exI [of _ w]) auto
  next
    case True
    then have sec: "sec w = (sec (hardware s))(lba + i := ?sector)"
      using w by simp
    obtain r' v where "write_data dev lba n (Suc i) (off + ?chunk) (length data) data (s\<lparr>hardware := w\<rparr>) = Some (r', s\<lparr>hardware := v\<rparr>)"
      and "mvh_device dev sec (s\<lparr>hardware := v\<rparr>)"
      and frame: "\<forall>l. l < lba + Suc i \<or> lba + Suc i + n \<le> l \<longrightarrow> sec v l = sec w l"
      and wrote: "r' = 0 \<longrightarrow> (\<forall>k. Suc i \<le> k \<longrightarrow> k < Suc i + n \<longrightarrow> sec v (lba + k) = pad (take 512 (drop (k * 512) data)))"
      using Suc.IH [OF dev _ off] Suc.prems(2) by auto
    moreover have "sec v (lba + i) = ?sector"
      using frame by (simp add: sec)
    then have "sec v (lba + k) = pad (take 512 (drop (k * 512) data))" if "r' = 0" "i \<le> k" "k < i + Suc n" for k
      using wrote that by (cases "k = i") simp_all
    moreover have "\<forall>l. l < lba + i \<or> lba + i + Suc n \<le> l \<longrightarrow> sec v l = sec (hardware s) l"
      using frame by (simp add: sec)
    ultimately show ?thesis
      using step True by (intro exI [of _ r'] exI [of _ v]) simp
  qed
qed

lemma read_data_disk:
  assumes "disk_device dev sec s" and "lba + 8 \<le> sectors s dev"
    and "take (length data) (entry_array (sec (hardware s)) lba 8) = data" and "length data \<le> 4096"
    and "off = min (i * 512) (length data)" and "length sector = 512"
  shows "\<exists>w. read_data dev lba i off (length data) chk out sector s =
      Some (0, crc32_all chk (drop off data), put_bytes out off (drop off data), s\<lparr>hardware := w\<rparr>) \<and> sec w = sec (hardware s)"
  using assms
proof (induction "length data - off" arbitrary: i off chk out sector s rule: less_induct)
  case less
  let ?D = "sec (hardware s)"
  let ?chunk = "if 512 < length data - off then 512 else length data - off"
  show ?case
  proof (cases "off < length data")
    case False
    then show ?thesis
      by (intro exI [of _ "hardware s"]) (simp add: read_data.simps [of dev lba i off] crc.update_nil)
  next
    case True
    then have off: "off = i * 512" and i: "i < 8"
      using less.prems(4,5) by (auto simp: min_def split: if_splits)
    have lba: "lba + i < sectors s dev"
      using less.prems(2) i by simp
    obtain w where rd: "block_read dev (lba + i) 1 (Some sector) s = Some (0, Some (?D (lba + i)), s\<lparr>hardware := w\<rparr>)"
      and w: "sec w = ?D"
      using disk_read_sector [OF less.prems(1) lba less.prems(6)] by blast
    have lens: "length (?D (lba + k)) = 512" if "k < 8" for k
      using disk_sector_length [OF less.prems(1), of "lba + k"] less.prems(2) that by simp
    have "take 512 (drop off (entry_array ?D lba 8)) = ?D (lba + i)"
      unfolding off using lens i by (intro entry_array_nth)
    moreover have "take c X = take c (take m X)" if "c \<le> m" for c m and X :: bytes
      using that by (simp add: min_def)
    moreover have "?chunk \<le> 512" "?chunk \<le> length data - off"
      by simp_all
    ultimately have "take ?chunk (?D (lba + i)) = take ?chunk (take (length data - off) (drop off (entry_array ?D lba 8)))"
      by metis
    then have chunk: "take ?chunk (?D (lba + i)) = take ?chunk (drop off data)"
      by (simp only: drop_take [symmetric] less.prems(3))
    define c where "c = ?chunk"
    have after: "off + c = min (Suc i * 512) (length data)" and dec: "length data - (off + c) < length data - off"
      and len: "length (take c (drop off data)) = c"
      using True off unfolding c_def by (auto simp: min_def)
    have split: "take c (drop off data) @ drop (off + c) data = drop off data"
      using append_take_drop_id [of c "drop off data"] by (simp add: add.commute)
    have dev: "disk_device dev sec (s\<lparr>hardware := w\<rparr>)"
      using less.prems(1) w by (simp add: disk_device_hardware)
    have sub: "lba + 8 \<le> sectors (s\<lparr>hardware := w\<rparr>) dev"
      "take (length data) (entry_array (sec (hardware (s\<lparr>hardware := w\<rparr>))) lba 8) = data"
      using less.prems(2,3) w by simp_all
    obtain v where "read_data dev lba (Suc i) (off + c) (length data) (crc32_all chk (take c (drop off data)))
        (put_bytes out off (take c (drop off data))) (?D (lba + i)) (s\<lparr>hardware := w\<rparr>) =
        Some (0, crc32_all (crc32_all chk (take c (drop off data))) (drop (off + c) data),
          put_bytes (put_bytes out off (take c (drop off data))) (off + c) (drop (off + c) data), s\<lparr>hardware := v\<rparr>)"
      and "sec v = ?D"
      using less.hyps [OF dec dev sub less.prems(4) after lens [OF i], of "crc32_all chk (take c (drop off data))"
          "put_bytes out off (take c (drop off data))"] w by auto
    moreover have "crc32_all (crc32_all chk (take c (drop off data))) (drop (off + c) data) = crc32_all chk (drop off data)"
      by (simp only: crc.update_append [symmetric] split)
    moreover have "put_bytes (put_bytes out off (take c (drop off data))) (off + c) (drop (off + c) data) = put_bytes out off (drop off data)"
      using put_bytes_append [of out off "take c (drop off data)" "drop (off + c) data"] by (simp only: split len)
    ultimately show ?thesis
      using True rd chunk [folded c_def] by (intro exI [of _ v])
        (simp add: read_data.simps [of dev lba i off] crc32_update_take Let_def c_def [symmetric])
  qed
qed

subsection \<open>Reading a file\<close>

lemma fs_inv_device: "fs_inv dev sec s fs \<Longrightarrow> mvh_device dev sec s"
  by (simp add: fs_inv_def)

lemma fs_inv_sectors: "fs_inv dev sec s fs \<Longrightarrow> 522 \<le> sectors s dev"
  by (simp add: fs_inv_def mvh_device_def Let_def)

lemma fs_inv_length: "fs_inv dev sec s fs \<Longrightarrow> length (directory fs) = 2048"
  by (simp add: fs_inv_def current_def)

text \<open>
  C10. A read returns the contents of the file. If the mounted directory has a file of that
  name with these contents on the disk and the buffer has room, \<open>mvhfs_read\<close> returns 0,
  reports the length, puts exactly the contents at the start of the buffer and changes
  nothing on the disk.
\<close>

theorem mvhfs_read_returns_contents:
  assumes inv: "fs_inv dev sec s fs" and name: "valid_name (Some name)"
    and has: "has_file (sec (hardware s)) (directory fs) name data"
    and room: "length data \<le> capacity" "length data \<le> length buf"
  shows "\<exists>w. mvhfs_read (Some fs) (Some name) (Some buf) capacity (Some out) s =
      Some (0, Some (data @ drop (length data) buf), Some (length data), s\<lparr>hardware := w\<rparr>) \<and> sec w = sec (hardware s)"
proof -
  obtain i where i: "lookup (directory fs) name = Some i" and st: "stored (sec (hardware s)) (directory fs) i data"
    using has by (auto simp: has_file_def)
  let ?slot = "unat (load32 (directory fs) (entry_at i + 44))"
  have slot: "?slot \<le> 1" and len: "length data \<le> 4096"
    and data: "take (length data) (entry_array (sec (hardware s)) (data_lba i ?slot) 8) = data"
    using st by (simp_all add: stored_def Let_def)
  have lba: "data_lba i ?slot + 8 \<le> sectors s dev"
    using data_lba_bound(1) [OF lookup_Some_less [OF i] slot] fs_inv_sectors [OF inv] by linarith
  obtain w where "read_data dev (data_lba i ?slot) 0 0 (length data) 0 buf (replicate 512 0) s =
      Some (0, crc32_all 0 data, put_bytes buf 0 data, s\<lparr>hardware := w\<rparr>)" and "sec w = sec (hardware s)"
    using read_data_disk [OF mvh_device_disk [OF fs_inv_device [OF inv]] lba data len, of 0 0 "replicate 512 0" 0 buf] by auto
  moreover have "put_bytes buf 0 data = data @ drop (length data) buf"
    using room by (simp add: put_bytes_eq)
  ultimately show ?thesis
    using inv name st room i by (intro exI [of _ w])
      (simp add: mvhfs_read_def find_entry_lookup stored_def fs_inv_def Let_def)
qed

subsection \<open>Changing an entry\<close>

definition remounts :: "nat \<Rightarrow> ('w \<Rightarrow> nat \<Rightarrow> bytes) \<Rightarrow> 'w block_layer \<Rightarrow> bytes \<Rightarrow> bool" where
  "remounts dev sec s dir \<longleftrightarrow>
     (\<forall>fs. length (directory fs) = MVHFS_DIRECTORY_BYTES \<longrightarrow>
        (\<exists>fs' w. mvhfs_mount (Some fs) dev s = Some (0, Some fs', s\<lparr>hardware := w\<rparr>) \<and> sec w = sec (hardware s) \<and>
           fs_inv dev sec (s\<lparr>hardware := w\<rparr>) fs' \<and> directory fs' = dir))"

lemma current_remounts:
  assumes dev: "mvh_device dev sec s" and cur: "current (sec (hardware s)) (sectors s dev) sb ds g dir"
  shows "remounts dev sec s dir"
  unfolding remounts_def
proof (intro allI impI)
  fix fs :: mvhfs_t
  assume "length (directory fs) = MVHFS_DIRECTORY_BYTES"
  then obtain w where "mvhfs_mount (Some fs) dev s = Some (0, Some \<lparr>fs_device_id = dev, superblock_slot = sb, directory_slot = ds,
      generation = g, mounted = 1, directory = dir\<rparr>, s\<lparr>hardware := w\<rparr>)" and w: "sec w = sec (hardware s)"
    using mount_current [OF dev _ cur] by blast
  moreover have "fs_inv dev sec (s\<lparr>hardware := w\<rparr>) \<lparr>fs_device_id = dev, superblock_slot = sb, directory_slot = ds,
      generation = g, mounted = 1, directory = dir\<rparr>"
    using mvh_device_same [OF dev w] cur w by (simp add: fs_inv_def)
  ultimately show "\<exists>fs' w. mvhfs_mount (Some fs) dev s = Some (0, Some fs', s\<lparr>hardware := w\<rparr>) \<and> sec w = sec (hardware s) \<and>
      fs_inv dev sec (s\<lparr>hardware := w\<rparr>) fs' \<and> directory fs' = dir"
    by fastforce
qed

definition only_entry :: "nat \<Rightarrow> bytes \<Rightarrow> bytes \<Rightarrow> bool" where
  "only_entry i dir dir' \<longleftrightarrow> length dir' = length dir \<and> (\<forall>k. k < entry_at i \<or> entry_at i + MVHFS_ENTRY_SIZE \<le> k \<longrightarrow> dir' ! k = dir ! k)"

lemma restore_entry:
  assumes "only_entry i dir dir'" and "i < 32" and "length dir = 2048"
  shows "put_bytes dir' (entry_at i) (take 64 (drop (entry_at i) dir)) = dir"
proof (rule nth_equalityI)
  show "length (put_bytes dir' (entry_at i) (take 64 (drop (entry_at i) dir))) = length dir"
    using assms by (simp add: only_entry_def)
  fix k
  assume k: "k < length (put_bytes dir' (entry_at i) (take 64 (drop (entry_at i) dir)))"
  have e: "entry_at i + 64 \<le> length dir'" "length (take 64 (drop (entry_at i) dir)) = 64"
    using assms by (simp_all add: only_entry_def entry_at_def)
  show "put_bytes dir' (entry_at i) (take 64 (drop (entry_at i) dir)) ! k = dir ! k"
  proof (cases "k < entry_at i \<or> entry_at i + 64 \<le> k")
    case True
    then show ?thesis
      using assms e by (auto simp: put_bytes_nth_other only_entry_def)
  next
    case False
    then have "k - entry_at i < 64"
      by linarith
    then show ?thesis
      using False assms e by (simp add: put_bytes_eq nth_append only_entry_def)
  qed
qed

lemma commit_entry_disk:
  assumes inv: "fs_inv dev sec s fs" and gen: "generation fs + 1 < 2 ^ 64" and i: "i < 32" and only: "only_entry i (directory fs) dir'"
  shows "\<exists>r fs' w. commit_entry (fs\<lparr>directory := dir'\<rparr>) (entry_at i) (entry_backup fs (entry_at i)) s =
      Some (if r then 0 else - 1, Some fs', s\<lparr>hardware := w\<rparr>) \<and>
    (\<forall>l \<ge> 10. sec w l = sec (hardware s) l) \<and>
    (if r then fs_inv dev sec (s\<lparr>hardware := w\<rparr>) fs' \<and> directory fs' = dir' else fs' = fs) \<and>
    (remounts dev sec (s\<lparr>hardware := w\<rparr>) dir' \<or> \<not> r \<and> remounts dev sec (s\<lparr>hardware := w\<rparr>) (directory fs))"
proof -
  let ?fs = "fs\<lparr>directory := dir'\<rparr>"
  let ?new = "?fs\<lparr>directory_slot := 1 - directory_slot ?fs, superblock_slot := 1 - superblock_slot ?fs, generation := generation ?fs + 1\<rparr>"
  have dev: "mvh_device dev sec s" and len: "length (directory ?fs) = 2048" "fs_device_id ?fs = dev"
    and cur: "current (sec (hardware s)) (sectors s dev) (superblock_slot ?fs) (directory_slot ?fs) (generation ?fs) (directory fs)"
    using inv only fs_inv_length [OF inv] by (simp_all add: fs_inv_def only_entry_def)
  have gen': "generation ?fs + 1 < 2 ^ 64"
    using gen by simp
  have backup: "?fs\<lparr>directory := put_bytes dir' (entry_at i) (entry_backup fs (entry_at i))\<rparr> = fs"
    using restore_entry [OF only i] fs_inv_length [OF inv] by (simp add: entry_backup_def)
  obtain r w where "commit_directory ?fs s = Some (if r then 0 else - 1, if r then ?new else ?fs, s\<lparr>hardware := w\<rparr>)"
    and dev': "mvh_device dev sec (s\<lparr>hardware := w\<rparr>)" and frame: "\<forall>l \<ge> 10. sec w l = sec (hardware s) l"
    and cur': "current (sec w) (sectors s dev) (superblock_slot ?new) (directory_slot ?new) (generation ?new) (directory ?fs) \<or>
      \<not> r \<and> current (sec w) (sectors s dev) (superblock_slot ?fs) (directory_slot ?fs) (generation ?fs) (directory fs)"
    using commit_directory_disk [OF dev len(2,1) cur gen'] by blast
  then have "commit_entry ?fs (entry_at i) (entry_backup fs (entry_at i)) s =
      Some (if r then 0 else - 1, Some (if r then ?new else fs), s\<lparr>hardware := w\<rparr>)"
    using backup by (simp add: commit_entry_def)
  moreover have "r \<Longrightarrow> fs_inv dev sec (s\<lparr>hardware := w\<rparr>) ?new"
    using dev' cur' inv by (simp add: fs_inv_def)
  moreover have "remounts dev sec (s\<lparr>hardware := w\<rparr>) dir' \<or> \<not> r \<and> remounts dev sec (s\<lparr>hardware := w\<rparr>) (directory fs)"
    using cur' current_remounts [OF dev'] by auto
  ultimately show ?thesis
    using frame by (intro exI [of _ r] exI [of _ "if r then ?new else fs"] exI [of _ w]) simp
qed

subsection \<open>Writing a file\<close>

definition others_kept :: "(nat \<Rightarrow> bytes) \<Rightarrow> bytes \<Rightarrow> (nat \<Rightarrow> bytes) \<Rightarrow> bytes \<Rightarrow> bytes \<Rightarrow> bool" where
  "others_kept D dir D' dir' name \<longleftrightarrow>
     (\<forall>n x. lookup dir n \<noteq> lookup dir name \<and> has_file D dir n x \<longrightarrow> has_file D' dir' n x)"

lemma entry_at_apart: "j < i \<Longrightarrow> entry_at j + 64 \<le> entry_at i"
  unfolding entry_at_def by simp

lemma only_entry_other:
  assumes "only_entry i dir dir'" and "j \<noteq> i" and "k < 64"
  shows "dir' ! (entry_at j + k) = dir ! (entry_at j + k)"
proof -
  have "entry_at j + k < entry_at i \<or> entry_at i + 64 \<le> entry_at j + k"
    using assms(2,3) entry_at_apart [of j i] entry_at_apart [of i j] by linarith
  then show ?thesis
    using assms(1) by (auto simp: only_entry_def)
qed

text \<open>The entry of a file after a write: the names are the same, the fields are new.\<close>

definition written :: "bytes \<Rightarrow> nat \<Rightarrow> u32 \<Rightarrow> bytes \<Rightarrow> bytes" where
  "written dir i new_slot data =
     store32 (store32 (store32 dir (entry_at i + 36) (word_of_nat (length data))) (entry_at i + 40) (crc32_all 0 data)) (entry_at i + 44) new_slot"

lemma written_only: "only_entry i dir (written dir i new_slot data)"
  unfolding only_entry_def written_def by (auto simp: nth_store32_other)

lemma written_names:
  assumes "i < 32" and "length dir = 2048"
  shows "lookup (written dir i new_slot data) name = lookup dir name"
proof (rule lookup_cong, rule entry_name_equal_cong)
  fix j k :: nat
  assume "k < 36" "j < 32"
  then have "entry_at j + k < entry_at i + 36 \<or> entry_at i + 48 \<le> entry_at j + k"
    using entry_at_apart [of j i] entry_at_apart [of i j] by (cases j i rule: linorder_cases) simp_all
  then show "written dir i new_slot data ! (entry_at j + k) = dir ! (entry_at j + k)"
    by (auto simp: written_def nth_store32_other)
qed (use assms in \<open>simp_all add: written_def entry_at_def\<close>)

lemma written_loads:
  assumes "i < 32" and "length dir = 2048" and "length data \<le> 4096"
  shows "unat (load32 (written dir i new_slot data) (entry_at i + 36)) = length data"
    "load32 (written dir i new_slot data) (entry_at i + 40) = crc32_all 0 data"
    "load32 (written dir i new_slot data) (entry_at i + 44) = new_slot"
proof -
  have "entry_at i + 64 \<le> length dir"
    using assms by (simp add: entry_at_def)
  then show "unat (load32 (written dir i new_slot data) (entry_at i + 36)) = length data"
    "load32 (written dir i new_slot data) (entry_at i + 40) = crc32_all 0 data"
    "load32 (written dir i new_slot data) (entry_at i + 44) = new_slot"
    using assms(3) by (simp_all add: written_def buf_simps unat_of_nat)
qed

lemma others_kept_same:
  assumes "length dir = 2048" and "lookup dir name = Some i"
    and sec: "\<And>j x l. j < 32 \<Longrightarrow> j \<noteq> i \<Longrightarrow> stored D dir j x \<Longrightarrow> data_lba j (unat (load32 dir (entry_at j + 44))) \<le> l \<Longrightarrow>
      l < data_lba j (unat (load32 dir (entry_at j + 44))) + 8 \<Longrightarrow> D' l = D l"
    and only: "only_entry i dir dir'" and names: "\<And>n. lookup dir n \<noteq> Some i \<Longrightarrow> lookup dir' n = lookup dir n"
  shows "others_kept D dir D' dir' name"
  unfolding others_kept_def has_file_def
proof (intro allI impI, elim conjE exE)
  fix n x j
  assume n: "lookup dir n \<noteq> lookup dir name" and j: "lookup dir n = Some j" and st: "stored D dir j x"
  have "j < 32" and "j \<noteq> i"
    using lookup_Some_less [OF j] n j assms(2) by auto
  moreover from this have "stored D' dir' j x"
    using only_entry_other [OF only] only assms(1) sec st by (intro stored_cong [OF st]) (auto simp: only_entry_def)
  ultimately show "\<exists>k. lookup dir' n = Some k \<and> stored D' dir' k x"
    using names [of n] n j assms(2) by auto
qed

text \<open>The copy that a write fills belongs to no stored file, the one in use included.\<close>

lemma stored_frame:
  assumes "stored D dir j x" and "slot \<le> 1" and "j \<noteq> i \<or> unat (load32 dir (entry_at j + 44)) \<noteq> slot"
    and frame: "\<And>l. l < data_lba i slot \<or> data_lba i slot + 8 \<le> l \<Longrightarrow> 10 \<le> l \<Longrightarrow> D' l = D l"
    and l: "data_lba j (unat (load32 dir (entry_at j + 44))) \<le> l" "l < data_lba j (unat (load32 dir (entry_at j + 44))) + 8"
  shows "D' l = D l"
proof (rule frame)
  have "unat (load32 dir (entry_at j + 44)) \<le> 1"
    using assms(1) by (simp add: stored_def Let_def)
  then show "l < data_lba i slot \<or> data_lba i slot + 8 \<le> l"
    using data_lba_apart [OF _ assms(2,3)] l by linarith
  show "10 \<le> l"
    using l(1) data_lba_bound(2) order_trans by blast
qed

lemma write_keeps_old:
  assumes "length dir = 2048" and i: "lookup dir name = Some i" and st: "stored D dir i old"
    and slot: "slot \<le> 1" "unat (load32 dir (entry_at i + 44)) \<noteq> slot"
    and frame: "\<And>l. l < data_lba i slot \<or> data_lba i slot + 8 \<le> l \<Longrightarrow> 10 \<le> l \<Longrightarrow> D' l = D l"
  shows "has_file D' dir name old \<and> others_kept D dir D' dir name"
proof
  have "stored D' dir i old"
    using assms lookup_Some_less [OF i] stored_frame [OF st slot(1) _ frame] by (intro stored_cong [OF st]) auto
  then show "has_file D' dir name old"
    using i by (auto simp: has_file_def)
  have "D' l = D l" if "j \<noteq> i" "stored D dir j x" "data_lba j (unat (load32 dir (entry_at j + 44))) \<le> l"
      "l < data_lba j (unat (load32 dir (entry_at j + 44))) + 8" for j x l
    using stored_frame [of D dir j x slot i D' l] that slot(1) frame by blast
  then show "others_kept D dir D' dir name"
    by (intro others_kept_same [OF assms(1) i]) (auto simp: only_entry_def)
qed

lemma write_takes_new:
  assumes "length dir = 2048" and i: "lookup dir name = Some i" and len: "length data \<le> 4096" and slot: "unat new_slot \<le> 1"
    and data: "\<And>k. k < 8 \<Longrightarrow> D' (data_lba i (unat new_slot) + k) = pad (take 512 (drop (k * 512) data))"
    and frame: "\<And>l. l < data_lba i (unat new_slot) \<or> data_lba i (unat new_slot) + 8 \<le> l \<Longrightarrow> 10 \<le> l \<Longrightarrow> D' l = D l"
  shows "has_file D' (written dir i new_slot data) name data \<and> others_kept D dir D' (written dir i new_slot data) name"
proof
  have i32: "i < 32"
    by (rule lookup_Some_less [OF i])
  have "take (length data) (entry_array D' (data_lba i (unat new_slot)) 8) = data"
    using entry_array_pad [of 8 D' "data_lba i (unat new_slot)" data, OF data] len by simp
  then have "stored D' (written dir i new_slot data) i data"
    using len slot written_loads [OF i32 assms(1) len] by (simp add: stored_def)
  then show "has_file D' (written dir i new_slot data) name data"
    using i written_names [OF i32 assms(1)] by (auto simp: has_file_def)
  have "D' l = D l" if "j \<noteq> i" "stored D dir j x" "data_lba j (unat (load32 dir (entry_at j + 44))) \<le> l"
      "l < data_lba j (unat (load32 dir (entry_at j + 44))) + 8" for j x l
    using stored_frame [of D dir j x "unat new_slot" i D' l] that slot frame by blast
  then show "others_kept D dir D' (written dir i new_slot data) name"
    using written_names [OF i32 assms(1)] by (intro others_kept_same [OF assms(1) i] written_only) auto
qed

lemma flip_slot: "unat (v XOR 1) = 1 - unat v" if "unat v \<le> 1" for v :: u32
proof -
  have "v = 0 \<or> v = 1"
    using that by (auto simp: word_unat_eq_iff le_Suc_eq)
  then show ?thesis
    by auto
qed

text \<open>
  C1. A write is atomic. On a mounted file system with a device whose driver may fail any
  write, before or after the sector reached the disk, \<open>mvhfs_write\<close> of an existing file
  returns. If it returns 0 the file has the new contents, in the mounted directory and after
  every later mount. If it fails, the mounted directory is as before, and a later mount, as
  after a loss of power, succeeds and finds the file with either its old or its new contents.
  In all cases every other file is unchanged.
\<close>

theorem mvhfs_write_atomic:
  assumes inv: "fs_inv dev sec s fs" and name: "valid_name (Some name)" and gen: "generation fs + 1 < 2 ^ 64"
    and has: "has_file (sec (hardware s)) (directory fs) name old" and len: "length data \<le> MVHFS_FILE_MAX"
  shows "\<exists>r fs' w. mvhfs_write (Some fs) (Some name) (Some data) (length data) s = Some (r, Some fs', s\<lparr>hardware := w\<rparr>) \<and>
    (if r = 0
     then fs_inv dev sec (s\<lparr>hardware := w\<rparr>) fs' \<and> remounts dev sec (s\<lparr>hardware := w\<rparr>) (directory fs') \<and>
       has_file (sec w) (directory fs') name data \<and> others_kept (sec (hardware s)) (directory fs) (sec w) (directory fs') name
     else fs' = fs \<and> (\<exists>dir. remounts dev sec (s\<lparr>hardware := w\<rparr>) dir \<and>
       (has_file (sec w) dir name old \<or> has_file (sec w) dir name data) \<and>
       others_kept (sec (hardware s)) (directory fs) (sec w) dir name))"
proof -
  let ?D = "sec (hardware s)" and ?dir = "directory fs"
  have dlen: "length ?dir = 2048"
    by (rule fs_inv_length [OF inv])
  obtain i where i: "lookup ?dir name = Some i" and st: "stored ?D ?dir i old"
    using has by (auto simp: has_file_def)
  have i32: "i < 32"
    by (rule lookup_Some_less [OF i])
  let ?slot = "load32 ?dir (entry_at i + 44)"
  let ?new = "?slot XOR 1"
  let ?L = "data_lba i (unat ?new)" and ?dir' = "written ?dir i ?new data"
  have "unat ?slot \<le> 1"
    using st by (simp add: stored_def Let_def)
  with flip_slot [OF this] have slots: "unat ?new \<le> 1" "unat ?slot \<noteq> unat ?new"
    by arith+
  have L: "?L + 8 \<le> sectors s dev" "10 \<le> ?L"
    using data_lba_bound(1) [OF i32 slots(1)] data_lba_bound(2) fs_inv_sectors [OF inv] by auto
  obtain r1 w1 where wr1: "write_data dev ?L 8 0 0 (length data) data s = Some (r1, s\<lparr>hardware := w1\<rparr>)"
    and dev1: "mvh_device dev sec (s\<lparr>hardware := w1\<rparr>)"
    and frame1: "\<And>l. l < ?L \<or> ?L + 8 \<le> l \<Longrightarrow> sec w1 l = ?D l"
    and wrote: "r1 = 0 \<Longrightarrow> k < 8 \<Longrightarrow> sec w1 (?L + k) = pad (take 512 (drop (k * 512) data))" for k
    using write_data_disk [OF fs_inv_device [OF inv], of ?L 0 8 0 data] L(1) by auto
  have cur1: "current (sec w1) (sectors s dev) (superblock_slot fs) (directory_slot fs) (generation fs) ?dir"
    by (rule current_frame [of ?D]) (use inv frame1 L(2) directory_lba_bound(1) [of "directory_slot fs"] in \<open>simp_all add: fs_inv_def\<close>)
  then have inv1: "fs_inv dev sec (s\<lparr>hardware := w1\<rparr>) fs"
    using inv dev1 by (simp add: fs_inv_def)
  have start: "mvhfs_write (Some fs) (Some name) (Some data) (length data) s =
      (if r1 \<noteq> 0 then Some (- 1, Some fs, s\<lparr>hardware := w1\<rparr>)
       else commit_entry (fs\<lparr>directory := ?dir'\<rparr>) (entry_at i) (entry_backup fs (entry_at i)) (s\<lparr>hardware := w1\<rparr>))"
    using inv name len i wr1 by (simp add: mvhfs_write_def find_entry_lookup fs_inv_def written_def crc32_def crc32_update_take Let_def)
  show ?thesis
  proof (cases "r1 = 0")
    case False
    have "remounts dev sec (s\<lparr>hardware := w1\<rparr>) ?dir"
      using current_remounts [OF dev1] cur1 by simp
    moreover have "has_file (sec w1) ?dir name old \<and> others_kept ?D ?dir (sec w1) ?dir name"
      using frame1 by (intro write_keeps_old [OF dlen i st slots]) simp
    ultimately show ?thesis
      using start False by (intro exI [of _ "- 1"] exI [of _ fs] exI [of _ w1]) auto
  next
    case True
    have hw: "hardware (s\<lparr>hardware := w1\<rparr>) = w1" "s\<lparr>hardware := w1\<rparr>\<lparr>hardware := w\<rparr> = s\<lparr>hardware := w\<rparr>" for w
      by simp_all
    obtain r fs' w where commit: "commit_entry (fs\<lparr>directory := ?dir'\<rparr>) (entry_at i) (entry_backup fs (entry_at i)) (s\<lparr>hardware := w1\<rparr>) =
        Some (if r then 0 else - 1, Some fs', s\<lparr>hardware := w\<rparr>)"
      and frame: "\<And>l. 10 \<le> l \<Longrightarrow> sec w l = sec w1 l"
      and res: "if r then fs_inv dev sec (s\<lparr>hardware := w\<rparr>) fs' \<and> directory fs' = ?dir' else fs' = fs"
      and rem: "remounts dev sec (s\<lparr>hardware := w\<rparr>) ?dir' \<or> \<not> r \<and> remounts dev sec (s\<lparr>hardware := w\<rparr>) ?dir"
      using commit_entry_disk [OF inv1 gen i32 written_only [of i ?dir ?new data]] unfolding hw by blast
    have "has_file (sec w) ?dir name old \<and> others_kept ?D ?dir (sec w) ?dir name"
      using frame frame1 by (intro write_keeps_old [OF dlen i st slots]) simp
    moreover have "has_file (sec w) ?dir' name data \<and> others_kept ?D ?dir (sec w) ?dir' name"
      using frame frame1 wrote [OF True] L(2) by (intro write_takes_new [OF dlen i len slots(1)]) simp_all
    ultimately show ?thesis
      using start commit res rem True by (intro exI [of _ "if r then 0 else - 1"] exI [of _ fs'] exI [of _ w]) (cases r, auto)
  qed
qed

end
