(* ===== verification/Mvhfs_Create.thy ===== *)
theory Mvhfs_Create
  imports Mvhfs_Props
begin

section \<open>Formatting and creating files\<close>

text \<open>
  A formatted device mounts as an empty file system; creating a file is atomic like a write.
  The last section gives a disk in memory on which the theorems about files apply.
\<close>

subsection \<open>Formatting\<close>

lemma write_same_disk:
  assumes "mvh_device dev sec s" and "lba + i + n \<le> sectors s dev" and "length data = 512"
  shows "\<exists>r w. write_same dev lba n i data s = Some (r, s\<lparr>hardware := w\<rparr>) \<and> mvh_device dev sec (s\<lparr>hardware := w\<rparr>) \<and>
    (r = 0 \<longrightarrow> (\<forall>k. i \<le> k \<longrightarrow> k < i + n \<longrightarrow> sec w (lba + k) = data) \<and> (\<forall>l. l < lba + i \<longrightarrow> sec w l = sec (hardware s) l))"
  using assms
proof (induction n arbitrary: i s)
  case 0
  then show ?case
    by (intro exI [of _ 0] exI [of _ "hardware s"]) simp
next
  case (Suc n)
  have lba: "lba + i < sectors s dev"
    using Suc.prems by simp
  obtain r w where wr: "block_write dev (lba + i) 1 (Some data) s = Some (r, s\<lparr>hardware := w\<rparr>)"
    and dev: "mvh_device dev sec (s\<lparr>hardware := w\<rparr>)"
    and w: "sec w = (sec (hardware s))(lba + i := data) \<or> r \<noteq> 0 \<and> sec w = sec (hardware s)"
    using mvh_write [OF Suc.prems(1) lba Suc.prems(3)] by blast
  show ?case
  proof (cases "r = 0")
    case False
    then show ?thesis
      using wr dev by (intro exI [of _ "- 1"] exI [of _ w]) simp
  next
    case True
    obtain r' v where rec: "write_same dev lba n (Suc i) data (s\<lparr>hardware := w\<rparr>) = Some (r', s\<lparr>hardware := v\<rparr>)"
      and dev': "mvh_device dev sec (s\<lparr>hardware := v\<rparr>)"
      and wrote: "r' = 0 \<Longrightarrow> Suc i \<le> k \<Longrightarrow> k < Suc i + n \<Longrightarrow> sec v (lba + k) = data"
      and frame: "r' = 0 \<Longrightarrow> l < lba + Suc i \<Longrightarrow> sec v l = sec w l" for k l
      using Suc.IH [OF dev, of "Suc i"] Suc.prems by auto
    have "sec v (lba + k) = data" if "r' = 0" "i \<le> k" "k < i + Suc n" for k
      using wrote [of k] frame [of "lba + k"] that w True by (cases "k = i") auto
    moreover have "sec v l = sec (hardware s) l" if "r' = 0" "l < lba + i" for l
      using frame [of l] that w True by auto
    ultimately show ?thesis
      using wr True rec dev' by (intro exI [of _ r'] exI [of _ v]) simp
  qed
qed

definition zero_directory :: bytes where
  "zero_directory = replicate MVHFS_DIRECTORY_BYTES 0"

lemma zero_crc: "fold (\<lambda>index crc. crc32_update crc (Some (replicate 512 0)) 512) [0..<4] 0 = crc32_all 0 zero_directory"
proof -
  let ?z = "replicate 512 (0 :: u8)"
  have z: "zero_directory = ?z @ ?z @ ?z @ ?z"
    by (simp add: zero_directory_def replicate_add [symmetric])
  have "crc32_all 0 zero_directory = crc32_all (crc32_all (crc32_all (crc32_all 0 ?z) ?z) ?z) ?z"
    unfolding z crc.update_append ..
  moreover have "[0..<4] = [0, 1, 2, 3 :: nat]"
    by (simp add: upt_rec)
  ultimately show ?thesis
    by (simp add: crc32_update_take)
qed

lemma mvhfs_format_disk:
  assumes dev: "mvh_device dev sec s"
  shows "\<exists>r w. mvhfs_format dev s = Some (r, s\<lparr>hardware := w\<rparr>) \<and> mvh_device dev sec (s\<lparr>hardware := w\<rparr>) \<and>
    (r = 0 \<longrightarrow> current (sec w) (sectors s dev) 0 0 1 zero_directory)"
proof -
  let ?n = "sectors s dev" and ?z = "replicate 512 (0 :: u8)"
  have n: "522 \<le> ?n" "?n < 2 ^ 64"
    using dev by (simp_all add: mvh_device_def disk_device_def Let_def)
  let ?B1 = "build_superblock ?z ?n 0 1 (crc32_all 0 zero_directory)"
  let ?B0 = "build_superblock ?B1 ?n 1 0 (crc32_all 0 zero_directory)"
  note B1 = build_superblock_ok [of ?z ?n ?n 0 1 "crc32_all 0 zero_directory"]
  note B0 = build_superblock_ok [of ?B1 ?n ?n 1 0 "crc32_all 0 zero_directory"]
  have len: "length ?B1 = 512" "length ?B0 = 512"
    using B1(1) B0(1) n by simp_all
  obtain r w where wr: "write_same dev 2 8 0 ?z s = Some (r, s\<lparr>hardware := w\<rparr>)" and devw: "mvh_device dev sec (s\<lparr>hardware := w\<rparr>)"
    and zero: "r = 0 \<Longrightarrow> k < 8 \<Longrightarrow> sec w (2 + k) = ?z" for k
    using write_same_disk [OF dev, of 2 0 8 ?z] n by auto
  obtain r1 w1 where wr1: "block_write dev 1 1 (Some ?B1) (s\<lparr>hardware := w\<rparr>) = Some (r1, s\<lparr>hardware := w1\<rparr>)"
    and dev1: "mvh_device dev sec (s\<lparr>hardware := w1\<rparr>)" and w1: "r1 = 0 \<Longrightarrow> sec w1 = (sec w)(1 := ?B1)"
    using mvh_write [OF devw _ len(1), of 1] n by (simp del: One_nat_def) blast
  obtain r0 w0 where wr0: "block_write dev 0 1 (Some ?B0) (s\<lparr>hardware := w1\<rparr>) = Some (r0, s\<lparr>hardware := w0\<rparr>)"
    and dev0: "mvh_device dev sec (s\<lparr>hardware := w0\<rparr>)" and w0: "r0 = 0 \<Longrightarrow> sec w0 = (sec w1)(0 := ?B0)"
    using mvh_write [OF dev1 _ len(2), of 0] n by (simp del: One_nat_def) blast
  have start: "mvhfs_format dev s =
      (if r \<noteq> 0 then Some (- 1, s\<lparr>hardware := w\<rparr>)
       else if r1 \<noteq> 0 then Some (- 1, s\<lparr>hardware := w1\<rparr>) else Some (r0, s\<lparr>hardware := w0\<rparr>))"
    using dev device_info_ok [OF mvh_device_disk [OF dev]] wr wr1 wr0
    by (simp add: mvhfs_format_def mvh_device_def zero_crc Let_def)
  have "current (sec w0) ?n 0 0 1 zero_directory" if "r = 0" "r1 = 0" "r0 = 0"
  proof -
    have "sec w0 (2 + k) = take 512 (drop (k * 512) zero_directory)" if "k < 4" for k
      using zero [of k] w1 w0 \<open>r = 0\<close> \<open>r1 = 0\<close> \<open>r0 = 0\<close> that by (simp add: zero_directory_def)
    then have "dir_of (sec w0) 0 = zero_directory"
      using entry_array_cut [of 4 "sec w0" 2 zero_directory] by (simp add: dir_of_def directory_lba_def zero_directory_def)
    then show ?thesis
      using B1 B0 len n w1 w0 that by (simp add: current_def zero_directory_def)
  qed
  then show ?thesis
    using start devw dev1 dev0 by (cases "r = 0"; cases "r1 = 0") auto
qed

text \<open>
  C11. A formatted device is an empty file system. On any device with a driver that keeps the
  sector laws \<open>mvhfs_format\<close> returns, and when it returns 0 every mount succeeds with an empty
  directory: no name is found and the listing has no entries.
\<close>

theorem mvhfs_format_empty:
  assumes "mvh_device dev sec s"
  shows "\<exists>r w. mvhfs_format dev s = Some (r, s\<lparr>hardware := w\<rparr>) \<and>
    (r = 0 \<longrightarrow> (\<forall>fs. length (directory fs) = MVHFS_DIRECTORY_BYTES \<longrightarrow>
       (\<exists>fs' w'. mvhfs_mount (Some fs) dev (s\<lparr>hardware := w\<rparr>) = Some (0, Some fs', s\<lparr>hardware := w'\<rparr>) \<and>
          fs_inv dev sec (s\<lparr>hardware := w'\<rparr>) fs' \<and> find_entry fs' name = None \<and>
          mvhfs_list (Some fs') entries capacity = (0, entries))))"
proof -
  obtain r w where fmt: "mvhfs_format dev s = Some (r, s\<lparr>hardware := w\<rparr>)" and dev: "mvh_device dev sec (s\<lparr>hardware := w\<rparr>)"
    and cur: "r = 0 \<Longrightarrow> current (sec w) (sectors s dev) 0 0 1 zero_directory"
    using mvhfs_format_disk [OF assms] by blast
  have free: "load32 zero_directory (entry_at i + 32) = 0" if "i < 32" for i
    using that by (simp add: load32_def zero_directory_def entry_at_def)
  have empty: "find_entry fs name = None \<and> fold (list_step fs capacity) [0..<32] (0, entries) = (0, entries)"
    if "directory fs = zero_directory" for fs
  proof
    show "find_entry fs name = None"
      using free by (auto simp: find_entry_def find_None_iff entry_name_equal_def that)
    have skip: "fold (list_step fs capacity) is (0, entries) = (0, entries)" if "set is \<subseteq> {..<32}" for "is"
      using that free by (induction "is") (auto simp: list_step_def \<open>directory fs = zero_directory\<close>)
    show "fold (list_step fs capacity) [0..<32] (0, entries) = (0, entries)"
      by (rule skip) (auto simp del: upt_rec_numeral)
  qed
  have "\<exists>fs' w'. mvhfs_mount (Some fs) dev (s\<lparr>hardware := w\<rparr>) = Some (0, Some fs', s\<lparr>hardware := w'\<rparr>) \<and>
      fs_inv dev sec (s\<lparr>hardware := w'\<rparr>) fs' \<and> find_entry fs' name = None \<and>
      mvhfs_list (Some fs') entries capacity = (0, entries)" if "r = 0" "length (directory fs) = 2048" for fs
  proof -
    note len = that(2)
    have remount: "remounts dev sec (s\<lparr>hardware := w\<rparr>) zero_directory"
      using current_remounts [OF dev, of 0 0 1] cur [OF that(1)] by simp
    obtain fs' w' where "mvhfs_mount (Some fs) dev (s\<lparr>hardware := w\<rparr>) = Some (0, Some fs', s\<lparr>hardware := w'\<rparr>)"
      and "fs_inv dev sec (s\<lparr>hardware := w'\<rparr>) fs'" and "directory fs' = zero_directory"
      using remount [unfolded remounts_def, rule_format, OF len] by auto
    then show ?thesis
      using empty [of fs'] by (intro exI [of _ fs'] exI [of _ w']) (auto simp: mvhfs_list_def)
  qed
  then show ?thesis
    using fmt by blast
qed

subsection \<open>Names\<close>

definition cname :: "bytes \<Rightarrow> bytes" where
  "cname name = takeWhile (\<lambda>c. c \<noteq> 0) name"

lemma cname_nonzero: "k < length (cname name) \<Longrightarrow> cname name ! k \<noteq> 0"
  using set_takeWhileD [of "cname name ! k" "\<lambda>c. c \<noteq> 0" name] nth_mem [of k "cname name"] by (simp add: cname_def)

lemma name_at_cname:
  assumes "k \<le> length (cname name)"
  shows "name_at name k = (if k < length (cname name) then cname name ! k else 0)"
proof (cases "k < length (cname name)")
  case True
  then have "k < length name" "cname name ! k = name ! k"
    using length_takeWhile_le [of "\<lambda>c. c \<noteq> 0" name] takeWhile_nth [of k "\<lambda>c. c \<noteq> 0" name] by (simp_all add: cname_def)
  then show ?thesis
    using True by (simp add: name_at_def)
next
  case False
  then have "k = length (takeWhile (\<lambda>c. c \<noteq> 0) name)"
    using assms by (simp add: cname_def)
  then show ?thesis
    using False nth_length_takeWhile [of "\<lambda>c. c \<noteq> 0" name] by (simp add: name_at_def)
qed

lemma all_from_Suc: "(\<forall>k. i \<le> k \<longrightarrow> Q k) \<longleftrightarrow> Q i \<and> (\<forall>k. Suc i \<le> k \<longrightarrow> Q k)"
  by (metis Suc_leD Suc_leI order_le_less order_refl)

lemma name_equal_loop_iff:
  assumes "index \<le> length (cname name)"
  shows "name_equal_loop n index dir e name \<longleftrightarrow>
    length (cname name) < index + n \<and> (\<forall>k. index \<le> k \<longrightarrow> k \<le> length (cname name) \<longrightarrow> dir ! (e + k) = name_at name k)"
  using assms
proof (induction n arbitrary: index)
  case (Suc n)
  show ?case
  proof (cases "index = length (cname name)")
    case True
    then show ?thesis
      by (auto simp: name_at_cname)
  next
    case False
    then have "index < length (cname name)" and nz: "name_at name index \<noteq> 0"
      using Suc.prems by (auto simp: name_at_cname cname_nonzero)
    then show ?thesis
      using Suc.IH [of "index + 1"] by (subst all_from_Suc) simp
  qed
qed simp

lemma valid_name_loop_short: "valid_name_loop len cs \<Longrightarrow> len < 32 \<Longrightarrow> len + length (cname cs) < 32"
  by (induction len cs rule: valid_name_loop.induct) (auto simp: cname_def split: if_splits)

lemma valid_name_short: "valid_name (Some name) \<Longrightarrow> length (cname name) < 32"
  using valid_name_loop_short [of 0 name] by (simp add: valid_name_def split: if_splits)

text \<open>The name part of an entry determines which names it answers to.\<close>

lemma entry_name_equal_iff:
  "entry_name_equal dir e name \<longleftrightarrow> load32 dir (e + 32) \<noteq> 0 \<and> length (cname name) < 32 \<and>
     (\<forall>k \<le> length (cname name). dir ! (e + k) = (if k < length (cname name) then cname name ! k else 0))"
  using name_equal_loop_iff [of 0 name 32 dir e] by (auto simp: entry_name_equal_def name_at_cname)

lemma entry_name_equal_unique:
  assumes "entry_name_equal dir e m" and "entry_name_equal dir e n"
  shows "cname m = cname n"
proof -
  have "length (cname m) \<le> length (cname n)" if "entry_name_equal dir e m" "entry_name_equal dir e n" for m n
  proof (rule ccontr)
    assume "\<not> length (cname m) \<le> length (cname n)"
    then have "dir ! (e + length (cname n)) = 0" "dir ! (e + length (cname n)) = cname m ! length (cname n)" "length (cname n) < length (cname m)"
      using that by (auto simp: entry_name_equal_iff)
    then show False
      using cname_nonzero [of "length (cname n)" m] by simp
  qed
  then have "length (cname m) = length (cname n)"
    using assms by (metis order_antisym)
  moreover have "cname m ! k = dir ! (e + k)" if "entry_name_equal dir e m" "k < length (cname m)" for k m
    using that by (simp add: entry_name_equal_iff)
  ultimately show ?thesis
    using assms by (intro nth_equalityI) simp_all
qed

lemma lookup_cname: "cname m = cname n \<Longrightarrow> lookup dir m = lookup dir n"
  by (simp add: lookup_def entry_name_equal_iff)

subsection \<open>Creating a file\<close>

lemma put_bytes_nth:
  assumes "i + length bs \<le> length d" and "i \<le> k" "k < i + length bs"
  shows "put_bytes d i bs ! k = bs ! (k - i)"
proof -
  have "k - i < length bs"
    using assms by linarith
  then show ?thesis
    using assms by (simp add: put_bytes_eq nth_append)
qed

lemma new_entry_props:
  assumes "i < 32" and "length dir = 2048" and "length (cname name) < 32"
  defines "dir' \<equiv> new_entry dir (entry_at i) name"
  shows "only_entry i dir dir'" "load32 dir' (entry_at i + 36) = 0" "load32 dir' (entry_at i + 40) = 0" "load32 dir' (entry_at i + 44) = 0"
    "entry_name_equal dir' (entry_at i) name"
proof -
  let ?e = "entry_at i"
  let ?clear = "put_bytes (put_bytes dir ?e (replicate 64 0)) ?e (cname name)"
  have e: "?e + 64 \<le> length dir"
    using assms(1,2) by (simp add: entry_at_def)
  have dir': "dir' = store32 (store32 (store32 (store32 ?clear (?e + 32) 1) (?e + 36) 0) (?e + 40) 0) (?e + 44) 0"
    by (simp add: dir'_def new_entry_def clear_bytes_def cname_def Let_def)
  show "only_entry i dir dir'"
    using assms(3) by (auto simp: only_entry_def dir' nth_store32_other put_bytes_nth_other)
  show "load32 dir' (?e + 36) = 0" "load32 dir' (?e + 40) = 0" "load32 dir' (?e + 44) = 0"
    using e by (simp_all add: dir' buf_simps)
  have "dir' ! (?e + k) = (if k < length (cname name) then cname name ! k else 0)" if "k < 32" for k
  proof -
    have "dir' ! (?e + k) = ?clear ! (?e + k)"
      using that by (simp add: dir' nth_store32_other)
    also have "\<dots> = (if k < length (cname name) then cname name ! k else 0)"
      using that e assms(3) by (simp add: put_bytes_nth put_bytes_nth_other)
    finally show ?thesis .
  qed
  moreover have "load32 dir' (?e + 32) = 1"
    using e by (simp add: dir' buf_simps)
  ultimately show "entry_name_equal dir' ?e name"
    using assms(3) by (simp add: entry_name_equal_iff)
qed

lemma find_None_upt: "find P [0..<n] = None \<longleftrightarrow> (\<forall>i < n. \<not> P i)"
  by (auto simp: find_None_iff)

lemma find_Some_upt: "find P [0..<n] = Some i \<longleftrightarrow> i < n \<and> P i \<and> (\<forall>j < i. \<not> P j)"
  by (auto simp: find_Some_iff)

lemma create_lookup:
  assumes i: "i < 32" "load32 dir (entry_at i + 32) = 0" and len: "length dir = 2048" and name: "length (cname name) < 32"
    and absent: "lookup dir name = None"
  defines "dir' \<equiv> new_entry dir (entry_at i) name"
  shows "lookup dir' name = Some i" and "lookup dir n = Some j \<Longrightarrow> lookup dir' n = Some j \<and> j \<noteq> i"
proof -
  note props = new_entry_props [OF i(1) len name, folded dir'_def]
  have same: "entry_name_equal dir' (entry_at j) m = entry_name_equal dir (entry_at j) m" if "j < 32" "j \<noteq> i" for j m
    using only_entry_other [OF props(1)] that len props(1) by (intro entry_name_equal_cong) (auto simp: entry_at_def only_entry_def)
  have free: "\<not> entry_name_equal dir (entry_at i) m" for m
    using i(2) by (simp add: entry_name_equal_def)
  show "lookup dir' name = Some i"
    using absent props(5) i(1) same by (auto simp: lookup_def find_None_upt find_Some_upt)
  show "lookup dir' n = Some j \<and> j \<noteq> i" if "lookup dir n = Some j"
  proof -
    have "cname n \<noteq> cname name"
      using lookup_cname [of n name dir] absent that by auto
    then have "\<not> entry_name_equal dir' (entry_at i) n"
      using entry_name_equal_unique [OF props(5)] by metis
    then show ?thesis
      using that free same i(1) unfolding lookup_def find_Some_upt by (metis order_less_trans)
  qed
qed

text \<open>
  C9. Creating a file is atomic. For a new name and a directory with a free entry
  \<open>mvhfs_create\<close> returns, whatever the driver does. If it returns 0 the directory has an
  empty file of that name, in the mounted state and after every later mount. If it fails, the
  mounted directory is as before, and a later mount succeeds. All files that existed before are
  there with the same contents in every case.
\<close>

theorem mvhfs_create_atomic:
  assumes inv: "fs_inv dev sec s fs" and name: "valid_name (Some name)" and gen: "generation fs + 1 < 2 ^ 64"
    and absent: "find_entry fs name = None" and free: "find_free fs = Some i"
  shows "\<exists>r fs' w dir. mvhfs_create (Some fs) (Some name) s = Some (r, Some fs', s\<lparr>hardware := w\<rparr>) \<and>
    remounts dev sec (s\<lparr>hardware := w\<rparr>) dir \<and>
    (\<forall>n x. has_file (sec (hardware s)) (directory fs) n x \<longrightarrow> has_file (sec w) dir n x) \<and>
    (if r = 0 then fs_inv dev sec (s\<lparr>hardware := w\<rparr>) fs' \<and> directory fs' = dir \<and> has_file (sec w) dir name []
     else fs' = fs \<and> (dir = directory fs \<or> has_file (sec w) dir name []))"
proof -
  let ?D = "sec (hardware s)" and ?dir = "directory fs" and ?dir' = "new_entry (directory fs) (entry_at i) name"
  have len: "length ?dir = 2048"
    by (rule fs_inv_length [OF inv])
  have i: "i < 32" "load32 ?dir (entry_at i + 32) = 0"
    using free by (auto simp: find_free_def find_Some_upt)
  have short: "length (cname name) < 32"
    by (rule valid_name_short [OF name])
  have none: "lookup ?dir name = None"
    using absent by (simp add: find_entry_lookup)
  note props = new_entry_props [OF i(1) len short] and look = create_lookup [OF i len short none]
  obtain r fs' w where commit: "commit_entry (fs\<lparr>directory := ?dir'\<rparr>) (entry_at i) (entry_backup fs (entry_at i)) s =
        Some (if r then 0 else - 1, Some fs', s\<lparr>hardware := w\<rparr>)"
    and frame: "\<forall>l \<ge> 10. sec w l = ?D l"
    and res: "if r then fs_inv dev sec (s\<lparr>hardware := w\<rparr>) fs' \<and> directory fs' = ?dir' else fs' = fs"
    and rem: "remounts dev sec (s\<lparr>hardware := w\<rparr>) ?dir' \<or> \<not> r \<and> remounts dev sec (s\<lparr>hardware := w\<rparr>) ?dir"
    using commit_entry_disk [OF inv gen i(1) props(1)] by blast
  have start: "mvhfs_create (Some fs) (Some name) s = Some (if r then 0 else - 1, Some fs', s\<lparr>hardware := w\<rparr>)"
    using inv name absent free commit by (simp add: mvhfs_create_def fs_inv_def Let_def)
  have "stored (sec w) ?dir' i []"
    using props by (simp add: stored_def crc.update_nil)
  then have new: "has_file (sec w) ?dir' name []"
    using look(1) by (auto simp: has_file_def)
  have kept: "has_file (sec w) ?dir n x \<and> has_file (sec w) ?dir' n x" if has: "has_file ?D ?dir n x" for n x
  proof -
    obtain j where j: "lookup ?dir n = Some j" and st: "stored ?D ?dir j x"
      using has by (auto simp: has_file_def)
    have sec: "sec w l = ?D l" if "data_lba j slot \<le> l" for l slot
      using frame that data_lba_bound(2) [of j slot] by simp
    have "stored (sec w) ?dir j x"
      using sec lookup_Some_less [OF j] len by (intro stored_cong [OF st]) auto
    moreover have "stored (sec w) ?dir' j x"
      using sec lookup_Some_less [OF j] len look(2) [OF j] only_entry_other [OF props(1)] props(1)
      by (intro stored_cong [OF st]) (auto simp: only_entry_def)
    ultimately show ?thesis
      using j look(2) [OF j] by (auto simp: has_file_def)
  qed
  show ?thesis
  proof (cases "remounts dev sec (s\<lparr>hardware := w\<rparr>) ?dir'")
    case True
    then show ?thesis
      using start res new kept by (intro exI [of _ "if r then 0 else - 1"] exI [of _ fs'] exI [of _ w] exI [of _ ?dir']) (cases r, auto)
  next
    case False
    then show ?thesis
      using start res rem kept by (intro exI [of _ "- 1"] exI [of _ fs'] exI [of _ w] exI [of _ ?dir]) auto
  qed
qed

subsection \<open>A disk in memory\<close>

definition ram_read :: "(nat \<Rightarrow> bytes) block_read_fn" where
  "ram_read ctx lba count buffer w = (0, w lba, w)"

definition ram_write :: "(nat \<Rightarrow> bytes) block_write_fn" where
  "ram_write ctx lba count buffer w = (0, w(lba := buffer))"

definition ram_layer :: "(nat \<Rightarrow> bytes) \<Rightarrow> (nat \<Rightarrow> bytes) block_layer" where
  "ram_layer D = \<lparr>block_devices = (\<lambda>i. \<lparr>bd_id = i, bd_name = [114], sector_size = 512, sector_count = 522, bd_writable = 1,
     bd_context = 0, bd_read = Some ram_read, bd_write = Some ram_write\<rparr>),
     block_device_count = 1, block_lock = \<lparr>sl_state = 0\<rparr>, hardware = D\<rparr>"

definition disk_image :: "bytes \<Rightarrow> bytes \<Rightarrow> nat \<Rightarrow> bytes" where
  "disk_image dir data l =
     (if l = 0 then build_superblock (replicate 512 0) 522 1 0 (crc32_all 0 dir)
      else if l = 1 then build_superblock (replicate 512 0) 522 0 1 0
      else if l < 6 then take 512 (drop ((l - 2) * 512) dir)
      else if l < 10 then replicate 512 0 else pad (take 512 (drop ((l - 10) * 512) data)))"

definition image_fs :: "bytes \<Rightarrow> mvhfs_t" where
  "image_fs dir = \<lparr>fs_device_id = 0, superblock_slot = 0, directory_slot = 0, generation = 1, mounted = 1, directory = dir\<rparr>"

definition hello_name :: bytes where
  "hello_name = [104, 105]"

definition hello_dir :: bytes where
  "hello_dir = written (new_entry zero_directory (entry_at 0) hello_name) 0 0 [1, 2, 3]"

definition hello_layer :: "(nat \<Rightarrow> bytes) block_layer" where
  "hello_layer = ram_layer (disk_image hello_dir [1, 2, 3])"

lemma ram_device:
  assumes "full_sectors 522 D"
  shows "mvh_device 0 (\<lambda>w. w) (ram_layer D)"
proof -
  have "reads_sectors ram_read 0 522 (\<lambda>w. w)" "writes_sectors ram_write 0 522 (\<lambda>w. w)"
    by (auto simp: reads_sectors_def writes_sectors_def ram_read_def ram_write_def)
  then show ?thesis
    using assms by (simp add: mvh_device_def disk_device_def block_ok_def device_ok_def ram_layer_def)
qed

lemma image_inv:
  assumes "length dir = 2048"
  shows "fs_inv 0 (\<lambda>w. w) (ram_layer (disk_image dir data)) (image_fs dir)"
proof -
  let ?D = "disk_image dir data"
  note sb0 = build_superblock_ok [of "replicate 512 0" 522 522 1 0 "crc32_all 0 dir"]
  note sb1 = build_superblock_ok [of "replicate 512 0" 522 522 0 1 0]
  have "full_sectors 522 ?D"
    using assms sb0(1) sb1(1) by (auto simp: full_sectors_def disk_image_def length_pad)
  moreover have "dir_of ?D 0 = dir"
    using entry_array_cut [of 4 ?D 2 dir] assms by (simp add: dir_of_def directory_lba_def disk_image_def)
  then have "current ?D 522 0 0 1 dir"
    using assms sb0 sb1 by (simp add: current_def disk_image_def)
  ultimately show ?thesis
    using ram_device [of ?D] by (simp add: fs_inv_def image_fs_def ram_layer_def)
qed

lemma length_zero_directory: "length zero_directory = 2048"
  by (simp add: zero_directory_def)

lemma zero_directory_free: "lookup zero_directory name = None" "i < 32 \<Longrightarrow> load32 zero_directory (entry_at i + 32) = 0"
proof -
  show zero: "load32 zero_directory (entry_at i + 32) = 0" if "i < 32" for i
    using that by (simp add: load32_def zero_directory_def entry_at_def)
  then show "lookup zero_directory name = None"
    by (simp add: lookup_def find_None_upt entry_name_equal_def del: upt_rec_numeral)
qed

lemma hello_valid: "valid_name (Some hello_name)" "length (cname hello_name) < 32"
  by (simp_all add: valid_name_def hello_name_def name_at_def cname_def)

lemma length_hello_dir: "length hello_dir = 2048"
  using new_entry_props(1) [OF _ length_zero_directory hello_valid(2), of 0] length_zero_directory
  by (simp add: hello_dir_def written_def only_entry_def)

lemma hello_file: "has_file (disk_image hello_dir [1, 2, 3]) hello_dir hello_name [1, 2, 3]"
proof -
  let ?dir = "new_entry zero_directory (entry_at 0) hello_name"
  have "lookup ?dir hello_name = Some 0"
    using create_lookup(1) [of 0 zero_directory hello_name] zero_directory_free length_zero_directory hello_valid by simp
  moreover have "length ?dir = 2048"
    using new_entry_props(1) [OF _ length_zero_directory hello_valid(2), of 0] length_zero_directory by (simp add: only_entry_def)
  moreover have "disk_image hello_dir [1, 2, 3] (data_lba 0 (unat (0 :: u32)) + k) = pad (take 512 (drop (k * 512) [1, 2, 3]))" if "k < 8" for k
    by (simp add: disk_image_def data_lba_def)
  ultimately show ?thesis
    using write_takes_new [of ?dir hello_name 0 "[1, 2, 3]" 0 "disk_image hello_dir [1, 2, 3]" "disk_image hello_dir [1, 2, 3]"]
    by (simp add: hello_dir_def)
qed

lemma hello_inv: "fs_inv 0 (\<lambda>w. w) hello_layer (image_fs hello_dir)"
  unfolding hello_layer_def by (rule image_inv [OF length_hello_dir])

lemma hello_state: "hardware hello_layer = disk_image hello_dir [1, 2, 3]" "directory (image_fs d) = d" "generation (image_fs d) = 1"
  by (simp_all add: hello_layer_def ram_layer_def image_fs_def)

theorem mvhfs_read_returns_contents_witness:
  "\<exists>w. mvhfs_read (Some (image_fs hello_dir)) (Some hello_name) (Some (replicate 8 0)) 8 (Some 0) hello_layer =
     Some (0, Some [1, 2, 3, 0, 0, 0, 0, 0], Some 3, hello_layer\<lparr>hardware := w\<rparr>)"
  using mvhfs_read_returns_contents [OF hello_inv hello_valid(1), of "[1, 2, 3]" 8 "replicate 8 0" 0] hello_file
  by (auto simp: hello_state eval_nat_numeral)

theorem mvhfs_write_atomic_witness:
  "\<exists>r fs' w. mvhfs_write (Some (image_fs hello_dir)) (Some hello_name) (Some [7]) (length [7 :: u8]) hello_layer =
     Some (r, Some fs', hello_layer\<lparr>hardware := w\<rparr>) \<and> (r = 0 \<longrightarrow> has_file w (directory fs') hello_name [7])"
proof -
  have "generation (image_fs hello_dir) + 1 < 2 ^ 64" "length [7 :: u8] \<le> 4096"
    "has_file (hardware hello_layer) (directory (image_fs hello_dir)) hello_name [1, 2, 3]"
    using hello_file by (simp_all add: hello_state)
  from mvhfs_write_atomic [OF hello_inv hello_valid(1), OF this(1,3,2)] show ?thesis
    by metis
qed

theorem mvhfs_format_empty_witness:
  "mvh_device 0 (\<lambda>w. w) (ram_layer (\<lambda>l. replicate 512 0)) \<and>
   (\<exists>r w. mvhfs_format 0 (ram_layer (\<lambda>l. replicate 512 0)) = Some (r, (ram_layer (\<lambda>l. replicate 512 0))\<lparr>hardware := w\<rparr>))"
proof -
  have "mvh_device 0 (\<lambda>w. w) (ram_layer (\<lambda>l. replicate 512 0))"
    by (rule ram_device) (simp add: full_sectors_def)
  from this mvhfs_format_empty [OF this] show ?thesis
    by blast
qed

theorem mvhfs_create_atomic_witness:
  "\<exists>r fs' w. mvhfs_create (Some (image_fs zero_directory)) (Some hello_name) (ram_layer (disk_image zero_directory [])) =
     Some (r, Some fs', (ram_layer (disk_image zero_directory []))\<lparr>hardware := w\<rparr>) \<and> (r = 0 \<longrightarrow> has_file w (directory fs') hello_name [])"
proof -
  have "generation (image_fs zero_directory) + 1 < 2 ^ 64" "find_entry (image_fs zero_directory) hello_name = None"
    "find_free (image_fs zero_directory) = Some 0"
    using zero_directory_free by (simp_all add: hello_state find_entry_lookup find_free_def find_Some_upt del: upt_rec_numeral)
  from mvhfs_create_atomic [OF image_inv [OF length_zero_directory] hello_valid(1) this, of "[]"] show ?thesis
    by metis
qed

end
