(* ===== verification/Net.thy ===== *)
theory Net
  imports Memory
begin

section \<open>The network stack\<close>

text \<open>
  The packet formats and tables of \<open>net/net.c\<close>: Ethernet, ARP, IPv4, UDP and ICMP echo on
  packets in memory, the cache of hardware addresses and the routing table. Pointers are
  addresses with 0 the null pointer, a pointer to a structure is \<open>None\<close> when null, and sizes
  are naturals with the 32-bit wrap-around written out.
\<close>

abbreviation NET_ETHERNET_HEADER :: nat where "NET_ETHERNET_HEADER \<equiv> 14"
abbreviation NET_IPV4_HEADER_MIN :: nat where "NET_IPV4_HEADER_MIN \<equiv> 20"
abbreviation NET_ARP_PACKET_SIZE :: nat where "NET_ARP_PACKET_SIZE \<equiv> 28"
abbreviation NET_ARP_CACHE_SIZE :: nat where "NET_ARP_CACHE_SIZE \<equiv> 32"
abbreviation NET_ROUTE_MAX :: nat where "NET_ROUTE_MAX \<equiv> 16"
abbreviation NET_ETHERTYPE_IPV4 :: u16 where "NET_ETHERTYPE_IPV4 \<equiv> 0x0800"
abbreviation NET_PROTOCOL_UDP :: u8 where "NET_PROTOCOL_UDP \<equiv> 17"

text \<open>The structure \<open>net_mac_t\<close> is its array of six bytes.\<close>

type_synonym net_mac_t = bytes

record net_ethernet_frame_t =
  ef_destination :: net_mac_t
  ef_source :: net_mac_t
  ethertype :: u16
  ef_payload :: nat
  ef_payload_size :: nat

record net_arp_packet_t =
  operation :: u16
  sender_mac :: net_mac_t
  sender_ip :: u32
  target_mac :: net_mac_t
  target_ip :: u32

record net_ipv4_packet_t =
  header_size :: nat
  dscp_ecn :: u8
  total_size :: u16
  identification :: u16
  fragment :: u16
  ip_ttl :: u8
  protocol :: u8
  ip_source :: u32
  ip_destination :: u32
  ip_payload :: nat
  ip_payload_size :: nat

record net_udp_datagram_t =
  source_port :: u16
  destination_port :: u16
  udp_payload :: nat
  udp_payload_size :: nat

record net_arp_entry_t =
  arp_valid :: nat
  arp_address :: u32
  arp_mac :: net_mac_t
  expires_at :: nat

record net_route_t =
  route_valid :: nat
  network :: u32
  netmask :: u32
  gateway :: u32
  metric :: nat
  interface_id :: nat

record net_state =
  arp_cache :: "net_arp_entry_t list"
  routes :: "net_route_t list"

subsection \<open>Fields in network order\<close>

definition net_load16 :: "nat \<Rightarrow> mem \<Rightarrow> u16" where
  "net_load16 p m = push_bit 8 (ucast (m p)) OR ucast (m (p + 1))"

definition net_load32 :: "nat \<Rightarrow> mem \<Rightarrow> u32" where
  "net_load32 p m = push_bit 24 (ucast (m p)) OR push_bit 16 (ucast (m (p + 1))) OR
     push_bit 8 (ucast (m (p + 2))) OR ucast (m (p + 3))"

definition net_store16 :: "nat \<Rightarrow> u16 \<Rightarrow> mem \<Rightarrow> mem" where
  "net_store16 p v m = m(p := ucast (drop_bit 8 v), p + 1 := ucast v)"

definition net_store32 :: "nat \<Rightarrow> u32 \<Rightarrow> mem \<Rightarrow> mem" where
  "net_store32 p v m = m(p := ucast (drop_bit 24 v), p + 1 := ucast (drop_bit 16 v),
     p + 2 := ucast (drop_bit 8 v), p + 3 := ucast v)"

text \<open>\<open>copy_bytes\<close> between a packet and an array of a structure.\<close>

definition mem_get :: "nat \<Rightarrow> nat \<Rightarrow> mem \<Rightarrow> bytes" where
  "mem_get p n m = map (\<lambda>k. m (p + k)) [0..<n]"

fun mem_put :: "nat \<Rightarrow> bytes \<Rightarrow> mem \<Rightarrow> mem" where
  "mem_put p [] m = m"
| "mem_put p (b # bs) m = mem_put (p + 1) bs (m(p := b))"

definition mac_equal :: "net_mac_t \<Rightarrow> net_mac_t \<Rightarrow> bool" where
  "mac_equal left right = list_all (\<lambda>index. left ! index = right ! index) [0..<6]"

text \<open>The conversion of an unsigned 32-bit result to \<open>int\<close>.\<close>

definition to_int :: "nat \<Rightarrow> int" where
  "to_int v = (if v < 2 ^ 31 then int v else int v - 2 ^ 32)"

subsection \<open>Checksums\<close>

fun checksum_loop :: "nat \<Rightarrow> nat \<Rightarrow> nat \<Rightarrow> mem \<Rightarrow> nat" where
  "checksum_loop 0 p tot m = tot"
| "checksum_loop (Suc 0) p tot m = add32 tot (unat (m p) * 256)"
| "checksum_loop (Suc (Suc n)) p tot m = checksum_loop n (p + 2) (add32 tot (unat (net_load16 p m))) m"

function fold_carries :: "nat \<Rightarrow> nat" where
  "fold_carries tot = (if tot div 65536 \<noteq> 0 then fold_carries (tot mod 65536 + tot div 65536) else tot)"
  by auto
termination
proof (relation "measure id")
  fix tot :: nat
  assume "tot div 65536 \<noteq> 0"
  then have "tot mod 65536 + tot div 65536 < tot"
    using div_mult_mod_eq [of tot 65536] by linarith
  then show "(tot mod 65536 + tot div 65536, tot) \<in> measure id"
    by simp
qed simp

declare fold_carries.simps [simp del]

definition net_checksum :: "nat \<Rightarrow> nat \<Rightarrow> mem \<Rightarrow> u16" where
  "net_checksum data len m = NOT (word_of_nat (fold_carries (checksum_loop len data 0 m)))"

subsection \<open>Ethernet and ARP\<close>

definition net_ethernet_parse ::
  "nat \<Rightarrow> nat \<Rightarrow> net_ethernet_frame_t option \<Rightarrow> mem \<Rightarrow> int \<times> net_ethernet_frame_t option" where
  "net_ethernet_parse packet len frame m =
     (if packet = 0 \<or> frame = None \<or> len < NET_ETHERNET_HEADER then (- 1, frame)
      else (0, Some \<lparr>ef_destination = mem_get packet 6 m, ef_source = mem_get (packet + 6) 6 m,
        ethertype = net_load16 (packet + 12) m, ef_payload = packet + NET_ETHERNET_HEADER,
        ef_payload_size = len - NET_ETHERNET_HEADER\<rparr>))"

definition net_ethernet_build ::
  "nat \<Rightarrow> nat \<Rightarrow> net_mac_t option \<Rightarrow> net_mac_t option \<Rightarrow> u16 \<Rightarrow> nat \<Rightarrow> nat \<Rightarrow> mem \<Rightarrow> int \<times> mem" where
  "net_ethernet_build packet capacity destination source type payload payload_size m =
     (let tot = add32 NET_ETHERNET_HEADER payload_size in
      if packet = 0 \<or> destination = None \<or> source = None \<or> payload_size \<noteq> 0 \<and> payload = 0 \<or> capacity < tot
      then (- 1, m)
      else let m = mem_put packet (the destination) m;
               m = mem_put (packet + 6) (the source) m;
               m = net_store16 (packet + 12) type m;
               m = (if payload_size \<noteq> 0 then mem_copy_fwd (packet + NET_ETHERNET_HEADER) payload payload_size m else m) in
        (to_int tot, m))"

definition net_arp_parse :: "nat \<Rightarrow> nat \<Rightarrow> net_arp_packet_t option \<Rightarrow> mem \<Rightarrow> int \<times> net_arp_packet_t option" where
  "net_arp_parse packet len arp m =
     (case arp of
        None \<Rightarrow> (- 1, None)
      | Some a \<Rightarrow>
        if packet = 0 \<or> len < NET_ARP_PACKET_SIZE \<or> net_load16 packet m \<noteq> 1 \<or>
           net_load16 (packet + 2) m \<noteq> NET_ETHERTYPE_IPV4 \<or> m (packet + 4) \<noteq> 6 \<or> m (packet + 5) \<noteq> 4
        then (- 1, Some a)
        else let a = a\<lparr>operation := net_load16 (packet + 6) m\<rparr> in
          if operation a \<noteq> 1 \<and> operation a \<noteq> 2 then (- 1, Some a)
          else (0, Some (a\<lparr>sender_mac := mem_get (packet + 8) 6 m, sender_ip := net_load32 (packet + 14) m,
            target_mac := mem_get (packet + 18) 6 m, target_ip := net_load32 (packet + 24) m\<rparr>)))"

definition net_arp_build ::
  "nat \<Rightarrow> nat \<Rightarrow> u16 \<Rightarrow> net_mac_t option \<Rightarrow> u32 \<Rightarrow> net_mac_t option \<Rightarrow> u32 \<Rightarrow> mem \<Rightarrow> int \<times> mem" where
  "net_arp_build packet capacity oper smac sip tmac tip m =
     (if packet = 0 \<or> smac = None \<or> tmac = None \<or> capacity < NET_ARP_PACKET_SIZE \<or> oper \<noteq> 1 \<and> oper \<noteq> 2
      then (- 1, m)
      else let m = net_store16 packet 1 m;
               m = net_store16 (packet + 2) NET_ETHERTYPE_IPV4 m;
               m = m(packet + 4 := 6, packet + 5 := 4);
               m = net_store16 (packet + 6) oper m;
               m = mem_put (packet + 8) (the smac) m;
               m = net_store32 (packet + 14) sip m;
               m = mem_put (packet + 18) (the tmac) m;
               m = net_store32 (packet + 24) tip m in
        (int NET_ARP_PACKET_SIZE, m))"

subsection \<open>IPv4, UDP and ICMP\<close>

definition net_ipv4_parse :: "nat \<Rightarrow> nat \<Rightarrow> net_ipv4_packet_t option \<Rightarrow> mem \<Rightarrow> int \<times> net_ipv4_packet_t option" where
  "net_ipv4_parse packet len ipv4 m =
     (if packet = 0 \<or> ipv4 = None \<or> len < NET_IPV4_HEADER_MIN \<or> drop_bit 4 (m packet) \<noteq> 4 \<or> m packet AND 0x0F < 5
      then (- 1, ipv4)
      else let hsize = unat (m packet AND 0x0F) * 4;
               tot = unat (net_load16 (packet + 2) m) in
        if len < hsize \<or> tot < hsize \<or> len < tot \<or> net_checksum packet hsize m \<noteq> 0 then (- 1, ipv4)
        else (0, Some \<lparr>header_size = hsize, dscp_ecn = m (packet + 1), total_size = word_of_nat tot,
          identification = net_load16 (packet + 4) m, fragment = net_load16 (packet + 6) m, ip_ttl = m (packet + 8),
          protocol = m (packet + 9), ip_source = net_load32 (packet + 12) m, ip_destination = net_load32 (packet + 16) m,
          ip_payload = packet + hsize, ip_payload_size = tot - hsize\<rparr>))"

definition net_ipv4_build ::
  "nat \<Rightarrow> nat \<Rightarrow> u32 \<Rightarrow> u32 \<Rightarrow> u8 \<Rightarrow> u8 \<Rightarrow> u16 \<Rightarrow> nat \<Rightarrow> nat \<Rightarrow> mem \<Rightarrow> int \<times> mem" where
  "net_ipv4_build packet capacity source destination proto ttl ident payload payload_size m =
     (let tot = add32 NET_IPV4_HEADER_MIN payload_size in
      if packet = 0 \<or> payload_size \<noteq> 0 \<and> payload = 0 \<or> 65535 < tot \<or> capacity < tot \<or> ttl = 0 then (- 1, m)
      else let m = mem_fill packet NET_IPV4_HEADER_MIN 0 m;
               m = m(packet := 0x45);
               m = net_store16 (packet + 2) (word_of_nat tot) m;
               m = net_store16 (packet + 4) ident m;
               m = net_store16 (packet + 6) 0x4000 m;
               m = m(packet + 8 := ttl, packet + 9 := proto);
               m = net_store32 (packet + 12) source m;
               m = net_store32 (packet + 16) destination m;
               m = net_store16 (packet + 10) (net_checksum packet NET_IPV4_HEADER_MIN m) m;
               m = (if payload_size \<noteq> 0 then mem_copy_fwd (packet + NET_IPV4_HEADER_MIN) payload payload_size m else m) in
        (to_int tot, m))"

fun udp_sum_loop :: "nat \<Rightarrow> nat \<Rightarrow> nat \<Rightarrow> nat \<Rightarrow> mem \<Rightarrow> nat" where
  "udp_sum_loop 0 udp offset tot m = tot"
| "udp_sum_loop (Suc n) udp offset tot m = udp_sum_loop n udp (offset + 2) (add32 tot (unat (net_load16 (udp + offset) m))) m"

definition udp_checksum :: "u32 \<Rightarrow> u32 \<Rightarrow> nat \<Rightarrow> nat \<Rightarrow> mem \<Rightarrow> u16" where
  "udp_checksum source_ip destination_ip udp len m =
     (let tot = add32 (unat (drop_bit 16 source_ip) + unat (source_ip AND 0xFFFF) + unat (drop_bit 16 destination_ip) +
            unat (destination_ip AND 0xFFFF) + 17) len;
          tot = udp_sum_loop (len div 2) udp 0 tot m;
          tot = (if len mod 2 \<noteq> 0 then add32 tot (unat (m (udp + len - 1)) * 256) else tot) in
      NOT (word_of_nat (fold_carries tot)))"

definition net_udp_parse :: "nat \<Rightarrow> nat \<Rightarrow> net_udp_datagram_t option \<Rightarrow> mem \<Rightarrow> int \<times> net_udp_datagram_t option" where
  "net_udp_parse packet len udp m =
     (if packet = 0 \<or> udp = None \<or> len < 8 then (- 1, udp)
      else let n = unat (net_load16 (packet + 4) m) in
        if n < 8 \<or> len < n then (- 1, udp)
        else (0, Some \<lparr>source_port = net_load16 packet m, destination_port = net_load16 (packet + 2) m,
          udp_payload = packet + 8, udp_payload_size = n - 8\<rparr>))"

definition net_udp_build ::
  "nat \<Rightarrow> nat \<Rightarrow> u32 \<Rightarrow> u32 \<Rightarrow> u16 \<Rightarrow> u16 \<Rightarrow> nat \<Rightarrow> nat \<Rightarrow> mem \<Rightarrow> int \<times> mem" where
  "net_udp_build packet capacity source_ip destination_ip sport dport payload payload_size m =
     (let tot = add32 8 payload_size in
      if packet = 0 \<or> payload_size \<noteq> 0 \<and> payload = 0 \<or> 65535 < tot \<or> capacity < tot \<or> sport = 0 \<or> dport = 0
      then (- 1, m)
      else let m = net_store16 packet sport m;
               m = net_store16 (packet + 2) dport m;
               m = net_store16 (packet + 4) (word_of_nat tot) m;
               m = net_store16 (packet + 6) 0 m;
               m = (if payload_size \<noteq> 0 then mem_copy_fwd (packet + 8) payload payload_size m else m);
               c = udp_checksum source_ip destination_ip packet tot m in
        (to_int tot, net_store16 (packet + 6) (if c = 0 then 0xFFFF else c) m))"

definition net_icmp_echo_reply :: "nat \<Rightarrow> nat \<Rightarrow> mem \<Rightarrow> int \<times> mem" where
  "net_icmp_echo_reply packet len m =
     (if packet = 0 \<or> len < 8 \<or> m packet \<noteq> 8 \<or> m (packet + 1) \<noteq> 0 \<or> net_checksum packet len m \<noteq> 0 then (- 1, m)
      else let m = m(packet := 0, packet + 2 := 0, packet + 3 := 0) in
        (0, net_store16 (packet + 2) (net_checksum packet len m) m))"

subsection \<open>The cache of hardware addresses\<close>

definition net_arp_cache_init :: "net_state \<Rightarrow> net_state" where
  "net_arp_cache_init s = s\<lparr>arp_cache := map (\<lambda>e. e\<lparr>arp_valid := 0\<rparr>) (arp_cache s)\<rparr>"

definition net_arp_cache_expire :: "nat \<Rightarrow> net_state \<Rightarrow> net_state" where
  "net_arp_cache_expire now s = s\<lparr>arp_cache :=
     map (\<lambda>e. if arp_valid e \<noteq> 0 \<and> expires_at e \<le> now then e\<lparr>arp_valid := 0\<rparr> else e) (arp_cache s)\<rparr>"

fun arp_slot_loop :: "u32 \<Rightarrow> nat \<Rightarrow> nat \<Rightarrow> net_arp_entry_t list \<Rightarrow> nat" where
  "arp_slot_loop address index slot [] = slot"
| "arp_slot_loop address index slot (e # es) =
     (if arp_valid e \<noteq> 0 \<and> arp_address e = address then index
      else arp_slot_loop address (index + 1)
        (if slot = NET_ARP_CACHE_SIZE \<and> arp_valid e = 0 then index else slot) es)"

definition net_arp_cache_update :: "u32 \<Rightarrow> net_mac_t option \<Rightarrow> nat \<Rightarrow> net_state \<Rightarrow> int \<times> net_state" where
  "net_arp_cache_update address mac expires s =
     (if address = 0 \<or> mac = None \<or> expires = 0 then (- 1, s)
      else let slot = arp_slot_loop address 0 NET_ARP_CACHE_SIZE (arp_cache s);
               slot = (if slot = NET_ARP_CACHE_SIZE then unat address mod NET_ARP_CACHE_SIZE else slot) in
        (0, s\<lparr>arp_cache := (arp_cache s)[slot :=
          \<lparr>arp_valid = 1, arp_address = address, arp_mac = the mac, expires_at = expires\<rparr>]\<rparr>))"

definition net_arp_cache_lookup :: "u32 \<Rightarrow> nat \<Rightarrow> net_mac_t option \<Rightarrow> net_state \<Rightarrow> int \<times> net_mac_t option \<times> net_state" where
  "net_arp_cache_lookup address now mac s =
     (if mac = None then (- 1, mac, s)
      else case scan_from (\<lambda>e. arp_valid e \<noteq> 0 \<and> arp_address e = address) 0 (arp_cache s) of
          None \<Rightarrow> (- 1, mac, s)
        | Some index \<Rightarrow>
          let e = arp_cache s ! index in
          if expires_at e \<le> now then (- 1, mac, s\<lparr>arp_cache := (arp_cache s)[index := e\<lparr>arp_valid := 0\<rparr>]\<rparr>)
          else (0, Some (arp_mac e), s))"

subsection \<open>Routes\<close>

definition net_route_init :: "net_state \<Rightarrow> net_state" where
  "net_route_init s = s\<lparr>routes := map (\<lambda>r. r\<lparr>route_valid := 0\<rparr>) (routes s)\<rparr>"

definition net_route_add :: "u32 \<Rightarrow> u32 \<Rightarrow> u32 \<Rightarrow> nat \<Rightarrow> nat \<Rightarrow> net_state \<Rightarrow> int \<times> net_state" where
  "net_route_add net nmask gw met ifc s =
     (if net AND NOT nmask \<noteq> 0 then (- 1, s)
      else case scan_from (\<lambda>r. route_valid r = 0) 0 (routes s) of
          None \<Rightarrow> (- 1, s)
        | Some index \<Rightarrow> (0, s\<lparr>routes := (routes s)[index :=
            \<lparr>route_valid = 1, network = net, netmask = nmask, gateway = gw, metric = met, interface_id = ifc\<rparr>]\<rparr>))"

function mask_bits_loop :: "u32 \<Rightarrow> nat \<Rightarrow> nat" where
  "mask_bits_loop v count = (if v \<noteq> 0 then mask_bits_loop (drop_bit 1 v) (count + unat (v AND 1)) else count)"
  by auto
termination
proof (relation "measure (\<lambda>(v, count). unat v)")
  fix v :: u32 and count :: nat
  assume "v \<noteq> 0"
  then have "unat v div 2 < unat v"
    by (simp add: unat_gt_0)
  then show "((drop_bit 1 v, count + unat (v AND 1)), (v, count)) \<in> measure (\<lambda>(v, count). unat v)"
    by (simp add: drop_bit_eq_div unat_div)
qed simp

declare mask_bits_loop.simps [simp del]

definition mask_bits :: "u32 \<Rightarrow> nat" where
  "mask_bits v = mask_bits_loop v 0"

definition route_step :: "u32 \<Rightarrow> net_route_t list \<Rightarrow> nat \<Rightarrow> nat \<times> nat \<Rightarrow> nat \<times> nat" where
  "route_step destination rs index acc =
     (let (best, best_bits) = acc; r = rs ! index in
      if route_valid r = 0 \<or> destination AND netmask r \<noteq> network r then acc
      else let bits = mask_bits (netmask r) in
        if best = NET_ROUTE_MAX \<or> best_bits < bits \<or> bits = best_bits \<and> metric r < metric (rs ! best)
        then (index, bits) else acc)"

definition net_route_lookup :: "u32 \<Rightarrow> net_route_t option \<Rightarrow> net_state \<Rightarrow> int \<times> net_route_t option" where
  "net_route_lookup destination route s =
     (let (best, best_bits) = fold (route_step destination (routes s)) [0..<NET_ROUTE_MAX] (NET_ROUTE_MAX, 0) in
      if best = NET_ROUTE_MAX \<or> route = None then (- 1, route) else (0, Some (routes s ! best)))"

subsection \<open>The self test\<close>

text \<open>
  The self test works on two local arrays, \<open>packet\<close> of 128 and \<open>payload\<close> of 4 bytes, whose
  addresses are arguments here.
\<close>

definition self_test_mac :: "u8 \<Rightarrow> net_mac_t" where
  "self_test_mac b = [0x02, 0, 0, 0, 0, b]"

definition self_test_arp :: "nat \<Rightarrow> mem \<Rightarrow> bool \<times> mem" where
  "self_test_arp packet m =
     (let (r, m) = net_arp_build packet 128 1 (Some (self_test_mac 1)) 0xC0A8010A (Some (self_test_mac 2)) 0xC0A80101 m;
          (r', arp) = net_arp_parse packet NET_ARP_PACKET_SIZE
            (Some \<lparr>operation = 0, sender_mac = [], sender_ip = 0, target_mac = [], target_ip = 0\<rparr>) m in
      (r = int NET_ARP_PACKET_SIZE \<and> r' = 0 \<and> operation (the arp) = 1 \<and> sender_ip (the arp) = 0xC0A8010A \<and>
       mac_equal (sender_mac (the arp)) (self_test_mac 1), m))"

definition self_test_udp :: "nat \<Rightarrow> nat \<Rightarrow> mem \<Rightarrow> bool \<times> mem" where
  "self_test_udp packet payload m =
     (let (size, m) = net_udp_build (packet + 32) (128 - 32) 0xC0A8010A 0xC0A80101 1234 4321 payload 4 m;
          (r, udp) = net_udp_parse (packet + 32) (nat size)
            (Some \<lparr>source_port = 0, destination_port = 0, udp_payload = 0, udp_payload_size = 0\<rparr>) m in
      (size = 12 \<and> r = 0 \<and> source_port (the udp) = 1234 \<and> destination_port (the udp) = 4321 \<and>
       udp_payload_size (the udp) = 4, m))"

definition self_test_ipv4 :: "nat \<Rightarrow> mem \<Rightarrow> bool \<times> mem" where
  "self_test_ipv4 packet m =
     (let none = Some \<lparr>header_size = 0, dscp_ecn = 0, total_size = 0, identification = 0, fragment = 0, ip_ttl = 0,
            protocol = 0, ip_source = 0, ip_destination = 0, ip_payload = 0, ip_payload_size = 0\<rparr>;
          (size, m) = net_ipv4_build packet 128 0xC0A8010A 0xC0A80101 NET_PROTOCOL_UDP 64 7 (packet + 32) 12 m;
          (r, ipv4) = net_ipv4_parse packet (nat size) none m;
          ok = (size = 32 \<and> r = 0 \<and> protocol (the ipv4) = NET_PROTOCOL_UDP \<and> ip_payload_size (the ipv4) = 12);
          m' = m(packet + 10 := m (packet + 10) XOR 1);
          (r', _) = net_ipv4_parse packet (nat size) none m' in
      if \<not> ok then (False, m) else if r' = 0 then (False, m')
      else (True, m'(packet + 10 := m' (packet + 10) XOR 1)))"

definition self_test_tables :: "net_state \<Rightarrow> bool \<times> net_state" where
  "self_test_tables s =
     (let s = net_arp_cache_init s;
          (r1, s) = net_arp_cache_update 0xC0A80101 (Some (self_test_mac 2)) 100 s;
          (r2, mac, s) = net_arp_cache_lookup 0xC0A80101 99 (Some []) s in
      if r1 \<noteq> 0 \<or> r2 \<noteq> 0 \<or> \<not> mac_equal (the mac) (self_test_mac 2) then (False, s)
      else let (r3, mac, s) = net_arp_cache_lookup 0xC0A80101 100 mac s in
      if r3 = 0 then (False, s)
      else let s = net_route_init s;
               (r4, s) = net_route_add 0 0 0xC0A80101 100 1 s;
               (r5, s) = net_route_add 0xC0A80100 0xFFFFFF00 0 10 2 s;
               none = Some \<lparr>route_valid = 0, network = 0, netmask = 0, gateway = 0, metric = 0, interface_id = 0\<rparr>;
               (r6, near) = net_route_lookup 0xC0A80144 none s;
               (r7, far) = net_route_lookup 0x08080808 near s in
        (r4 = 0 \<and> r5 = 0 \<and> r6 = 0 \<and> interface_id (the near) = 2 \<and> r7 = 0 \<and> gateway (the far) = 0xC0A80101, s))"

definition net_self_test :: "nat \<Rightarrow> nat \<Rightarrow> mem \<Rightarrow> net_state \<Rightarrow> int \<times> mem \<times> net_state" where
  "net_self_test packet payload m s =
     (let m = mem_put payload [109, 118, 104, 33] m;
          (ok, m) = self_test_arp packet m in
      if \<not> ok then (- 1, m, s)
      else let (ok, m) = self_test_udp packet payload m in
      if \<not> ok then (- 1, m, s)
      else let (ok, m) = self_test_ipv4 packet m in
      if \<not> ok then (- 1, m, s)
      else let (ok, s) = self_test_tables s in
      (if ok then 0 else - 1, m, s))"

end
