(* ===== verification/Net_Props.thy ===== *)
theory Net_Props
  imports Net Util_Mem Sector
begin

section \<open>Packets\<close>

text \<open>
  What the packet functions of \<open>net/net.c\<close> promise: the two-byte and four-byte fields are
  codecs, a checksum that was stored in a zeroed field verifies, an IPv4 packet is parsed
  back as it was built, and an ICMP echo reply is a valid packet.
\<close>

subsection \<open>Fields in network order\<close>

interpretation net16: field_codec "\<lambda>m i. m i" "\<lambda>m p. net_load16 p m" "\<lambda>m p v. net_store16 p v m" 2 "\<lambda>m p. True"
proof
  fix m m' :: mem and a :: nat
  assume eq: "\<And>i. i < 2 \<Longrightarrow> m (a + i) = m' (a + i)"
  show "net_load16 a m = net_load16 a m'"
    using eq [of 0] eq [of 1] by (simp add: net_load16_def)
qed (auto simp: net_load16_def net_store16_def join_halves_u16 or.commute)

lemma net_load32_store32: "net_load32 p (net_store32 p v m) = v"
  using join_bytes_u32 [of v] by (simp add: net_load32_def net_store32_def ac_simps)

interpretation net32: field_codec "\<lambda>m i. m i" "\<lambda>m p. net_load32 p m" "\<lambda>m p v. net_store32 p v m" 4 "\<lambda>m p. True"
proof
  fix m m' :: mem and a :: nat
  assume eq: "\<And>i. i < 4 \<Longrightarrow> m (a + i) = m' (a + i)"
  show "net_load32 a m = net_load32 a m'"
    using eq [of 0] eq [of 1] eq [of 2] eq [of 3] by (simp add: net_load32_def)
qed (auto simp: net_load32_store32, auto simp: net_store32_def)

lemma mem_put_eq: "mem_put p bs m x = (if p \<le> x \<and> x < p + length bs then bs ! (x - p) else m x)"
proof (induction bs arbitrary: p m)
  case (Cons b bs)
  show ?case
    by (auto simp: Cons.IH nth_Cons')
qed auto

subsection \<open>The Internet checksum\<close>

text \<open>Folding the carries is reduction modulo 65535, with 65535 for the positive multiples.\<close>

lemma fold_carries_eq: "fold_carries s = (if s = 0 then 0 else 1 + (s - 1) mod 65535)"
proof (induction s rule: fold_carries.induct)
  case (1 s)
  show ?case
  proof (cases "s div 65536 = 0")
    case True
    then show ?thesis
      by (auto simp: fold_carries.simps [of s])
  next
    case False
    let ?q = "s div 65536" and ?r = "s mod 65536"
    have s: "s - 1 = (?r + ?q - 1) + ?q * 65535"
      using False div_mult_mod_eq [of s 65536] by linarith
    have "(s - 1) mod 65535 = (?r + ?q - 1) mod 65535"
      by (subst s) simp
    moreover have "?r + ?q \<noteq> 0" "s \<noteq> 0"
      using False by auto
    ultimately show ?thesis
      using 1 [OF False] False by (simp add: fold_carries.simps [of s])
  qed
qed

lemma fold_carries_complement: "fold_carries (s + (65535 - fold_carries s)) = 65535"
proof (cases "s = 0")
  case False
  let ?r = "(s - 1) mod 65535"
  have "?r < 65535"
    by simp
  moreover have "s = 1 + ?r + 65535 * ((s - 1) div 65535)"
    using False mult_div_mod_eq [of 65535 "s - 1"] by linarith
  ultimately have "s + (65535 - (1 + ?r)) - 1 = 65534 + 65535 * ((s - 1) div 65535)"
    by linarith
  then have "(s + (65535 - (1 + ?r)) - 1) mod 65535 = 65534"
    by simp
  then show ?thesis
    using False by (simp add: fold_carries_eq)
qed (simp add: fold_carries_eq)

lemma fold_carries_le: "fold_carries s \<le> 65535"
  using mod_less_divisor [of 65535 "s - 1"] by (simp add: fold_carries_eq Suc_le_eq)

text \<open>
  What the loop adds up: the bytes at even offsets are the high halves of the big-endian
  halfwords, an odd last byte included.
\<close>

definition weight :: "nat \<Rightarrow> nat" where
  "weight k = (if even k then 256 else 1)"

definition weighted_sum :: "nat \<Rightarrow> nat \<Rightarrow> mem \<Rightarrow> nat" where
  "weighted_sum len p m = (\<Sum>k<len. weight k * unat (m (p + k)))"

lemma unat_u16_le: "unat (w :: u16) \<le> 65535"
proof -
  have "unat w < 2 ^ LENGTH(16)"
    by (rule unsigned_less)
  then show ?thesis
    by simp
qed

lemma unat_u8_le: "unat (w :: u8) \<le> 255"
proof -
  have "unat w < 2 ^ LENGTH(8)"
    by (rule unsigned_less)
  then show ?thesis
    by simp
qed

lemma unat_not_u16: "unat (NOT w) = 65535 - unat (w :: u16)"
proof -
  have "NOT w = - 1 - w"
    by (simp add: not_eq_complement)
  moreover have "unat (- 1 :: u16) = 65535"
    by (simp add: unsigned_minus_1_eq_mask mask_eq_exp_minus_1)
  ultimately show ?thesis
    by (simp add: unat_sub)
qed

lemma unat_net_load16: "unat (net_load16 p m) = 256 * unat (m p) + unat (m (p + 1))"
proof -
  have "net_load16 p m = push_bit 8 (ucast (m p)) + ucast (m (p + 1))"
    unfolding net_load16_def
    by (rule disjunctive_add [symmetric]) (auto simp: bit_simps dest: bit_imp_le_length)
  also have "unat \<dots> = 256 * unat (m p) + unat (m (p + 1))"
    using unat_u8_le [of "m p"] unat_u8_le [of "m (p + 1)"]
    by (simp add: unat_word_ariths push_bit_eq_mult unsigned_ucast_eq take_bit_eq_mod)
  finally show ?thesis .
qed

lemma weighted_sum_step:
  "weighted_sum (Suc (Suc n)) p m = unat (net_load16 p m) + weighted_sum n (p + 2) m"
  unfolding weighted_sum_def sum.lessThan_Suc_shift by (simp add: weight_def unat_net_load16)

lemma checksum_loop_sum:
  "tot + len * 65535 < 2 ^ 32 \<Longrightarrow> checksum_loop len p tot m = tot + weighted_sum len p m"
proof (induction len p tot m rule: checksum_loop.induct)
  case (2 p tot m)
  then show ?case
    using unat_u8_le [of "m p"] by (simp add: add32_def weighted_sum_def weight_def)
next
  case (3 n p tot m)
  have "add32 tot (unat (net_load16 p m)) = tot + unat (net_load16 p m)"
    using "3.prems" unat_u16_le [of "net_load16 p m"] by (simp add: add32_def)
  moreover have "tot + unat (net_load16 p m) + n * 65535 < 2 ^ 32"
    using "3.prems" unat_u16_le [of "net_load16 p m"] by simp
  ultimately show ?case
    using "3.IH" by (simp add: weighted_sum_step)
qed (simp add: weighted_sum_def)

text \<open>Writing one byte exchanges its share of the sum.\<close>

lemma weighted_sum_upd:
  assumes "k < len"
  shows "weighted_sum len p (m(p + k := b)) + weight k * unat (m (p + k)) = weighted_sum len p m + weight k * unat b"
proof -
  have "weighted_sum len p m' = weight k * unat (m' (p + k)) + (\<Sum>j\<in>{..<len} - {k}. weight j * unat (m' (p + j)))" for m'
    unfolding weighted_sum_def using assms by (intro sum.remove) auto
  moreover have "(\<Sum>j\<in>{..<len} - {k}. weight j * unat ((m(p + k := b)) (p + j))) =
      (\<Sum>j\<in>{..<len} - {k}. weight j * unat (m (p + j)))"
    by (intro sum.cong) auto
  ultimately show ?thesis
    by simp
qed

lemma weighted_sum_store:
  assumes "even c" and "c + 1 < len"
  shows "weighted_sum len p (net_store16 (p + c) v m) + unat (net_load16 (p + c) m) = weighted_sum len p m + unat v"
proof -
  let ?m = "m(p + c := ucast (drop_bit 8 v))"
  have store: "net_store16 (p + c) v m = ?m(p + (c + 1) := ucast v)"
    by (simp add: net_store16_def)
  have "unat v = 256 * unat (ucast (drop_bit 8 v) :: u8) + unat (ucast v :: u8)"
    using unat_net_load16 [of 0 "net_store16 0 v m"] net16.load_store [of 0 v m] by (simp add: net_store16_def)
  moreover have "weight c = 256" "weight (c + 1) = 1"
    using assms(1) by (simp_all add: weight_def)
  ultimately show ?thesis
    using weighted_sum_upd [of c len p m "ucast (drop_bit 8 v)"] weighted_sum_upd [of "c + 1" len p ?m "ucast v"] assms(2)
    by (simp add: store unat_net_load16)
qed

lemma net_checksum_sum:
  assumes "len \<le> 65535"
  shows "net_checksum p len m = NOT (word_of_nat (fold_carries (weighted_sum len p m)))"
  using assms by (simp add: net_checksum_def checksum_loop_sum)

lemma unat_net_checksum:
  assumes "len \<le> 65535"
  shows "unat (net_checksum p len m) = 65535 - fold_carries (weighted_sum len p m)"
proof -
  let ?f = "fold_carries (weighted_sum len p m)"
  have "unat (NOT (word_of_nat ?f :: u16)) = 65535 - unat (word_of_nat ?f :: u16)"
    by (rule unat_not_u16)
  also have "unat (word_of_nat ?f :: u16) = ?f"
    using fold_carries_le [of "weighted_sum len p m"] by (simp add: unat_of_nat)
  finally show ?thesis
    by (simp add: net_checksum_sum assms)
qed

lemma net_checksum_zero:
  assumes "len \<le> 65535"
  shows "net_checksum p len m = 0 \<longleftrightarrow> weighted_sum len p m \<noteq> 0 \<and> 65535 dvd weighted_sum len p m"
proof -
  let ?s = "weighted_sum len p m"
  have "net_checksum p len m = 0 \<longleftrightarrow> fold_carries ?s = 65535"
    using unat_net_checksum [OF assms, of p m] fold_carries_le [of ?s] by (simp add: unat_eq_zero [symmetric])
  also have "\<dots> \<longleftrightarrow> ?s \<noteq> 0 \<and> (?s - 1) mod 65535 = 65534"
    by (auto simp: fold_carries_eq)
  also have "\<dots> \<longleftrightarrow> ?s \<noteq> 0 \<and> 65535 dvd ?s"
    by (cases ?s) (auto simp: mod_Suc dvd_eq_mod_eq_0)
  finally show ?thesis .
qed

text \<open>A checksum stored in its zeroed field verifies, and then no single wrong byte does.\<close>

lemma net_checksum_verifies:
  assumes "len \<le> 65535" and "even c" and "c + 1 < len" and "net_load16 (p + c) m = 0"
  shows "net_checksum p len (net_store16 (p + c) (net_checksum p len m) m) = 0"
proof -
  have "weighted_sum len p (net_store16 (p + c) (net_checksum p len m) m) =
      weighted_sum len p m + (65535 - fold_carries (weighted_sum len p m))"
    using weighted_sum_store [OF assms(2,3), of p "net_checksum p len m" m] assms(1,4) by (simp add: unat_net_checksum)
  then have "unat (net_checksum p len (net_store16 (p + c) (net_checksum p len m) m)) = 0"
    using assms(1) by (simp add: unat_net_checksum fold_carries_complement)
  then show ?thesis
    by (simp add: unat_eq_zero)
qed

lemma net_checksum_detects:
  assumes "len \<le> 65535" and "net_checksum p len m = 0" and "k < len" and "b \<noteq> m (p + k)"
  shows "net_checksum p len (m(p + k := b)) \<noteq> 0"
proof
  let ?a = "m (p + k)"
  assume "net_checksum p len (m(p + k := b)) = 0"
  then have "int 65535 dvd int (weighted_sum len p (m(p + k := b))) - int (weighted_sum len p m)"
    using assms(1,2) by (intro dvd_diff) (auto simp: net_checksum_zero int_dvd_int_iff)
  also have "int (weighted_sum len p (m(p + k := b))) - int (weighted_sum len p m) = int (weight k) * (int (unat b) - int (unat ?a))"
    using arg_cong [OF weighted_sum_upd [OF assms(3), of p m b], of int] by (simp add: algebra_simps)
  finally have dvd: "65535 dvd int (weight k) * (int (unat b) - int (unat ?a))"
    by simp
  have "\<bar>int (weight k) * (int (unat b) - int (unat ?a))\<bar> < 65535"
  proof -
    have "\<bar>int (weight k) * (int x - int y)\<bar> < 65535" if "x \<le> 255" "y \<le> 255" for x y
      using that by (auto simp: weight_def)
    then show ?thesis
      using unat_u8_le by blast
  qed
  with dvd have "int (weight k) * (int (unat b) - int (unat ?a)) = 0"
    using dvd_imp_le_int [OF _ dvd] by linarith
  then show False
    using assms(4) by (auto simp: weight_def word_uint_eq_iff split: if_splits)
qed

subsection \<open>IPv4 and ICMP\<close>

text \<open>
  The header before its checksum is stored, the stores of \<open>net_ipv4_build\<close> in order.
\<close>

definition plain_header :: "nat \<Rightarrow> nat \<Rightarrow> u16 \<Rightarrow> u8 \<Rightarrow> u8 \<Rightarrow> u32 \<Rightarrow> u32 \<Rightarrow> mem \<Rightarrow> mem" where
  "plain_header p tot ident ttl proto src dst m =
     net_store32 (p + 16) dst (net_store32 (p + 12) src
       ((net_store16 (p + 6) 0x4000 (net_store16 (p + 4) ident (net_store16 (p + 2) (word_of_nat tot)
         ((mem_fill p 20 0 m)(p := 0x45)))))(p + 8 := ttl, p + 9 := proto)))"

lemma net_ipv4_build_eq:
  assumes "p \<noteq> 0" and "ttl \<noteq> 0" and "20 + n \<le> 65535" and "20 + n \<le> capacity" and "n \<noteq> 0 \<longrightarrow> payload \<noteq> 0"
  shows "net_ipv4_build p capacity src dst proto ttl ident payload n m =
    (let h = plain_header p (20 + n) ident ttl proto src dst m in
     (int (20 + n), mem_copy_fwd (p + 20) payload n (net_store16 (p + 10) (net_checksum p 20 h) h)))"
  using assms by (auto simp: net_ipv4_build_def plain_header_def Let_def add32_def to_int_def)

lemmas header_stores = net_store16_def net_store32_def mem_fill_eq

lemma plain_header_outside: "x < p \<or> p + 20 \<le> x \<Longrightarrow> plain_header p tot ident ttl proto src dst m x = m x"
  by (auto simp: plain_header_def header_stores)

lemma plain_header_fields:
  fixes p tot ident ttl proto src dst m
  defines "h \<equiv> plain_header p tot ident ttl proto src dst m"
  shows "h p = 0x45" "h (p + 1) = 0" "net_load16 (p + 2) h = word_of_nat tot" "net_load16 (p + 4) h = ident"
    "net_load16 (p + 6) h = 0x4000" "h (p + 8) = ttl" "h (p + 9) = proto" "net_load16 (p + 10) h = 0"
    "net_load32 (p + 12) h = src" "net_load32 (p + 16) h = dst"
  using net16.load_store [of "p + 2" "word_of_nat tot" m] net16.load_store [of "p + 4" ident m]
    net32.load_store [of "p + 12" src m] net32.load_store [of "p + 16" dst m]
  by (simp_all add: h_def plain_header_def header_stores net_load16_def net_load32_def)

text \<open>A packet whose first bytes are a header with its checksum is accepted.\<close>

lemma net_ipv4_parse_header:
  fixes p tot ident ttl proto src dst m
  defines "h \<equiv> plain_header p tot ident ttl proto src dst m"
  assumes "p \<noteq> 0" and "20 \<le> tot" and "tot \<le> 65535" and "tot \<le> len"
    and bytes: "\<And>x. p \<le> x \<Longrightarrow> x < p + 20 \<Longrightarrow> m' x = net_store16 (p + 10) (net_checksum p 20 h) h x"
  shows "net_ipv4_parse p len (Some ip) m' = (0, Some \<lparr>header_size = 20, dscp_ecn = 0, total_size = word_of_nat tot,
    identification = ident, fragment = 0x4000, ip_ttl = ttl, protocol = proto, ip_source = src, ip_destination = dst,
    ip_payload = p + 20, ip_payload_size = tot - 20\<rparr>)"
proof -
  let ?h = "net_store16 (p + 10) (net_checksum p 20 h) h"
  note fields = plain_header_fields [of p tot ident ttl proto src dst m, folded h_def]
  have byte: "m' x = h x" if "p \<le> x" "x < p + 10 \<or> p + 12 \<le> x" "x < p + 20" for x
    using bytes [OF that(1,3)] that by (auto simp: net16.store_frame)
  have l16: "net_load16 (p + k) m' = net_load16 (p + k) h" if "k \<le> 8" for k
    using that by (intro net16.load_bytes) (auto intro!: byte)
  moreover have "net_load32 (p + k) m' = net_load32 (p + k) h" if "12 \<le> k" "k \<le> 16" for k
    using that by (intro net32.load_bytes) (auto intro!: byte)
  moreover have "net_checksum p 20 m' = 0"
  proof -
    have "weighted_sum 20 p m' = weighted_sum 20 p ?h"
      unfolding weighted_sum_def using bytes by (intro sum.cong) auto
    then show ?thesis
      using net_checksum_verifies [of 20 10 p h] fields by (simp add: net_checksum_sum)
  qed
  ultimately show ?thesis
    using assms(2-5) fields l16 [of 2] byte [of p] byte [of "p + 1"] byte [of "p + 8"] byte [of "p + 9"]
    by (simp add: net_ipv4_parse_def Let_def unat_of_nat)
qed

text \<open>
  C28. An IPv4 packet that \<open>net_ipv4_build\<close> writes is accepted by \<open>net_ipv4_parse\<close> (its checksum
  verifies) at every buffer size that holds it, and gives back the addresses, protocol, time to
  live and identification it was built with; the payload is the caller's bytes and nothing
  outside the packet is written.
\<close>

theorem net_ipv4_roundtrip:
  assumes "packet \<noteq> 0" and "ttl \<noteq> 0" and "20 + n \<le> 65535" and "20 + n \<le> capacity" and "n \<noteq> 0 \<longrightarrow> payload \<noteq> 0"
    and "packet + 20 \<le> payload \<or> payload + n \<le> packet" and "20 + n \<le> len"
    and "net_ipv4_build packet capacity src dst proto ttl ident payload n m = (r, m')"
  shows "r = int (20 + n) \<and>
    net_ipv4_parse packet len (Some ip) m' = (0, Some \<lparr>header_size = 20, dscp_ecn = 0, total_size = word_of_nat (20 + n),
      identification = ident, fragment = 0x4000, ip_ttl = ttl, protocol = proto, ip_source = src, ip_destination = dst,
      ip_payload = packet + 20, ip_payload_size = n\<rparr>) \<and>
    mem_get (packet + 20) n m' = mem_get payload n m \<and>
    (\<forall>x. x < packet \<or> packet + 20 + n \<le> x \<longrightarrow> m' x = m x)"
proof -
  define h where "h = plain_header packet (20 + n) ident ttl proto src dst m"
  let ?h = "net_store16 (packet + 10) (net_checksum packet 20 h) h"
  have r: "r = int (20 + n)" and m': "m' = mem_copy_fwd (packet + 20) payload n ?h"
    using net_ipv4_build_eq [OF assms(1-5), of src dst proto ident m] assms(8) by (simp_all add: h_def Let_def)
  have eq: "m' x = (if packet + 20 \<le> x \<and> x < packet + 20 + n then ?h (payload + (x - (packet + 20))) else ?h x)" for x
    using assms(6) by (subst m', subst copy_loop_eq) auto
  have out: "?h x = m x" if "x < packet \<or> packet + 20 \<le> x" for x
    using that by (subst net16.store_frame) (auto simp: h_def plain_header_outside)
  have "mem_get (packet + 20) n m' = mem_get payload n m"
    using assms(6) by (auto simp: mem_get_def eq intro!: out)
  moreover have "\<forall>x. x < packet \<or> packet + 20 + n \<le> x \<longrightarrow> m' x = m x"
    using out by (auto simp: eq)
  moreover note net_ipv4_parse_header [of packet "20 + n" len m' ident ttl proto src dst m ip, folded h_def]
  ultimately show ?thesis
    using r assms(1,3,7) eq by auto
qed

theorem net_ipv4_roundtrip_witness:
  "\<exists>m'. net_ipv4_build 4096 128 0xC0A8010A 0xC0A80101 17 64 7 8192 3 (\<lambda>_. 1) = (23, m') \<and>
     fst (net_ipv4_parse 4096 23 (Some undefined) m') = 0 \<and> mem_get 4116 3 m' = [1, 1, 1]"
proof -
  obtain r m' where b: "net_ipv4_build 4096 128 0xC0A8010A 0xC0A80101 17 64 7 8192 3 (\<lambda>_. 1) = (r, m')"
    by fastforce
  show ?thesis
    using net_ipv4_roundtrip [OF _ _ _ _ _ _ _ b, of 23 undefined] b by (auto simp: mem_get_def upt_rec)
qed

text \<open>
  C29. The header checksum protects every accepted packet: change any one byte of the header
  behind the version byte, and \<open>net_ipv4_parse\<close> refuses the packet and leaves the caller's
  structure as it was.
\<close>

theorem net_ipv4_parse_detects_corruption:
  assumes "net_ipv4_parse packet len (Some ip) m = (0, Some ip')" and "0 < k" and "k < header_size ip'"
    and "b \<noteq> m (packet + k)"
  shows "net_ipv4_parse packet len (Some ip) (m(packet + k := b)) = (- 1, Some ip)"
proof -
  have "header_size ip' = unat (m packet AND 0x0F) * 4" and "net_checksum packet (header_size ip') m = 0"
    using assms(1) by (auto simp: net_ipv4_parse_def Let_def split: if_splits)
  moreover have "header_size ip' \<le> 65535"
    using unat_u8_le [of "m packet AND 0x0F"] calculation(1) by simp
  ultimately have "net_checksum packet (unat (m packet AND 0x0F) * 4) (m(packet + k := b)) \<noteq> 0"
    using net_checksum_detects [of "header_size ip'" packet m k b] assms(3,4) by simp
  then show ?thesis
    using assms(2) by (simp add: net_ipv4_parse_def Let_def)
qed

theorem net_ipv4_parse_detects_corruption_witness:
  "\<exists>m. fst (net_ipv4_parse 4096 20 (Some undefined) m) = 0 \<and>
     net_ipv4_parse 4096 20 (Some undefined) (m(4096 + 8 := 65)) = (- 1, Some undefined)"
proof -
  define h where "h = plain_header 4096 20 7 64 17 0xC0A8010A 0xC0A80101 (\<lambda>_. 1)"
  define m where "m = net_store16 (4096 + 10) (net_checksum 4096 20 h) h"
  note parsed = net_ipv4_parse_header [where p = 4096 and tot = 20 and len = 20 and m' = m and ident = 7 and ttl = 64 and
    proto = 17 and src = "0xC0A8010A" and dst = "0xC0A80101" and m = "\<lambda>_. 1" and ip = undefined, folded h_def,
    OF _ _ _ _ m_def [THEN fun_cong]]
  have "m (4096 + 8) = 64"
    using plain_header_fields(6) [of 4096 20 7 64 17 "0xC0A8010A" "0xC0A80101" "\<lambda>_. 1", folded h_def]
    by (simp add: m_def net_store16_def)
  then show ?thesis
    using net_ipv4_parse_detects_corruption [of 4096 20 undefined m _ 8 65] parsed by force
qed

text \<open>
  \<open>net_icmp_echo_reply\<close> answers exactly the echo requests whose checksum verifies: the reply
  has type 0 and a checksum that verifies again, and only the type and checksum bytes change.
  Every other packet is refused and left as it is.
\<close>

theorem net_icmp_echo_reply_valid:
  assumes "len \<le> 65535" and "net_icmp_echo_reply packet len m = (r, m')"
  shows "if packet \<noteq> 0 \<and> 8 \<le> len \<and> m packet = 8 \<and> m (packet + 1) = 0 \<and> net_checksum packet len m = 0
    then r = 0 \<and> m' packet = 0 \<and> net_checksum packet len m' = 0 \<and>
      (\<forall>x. x \<noteq> packet \<and> x \<noteq> packet + 2 \<and> x \<noteq> packet + 3 \<longrightarrow> m' x = m x)
    else r = - 1 \<and> m' = m"
proof (cases "packet \<noteq> 0 \<and> 8 \<le> len \<and> m packet = 8 \<and> m (packet + 1) = 0 \<and> net_checksum packet len m = 0")
  case True
  let ?z = "m(packet := 0, packet + 2 := 0, packet + 3 := 0)"
  have m': "m' = net_store16 (packet + 2) (net_checksum packet len ?z) ?z" and r: "r = 0"
    using assms(2) True by (auto simp: net_icmp_echo_reply_def Let_def)
  have "net_load16 (packet + 2) ?z = 0"
    by (simp add: net_load16_def)
  then have "net_checksum packet len m' = 0"
    unfolding m' using True assms(1) by (intro net_checksum_verifies) auto
  moreover have "m' packet = 0" "\<forall>x. x \<noteq> packet \<and> x \<noteq> packet + 2 \<and> x \<noteq> packet + 3 \<longrightarrow> m' x = m x"
    by (auto simp: m' net_store16_def)
  ultimately show ?thesis
    using True r by simp
next
  case False
  then show ?thesis
    using assms(2) by (auto simp: net_icmp_echo_reply_def)
qed

text \<open>
  C39. The size check of \<open>net_ethernet_build\<close> is made on a sum that wraps at 32 bits: a payload of
  \<open>2^32 - 14\<close> bytes passes it with a buffer of size 0, and the call returns 0 after it has written
  the header and the whole payload behind it.
\<close>

theorem net_ethernet_build_size_wraps:
  assumes "packet \<noteq> 0" and "packet + 14 \<le> payload" and "length destination = 6" and "length source = 6"
    and "net_ethernet_build packet 0 (Some destination) (Some source) type payload (2 ^ 32 - 14) m = (r, m')"
  shows "r = 0 \<and> mem_get packet 6 m' = destination \<and> (\<forall>k < 2 ^ 32 - 14. m' (packet + 14 + k) = m (payload + k))"
proof -
  let ?h = "net_store16 (packet + 12) type (mem_put (packet + 6) source (mem_put packet destination m))"
  have "add32 14 (2 ^ 32 - 14) = 0"
    by (simp add: add32_def)
  then have r: "r = 0" and m': "m' = mem_copy_fwd (packet + 14) payload (2 ^ 32 - 14) ?h"
    using assms(1,2,5) by (simp_all add: net_ethernet_build_def Let_def to_int_def)
  have eq: "m' x = (if packet + 14 \<le> x \<and> x < packet + 14 + (2 ^ 32 - 14) then ?h (payload + (x - (packet + 14))) else ?h x)" for x
    using assms(2) by (subst m', subst copy_loop_eq) auto
  have "?h x = (if packet \<le> x \<and> x < packet + 6 then destination ! (x - packet) else m x)" if "x < packet + 6 \<or> packet + 14 \<le> x" for x
    using that assms(3,4) by (auto simp: net_store16_def mem_put_eq)
  with r assms(2,3) show ?thesis
    by (auto simp: eq mem_get_def intro!: nth_equalityI)
qed

theorem net_ethernet_build_size_wraps_witness:
  "fst (net_ethernet_build 4096 0 (Some (self_test_mac 1)) (Some (self_test_mac 2)) 0x0800 8192 (2 ^ 32 - 14) (\<lambda>_. 1)) = 0"
proof -
  obtain r m' where b: "net_ethernet_build 4096 0 (Some (self_test_mac 1)) (Some (self_test_mac 2)) 0x0800 8192 (2 ^ 32 - 14)
      (\<lambda>_. 1) = (r, m')"
    by fastforce
  then show ?thesis
    using net_ethernet_build_size_wraps [OF _ _ _ _ b] unfolding self_test_mac_def by simp
qed

end
