(* ===== verification/Net_Tables.thy ===== *)
theory Net_Tables
  imports Net Machine Best "HOL-Library.Product_Lexorder"
begin

section \<open>The address cache and the routing table\<close>

text \<open>
  The two tables of \<open>net/net.c\<close>: the route lookup finds the longest matching prefix, the
  cache of hardware addresses implements a finite map with expiry times, and both tables stay
  well formed under every sequence of calls.
\<close>

subsection \<open>Route lookup\<close>

definition prefix_length :: "u32 \<Rightarrow> nat" where
  "prefix_length v = card {n. bit v n}"

lemma finite_bits: "finite {n. bit (v :: u32) n}"
  by (rule finite_subset [of _ "{..<32}"]) (auto dest: bit_imp_le_length)

lemma mask_bits_loop_card: "mask_bits_loop v count = count + prefix_length v"
proof (induction v count rule: mask_bits_loop.induct)
  case (1 v count)
  show ?case
  proof (cases "v = 0")
    case False
    have "{n. bit v n} = {n. n = 0 \<and> odd v} \<union> Suc ` {n. bit (drop_bit 1 v) n}"
      by (auto simp: bit_drop_bit_eq bit_0 image_iff elim!: not0_implies_Suc [THEN exE, rotated])
        (metis bit_0 not0_implies_Suc)+
    moreover have "{n. n = 0 \<and> odd v} \<inter> Suc ` {n. bit (drop_bit 1 v) n} = {}"
      by auto
    ultimately have "prefix_length v = card {n :: nat. n = 0 \<and> odd v} + prefix_length (drop_bit 1 v)"
      unfolding prefix_length_def by (simp add: card_Un_disjoint finite_bits card_image)
    moreover have "card {n :: nat. n = 0 \<and> odd v} = unat (v AND 1)"
      by (cases "odd v") (simp_all add: and_one_eq odd_iff_mod_2_eq_one even_iff_mod_2_eq_zero)
    ultimately show ?thesis
      using 1 [OF False] False by (simp add: mask_bits_loop.simps [of v])
  qed (simp add: mask_bits_loop.simps prefix_length_def)
qed

lemma mask_bits_card: "mask_bits v = prefix_length v"
  by (simp add: mask_bits_def mask_bits_loop_card)

definition route_matches :: "u32 \<Rightarrow> net_route_t \<Rightarrow> bool" where
  "route_matches destination r \<longleftrightarrow> route_valid r \<noteq> 0 \<and> destination AND netmask r = network r"

text \<open>The order in which routes are preferred: longer prefixes first, then smaller metrics.\<close>

definition route_key :: "net_route_t \<Rightarrow> int \<times> int" where
  "route_key r = (int (prefix_length (netmask r)), - int (metric r))"

definition best_pair :: "net_route_t list \<Rightarrow> nat option \<Rightarrow> nat \<times> nat" where
  "best_pair rs acc = (case acc of None \<Rightarrow> (16, 0) | Some i \<Rightarrow> (i, prefix_length (netmask (rs ! i))))"

lemma fold_route_step:
  assumes "\<forall>i \<in> set xs. i < 16" and "case acc of None \<Rightarrow> True | Some i \<Rightarrow> i < 16"
  shows "fold (route_step destination rs) xs (best_pair rs acc) =
    best_pair rs (best_of (\<lambda>i. route_matches destination (rs ! i)) (\<lambda>i. route_key (rs ! i)) xs acc)"
  using assms
proof (induction xs arbitrary: acc)
  case (Cons i xs)
  let ?acc = "if route_matches destination (rs ! i) \<and> (case acc of None \<Rightarrow> True | Some j \<Rightarrow> route_key (rs ! j) < route_key (rs ! i))
    then Some i else acc"
  have "route_step destination rs i (best_pair rs acc) = best_pair rs ?acc"
    using Cons.prems by (cases acc) (auto simp: route_step_def best_pair_def route_matches_def route_key_def mask_bits_card Let_def)
  moreover have "case ?acc of None \<Rightarrow> True | Some i \<Rightarrow> i < 16"
    using Cons.prems by auto
  ultimately show ?case
    using Cons.IH [of ?acc] Cons.prems(1) by simp
qed simp

lemma best_of_upt:
  assumes "best_of P key [0..<n] None = Some i"
  shows "i < n \<and> P i \<and> (\<forall>j < n. P j \<longrightarrow> key j < key i \<or> key j = key i \<and> i \<le> j)"
proof -
  obtain us vs where eq: "[0..<n] = us @ i # vs" and P: "P i" and us: "\<forall>x \<in> set us. P x \<longrightarrow> key x < key i"
    and vs: "\<forall>x \<in> set vs. P x \<longrightarrow> key x \<le> key i"
    using best_of_first [OF assms] by blast
  have vs': "i < v" if "v \<in> set vs" for v
    using that sorted_wrt_upt [of 0 n] by (simp add: eq sorted_wrt_append)
  have split: "j < n \<longleftrightarrow> j \<in> set us \<or> j = i \<or> j \<in> set vs" for j
  proof -
    have "j < n \<longleftrightarrow> j \<in> set [0..<n]"
      by simp
    then show ?thesis
      unfolding eq by auto
  qed
  have "key j < key i \<or> key j = key i \<and> i \<le> j" if "j < n" "P j" for j
    using that(1) [unfolded split]
  proof (elim disjE)
    assume "j \<in> set vs"
    then show ?thesis
      using vs vs' [of j] that(2) by (auto simp: order_less_le)
  qed (use us that(2) in auto)
  then show ?thesis
    using P split by blast
qed

text \<open>
  C27. \<open>net_route_lookup\<close> does longest-prefix routing: it fails exactly when no valid route
  matches the destination, and otherwise copies out a matching route with the most mask bits,
  among those one with the smallest metric, and among those the first one in the table.
\<close>

theorem net_route_lookup_longest_prefix:
  "if \<exists>i < 16. route_matches destination (routes s ! i)
   then \<exists>i < 16. net_route_lookup destination (Some old) s = (0, Some (routes s ! i)) \<and> route_matches destination (routes s ! i) \<and>
     (\<forall>j < 16. route_matches destination (routes s ! j) \<longrightarrow>
       prefix_length (netmask (routes s ! j)) < prefix_length (netmask (routes s ! i)) \<or>
       prefix_length (netmask (routes s ! j)) = prefix_length (netmask (routes s ! i)) \<and>
         (metric (routes s ! i) < metric (routes s ! j) \<or> metric (routes s ! i) = metric (routes s ! j) \<and> i \<le> j))
   else net_route_lookup destination (Some old) s = (- 1, Some old)"
proof -
  let ?P = "\<lambda>i. route_matches destination (routes s ! i)"
  let ?best = "best_of ?P (\<lambda>i. route_key (routes s ! i)) [0..<16] None"
  have "fold (route_step destination (routes s)) [0..<16] (16, 0) = best_pair (routes s) ?best"
    using fold_route_step [of "[0..<16]" None destination "routes s"] by (simp add: best_pair_def)
  then have lookup: "net_route_lookup destination (Some old) s =
      (let (best, best_bits) = best_pair (routes s) ?best in if best = 16 then (- 1, Some old) else (0, Some (routes s ! best)))"
    by (simp add: net_route_lookup_def)
  show ?thesis
  proof (cases ?best)
    case None
    then have "\<not> (\<exists>i < 16. ?P i)"
      by (simp add: best_of_None)
    then show ?thesis
      using lookup None by (simp add: best_pair_def)
  next
    case (Some i)
    from best_of_upt [OF Some] show ?thesis
      using lookup Some by (fastforce simp: best_pair_def route_key_def)
  qed
qed

text \<open>A table whose only valid entry is a default route.\<close>

definition default_route :: net_route_t where
  "default_route = \<lparr>route_valid = 1, network = 0, netmask = 0, gateway = 0xC0A80101, metric = 100, interface_id = 1\<rparr>"

definition one_route :: net_state where
  "one_route = \<lparr>arp_cache = [], routes = default_route # replicate 15 (default_route\<lparr>route_valid := 0\<rparr>)\<rparr>"

theorem net_route_lookup_longest_prefix_witness:
  "net_route_lookup 0x08080808 (Some default_route) one_route = (0, Some default_route)"
proof -
  have "route_matches 0x08080808 (routes one_route ! i) \<longleftrightarrow> i = 0" if "i < 16" for i
    using that by (cases i) (auto simp: one_route_def route_matches_def default_route_def)
  then obtain i where "i < 16" "i = 0" "net_route_lookup 0x08080808 (Some default_route) one_route = (0, Some (routes one_route ! i))"
    using net_route_lookup_longest_prefix [of "0x08080808" one_route default_route]
    by (metis zero_less_numeral)
  then show ?thesis
    by (simp add: one_route_def)
qed

subsection \<open>The cache as a map\<close>

definition arp_holds :: "u32 \<Rightarrow> net_arp_entry_t \<Rightarrow> bool" where
  "arp_holds a = (\<lambda>e. arp_valid e \<noteq> 0 \<and> arp_address e = a)"

definition arp_unique :: "net_arp_entry_t list \<Rightarrow> bool" where
  "arp_unique es \<longleftrightarrow> (\<forall>a. \<forall>i < length es. \<forall>j < length es. arp_holds a (es ! i) \<and> arp_holds a (es ! j) \<longrightarrow> i = j)"

definition arp_binding :: "net_arp_entry_t \<Rightarrow> net_mac_t \<times> nat" where
  "arp_binding e = (arp_mac e, expires_at e)"

text \<open>The hardware address and expiry time the cache has for an address.\<close>

definition arp_map :: "net_arp_entry_t list \<Rightarrow> u32 \<Rightarrow> (net_mac_t \<times> nat) option" where
  "arp_map es a = map_option (\<lambda>i. arp_binding (es ! i)) (scan_from (arp_holds a) 0 es)"

lemma arp_uniqueD:
  "arp_unique es \<Longrightarrow> i < length es \<Longrightarrow> j < length es \<Longrightarrow> arp_holds a (es ! i) \<Longrightarrow> arp_holds a (es ! j) \<Longrightarrow> i = j"
  by (auto simp: arp_unique_def)

lemma arp_scan:
  assumes "arp_unique es" and "i < length es" and "arp_holds a (es ! i)"
  shows "scan_from (arp_holds a) 0 es = Some i"
proof -
  have "\<not> arp_holds a (es ! j)" if "j < i" for j
    using arp_uniqueD [OF assms(1), of j i a] that assms(2,3) by auto
  then show ?thesis
    using assms(2,3) by (simp add: scan_from_Some)
qed

lemma arp_map_iff:
  assumes "arp_unique es"
  shows "arp_map es a = Some v \<longleftrightarrow> (\<exists>i < length es. arp_holds a (es ! i) \<and> v = arp_binding (es ! i))"
proof
  assume "arp_map es a = Some v"
  then show "\<exists>i < length es. arp_holds a (es ! i) \<and> v = arp_binding (es ! i)"
    by (auto simp: arp_map_def scan_from_Some)
next
  assume "\<exists>i < length es. arp_holds a (es ! i) \<and> v = arp_binding (es ! i)"
  then show "arp_map es a = Some v"
    using arp_scan [OF assms] by (auto simp: arp_map_def)
qed

lemma arp_map_eqI:
  assumes "arp_unique es" and "\<And>v. (\<exists>i < length es. arp_holds a (es ! i) \<and> v = arp_binding (es ! i)) \<longleftrightarrow> x = Some v"
  shows "arp_map es a = x"
proof -
  have "arp_map es a = Some v \<longleftrightarrow> x = Some v" for v
    using assms by (simp add: arp_map_iff)
  then show ?thesis
    by (cases x; cases "arp_map es a") auto
qed

text \<open>Overwriting a slot drops the binding it held and adds the new one.\<close>

lemma arp_unique_update:
  assumes "arp_unique es" and "\<And>i a. i < length es \<Longrightarrow> i \<noteq> k \<Longrightarrow> arp_holds a e \<Longrightarrow> \<not> arp_holds a (es ! i)"
  shows "arp_unique (es[k := e])"
  unfolding arp_unique_def length_list_update
proof (intro allI impI, elim conjE)
  fix a i j
  assume "i < length es" "j < length es" "arp_holds a (es[k := e] ! i)" "arp_holds a (es[k := e] ! j)"
  then show "i = j"
    using assms(2) arp_uniqueD [OF assms(1), of i j a] by (cases "i = k"; cases "j = k") auto
qed

lemma arp_map_update:
  assumes "arp_unique es" and "k < length es" and "\<And>i a. i < length es \<Longrightarrow> i \<noteq> k \<Longrightarrow> arp_holds a e \<Longrightarrow> \<not> arp_holds a (es ! i)"
  shows "arp_map (es[k := e]) a =
    (if arp_holds a e then Some (arp_binding e) else if arp_holds a (es ! k) then None else arp_map es a)"
proof (rule arp_map_eqI)
  show "arp_unique (es[k := e])"
    using assms(1,3) by (rule arp_unique_update)
  fix v
  have "(\<exists>i < length (es[k := e]). arp_holds a (es[k := e] ! i) \<and> v = arp_binding (es[k := e] ! i)) \<longleftrightarrow>
      arp_holds a e \<and> v = arp_binding e \<or> (\<exists>i < length es. i \<noteq> k \<and> arp_holds a (es ! i) \<and> v = arp_binding (es ! i))"
    using assms(2) by (metis length_list_update nth_list_update_eq nth_list_update_neq)
  also have "\<dots> \<longleftrightarrow> (if arp_holds a e then Some (arp_binding e) else if arp_holds a (es ! k) then None else arp_map es a) = Some v"
    using assms(2,3) arp_uniqueD [OF assms(1) assms(2), of _ a] by (auto simp: arp_map_iff [OF assms(1)])
  finally show "(\<exists>i < length (es[k := e]). arp_holds a (es[k := e] ! i) \<and> v = arp_binding (es[k := e] ! i)) \<longleftrightarrow>
      (if arp_holds a e then Some (arp_binding e) else if arp_holds a (es ! k) then None else arp_map es a) = Some v" .
qed

text \<open>The slot an update uses: the one that holds the address, else the first free one.\<close>

lemma arp_slot_loop_eq:
  assumes "index + length es \<le> 32"
  shows "arp_slot_loop address index slot es =
    (case scan_from (arp_holds address) index es of Some k \<Rightarrow> k
     | None \<Rightarrow> if slot = 32 then case scan_from (\<lambda>e. arp_valid e = 0) index es of Some k \<Rightarrow> k | None \<Rightarrow> 32 else slot)"
  using assms
proof (induction es arbitrary: index slot)
  case (Cons e es)
  then show ?case
    by (auto simp: arp_holds_def split: option.splits)
qed simp

definition arp_full :: "net_arp_entry_t list \<Rightarrow> bool" where
  "arp_full es \<longleftrightarrow> (\<forall>e \<in> set es. arp_valid e \<noteq> 0)"

lemma arp_slot_props:
  assumes "length es = 32" and "arp_unique es"
    and "slot = (if arp_slot_loop address 0 32 es = 32 then unat address mod 32 else arp_slot_loop address 0 32 es)"
  shows "slot < 32 \<and> (\<forall>i < 32. i \<noteq> slot \<longrightarrow> \<not> arp_holds address (es ! i)) \<and>
    (if arp_map es address = None \<and> arp_full es then slot = unat address mod 32
     else \<forall>a. arp_holds a (es ! slot) \<longrightarrow> a = address)"
proof (cases "scan_from (arp_holds address) 0 es")
  case None
  then have none: "\<not> arp_holds address (es ! i)" if "i < 32" for i
    using that assms(1) by (simp add: scan_from_None)
  show ?thesis
  proof (cases "scan_from (\<lambda>e. arp_valid e = 0) 0 es")
    case free: None
    then have "arp_full es"
      by (simp add: scan_from_None arp_full_def)
    moreover have "slot = unat address mod 32"
      using assms(1,3) None free by (simp add: arp_slot_loop_eq)
    ultimately show ?thesis
      using none None by (simp add: arp_map_def)
  next
    case (Some k)
    then have k: "k < 32" "arp_valid (es ! k) = 0"
      using assms(1) by (auto simp: scan_from_Some)
    then have "\<not> arp_full es"
      using assms(1) by (auto simp: arp_full_def)
    moreover have "slot = k"
      using assms(1,3) None Some k by (simp add: arp_slot_loop_eq)
    ultimately show ?thesis
      using none k by (simp add: arp_holds_def)
  qed
next
  case (Some k)
  then have k: "k < 32" "arp_holds address (es ! k)"
    using assms(1) by (auto simp: scan_from_Some)
  then have "\<not> arp_holds address (es ! i)" if "i < 32" "i \<noteq> k" for i
    using arp_uniqueD [OF assms(2), of i k address] that assms(1) by auto
  moreover have "slot = k"
    using assms(1,3) Some k by (simp add: arp_slot_loop_eq)
  moreover have "arp_map es address \<noteq> None"
    using Some by (simp add: arp_map_def)
  ultimately show ?thesis
    using k by (auto simp: arp_holds_def)
qed

lemma arp_update_ok:
  assumes "length (arp_cache s) = 32" and "arp_unique (arp_cache s)" and "address \<noteq> 0" and "expires \<noteq> 0"
    and "net_arp_cache_update address (Some mac) expires s = (r, s')"
  shows "r = 0 \<and> arp_unique (arp_cache s') \<and> routes s' = routes s \<and>
    (\<exists>slot < 32. arp_cache s' =
      (arp_cache s)[slot := \<lparr>arp_valid = 1, arp_address = address, arp_mac = mac, expires_at = expires\<rparr>]) \<and>
    arp_map (arp_cache s') = (if arp_map (arp_cache s) address = None \<and> arp_full (arp_cache s)
      then (arp_map (arp_cache s))(arp_address (arp_cache s ! (unat address mod 32)) := None)
      else arp_map (arp_cache s))(address \<mapsto> (mac, expires))"
proof -
  let ?es = "arp_cache s" and ?e = "\<lparr>arp_valid = 1, arp_address = address, arp_mac = mac, expires_at = expires\<rparr>"
  define slot where
    "slot = (if arp_slot_loop address 0 32 ?es = 32 then unat address mod 32 else arp_slot_loop address 0 32 ?es)"
  have s': "s' = s\<lparr>arp_cache := ?es[slot := ?e]\<rparr>" and r: "r = 0"
    using assms(3-5) by (simp_all add: net_arp_cache_update_def Let_def slot_def)
  note slot = arp_slot_props [OF assms(1,2) slot_def]
  have other: "\<not> arp_holds a (?es ! i)" if "i < length ?es" "i \<noteq> slot" "arp_holds a ?e" for i a
    using slot that assms(1) by (auto simp: arp_holds_def)
  have e: "arp_holds a ?e \<longleftrightarrow> a = address" for a
    by (auto simp: arp_holds_def)
  have "slot < length ?es"
    using slot assms(1) by simp
  from assms(2) this other have "arp_map (?es[slot := ?e]) a =
      (if arp_holds a ?e then Some (arp_binding ?e) else if arp_holds a (?es ! slot) then None else arp_map ?es a)" for a
    by (rule arp_map_update)
  then have "arp_map (?es[slot := ?e]) a =
      (if a = address then Some (mac, expires) else if arp_holds a (?es ! slot) then None else arp_map ?es a)" for a
    unfolding e by (simp add: arp_binding_def)
  moreover have "arp_holds a (?es ! slot) \<longleftrightarrow> a = arp_address (?es ! slot)" if "arp_full ?es" for a
    using that slot assms(1) by (auto simp: arp_holds_def arp_full_def)
  ultimately have "arp_map (?es[slot := ?e]) = (if arp_map ?es address = None \<and> arp_full ?es
      then (arp_map ?es)(arp_address (?es ! (unat address mod 32)) := None) else arp_map ?es)(address \<mapsto> (mac, expires))"
    using slot by (auto simp: fun_eq_iff)
  moreover have "arp_unique (?es[slot := ?e])"
    using assms(2) other by (rule arp_unique_update)
  ultimately show ?thesis
    using r slot by (auto simp: s')
qed

text \<open>Marking entries invalid removes their bindings.\<close>

definition arp_drop :: "(net_arp_entry_t \<Rightarrow> bool) \<Rightarrow> net_arp_entry_t \<Rightarrow> net_arp_entry_t" where
  "arp_drop P e = (if P e then e\<lparr>arp_valid := 0\<rparr> else e)"

lemma arp_drop_holds [simp]: "arp_holds a (arp_drop P e) \<longleftrightarrow> arp_holds a e \<and> \<not> P e"
  by (simp add: arp_drop_def arp_holds_def)

lemma arp_unique_drop: "arp_unique es \<Longrightarrow> arp_unique (map (arp_drop P) es)"
  by (simp add: arp_unique_def) blast

lemma arp_map_drop:
  assumes "arp_unique es" and "\<And>e. arp_valid e \<noteq> 0 \<Longrightarrow> P e \<longleftrightarrow> Q (arp_binding e)"
  shows "arp_map (map (arp_drop P) es) a = (case arp_map es a of None \<Rightarrow> None | Some b \<Rightarrow> if Q b then None else Some b)"
proof (rule arp_map_eqI)
  show "arp_unique (map (arp_drop P) es)"
    using assms(1) by (rule arp_unique_drop)
  fix v
  have "(\<exists>i < length es. arp_holds a (es ! i) \<and> \<not> P (es ! i) \<and> v = arp_binding (es ! i)) \<longleftrightarrow> arp_map es a = Some v \<and> \<not> Q v"
    using assms(2) by (auto simp: arp_map_iff [OF assms(1)] arp_holds_def)
  moreover have "arp_holds a (es ! i) \<and> \<not> P (es ! i) \<Longrightarrow> arp_binding (arp_drop P (es ! i)) = arp_binding (es ! i)" for i
    by (simp add: arp_drop_def)
  ultimately show "(\<exists>i < length (map (arp_drop P) es). arp_holds a (map (arp_drop P) es ! i) \<and> v = arp_binding (map (arp_drop P) es ! i)) \<longleftrightarrow>
      (case arp_map es a of None \<Rightarrow> None | Some b \<Rightarrow> if Q b then None else Some b) = Some v"
    by (auto split: option.splits)
qed

lemma net_arp_cache_drop:
  "arp_cache (net_arp_cache_expire now s) = map (arp_drop (\<lambda>e. arp_valid e \<noteq> 0 \<and> expires_at e \<le> now)) (arp_cache s)"
  "arp_cache (net_arp_cache_init s) = map (arp_drop (\<lambda>e. True)) (arp_cache s)"
  by (simp_all add: net_arp_cache_expire_def net_arp_cache_init_def arp_drop_def)

text \<open>A lookup leaves the cache alone or drops the expired entry of its address.\<close>

lemma arp_lookup_ok:
  assumes "arp_unique (arp_cache s)" and "net_arp_cache_lookup address now (Some old) s = (r, out, s')"
  shows "case arp_map (arp_cache s) address of
      None \<Rightarrow> r = - 1 \<and> out = Some old \<and> s' = s
    | Some (mac, expires) \<Rightarrow>
        if now < expires then r = 0 \<and> out = Some mac \<and> s' = s
        else r = - 1 \<and> out = Some old \<and> arp_map (arp_cache s') = (arp_map (arp_cache s))(address := None)"
proof (cases "scan_from (arp_holds address) 0 (arp_cache s)")
  case None
  then show ?thesis
    using assms(2) by (simp add: net_arp_cache_lookup_def arp_map_def arp_holds_def)
next
  case (Some k)
  let ?e = "arp_cache s ! k" and ?d = "(arp_cache s ! k)\<lparr>arp_valid := 0\<rparr>"
  have k: "k < length (arp_cache s)" "arp_holds address ?e"
    using Some by (auto simp: scan_from_Some)
  have map: "arp_map (arp_cache s) address = Some (arp_mac ?e, expires_at ?e)"
    using Some by (simp add: arp_map_def arp_binding_def)
  have no: "\<not> arp_holds a ?d" for a
    by (simp add: arp_holds_def)
  have "arp_map ((arp_cache s)[k := ?d]) a = (if arp_holds a ?d then Some (arp_binding ?d)
      else if arp_holds a ?e then None else arp_map (arp_cache s) a)" for a
    using assms(1) k(1) no by (intro arp_map_update) auto
  then have "arp_map ((arp_cache s)[k := ?d]) = (arp_map (arp_cache s))(address := None)"
    using k(2) by (auto simp: fun_eq_iff arp_holds_def)
  then show ?thesis
    using assms(2) Some map by (auto simp: net_arp_cache_lookup_def arp_holds_def Let_def split: if_splits)
qed

text \<open>
  C26. The cache of hardware addresses implements a finite map from addresses to a hardware
  address with an expiry time. An update binds its address and keeps every other binding,
  unless the address is new and all 32 entries are in use: then the binding in slot
  \<open>address mod 32\<close> makes room. A lookup returns the binding while it has not expired and
  drops it once it has; \<open>net_arp_cache_expire\<close> drops exactly the expired bindings.
\<close>

theorem arp_cache_refines_map:
  assumes "length (arp_cache s) = 32" and "arp_unique (arp_cache s)"
  shows "(address \<noteq> 0 \<and> expires \<noteq> 0 \<longrightarrow>
      (case net_arp_cache_update address (Some mac) expires s of (r, s') \<Rightarrow> r = 0 \<and>
        arp_map (arp_cache s') = (if arp_map (arp_cache s) address = None \<and> arp_full (arp_cache s)
          then (arp_map (arp_cache s))(arp_address (arp_cache s ! (unat address mod 32)) := None)
          else arp_map (arp_cache s))(address \<mapsto> (mac, expires)))) \<and>
    (case net_arp_cache_lookup address now (Some old) s of (r, out, s') \<Rightarrow>
      (case arp_map (arp_cache s) address of
         None \<Rightarrow> r = - 1 \<and> out = Some old \<and> s' = s
       | Some (mac, expires) \<Rightarrow>
           if now < expires then r = 0 \<and> out = Some mac \<and> s' = s
           else r = - 1 \<and> out = Some old \<and> arp_map (arp_cache s') = (arp_map (arp_cache s))(address := None))) \<and>
    arp_map (arp_cache (net_arp_cache_expire now s)) a =
      (case arp_map (arp_cache s) a of None \<Rightarrow> None | Some b \<Rightarrow> if snd b \<le> now then None else Some b)"
proof (intro conjI impI)
  show "case net_arp_cache_update address (Some mac) expires s of (r, s') \<Rightarrow> r = 0 \<and>
      arp_map (arp_cache s') = (if arp_map (arp_cache s) address = None \<and> arp_full (arp_cache s)
        then (arp_map (arp_cache s))(arp_address (arp_cache s ! (unat address mod 32)) := None)
        else arp_map (arp_cache s))(address \<mapsto> (mac, expires))" if "address \<noteq> 0 \<and> expires \<noteq> 0"
    using arp_update_ok [OF assms, of address expires mac] that
    by (cases "net_arp_cache_update address (Some mac) expires s") blast
  show "case net_arp_cache_lookup address now (Some old) s of (r, out, s') \<Rightarrow>
      (case arp_map (arp_cache s) address of
         None \<Rightarrow> r = - 1 \<and> out = Some old \<and> s' = s
       | Some (mac, expires) \<Rightarrow>
           if now < expires then r = 0 \<and> out = Some mac \<and> s' = s
           else r = - 1 \<and> out = Some old \<and> arp_map (arp_cache s') = (arp_map (arp_cache s))(address := None))"
    using arp_lookup_ok [OF assms(2), of address now old]
    by (cases "net_arp_cache_lookup address now (Some old) s") blast
  show "arp_map (arp_cache (net_arp_cache_expire now s)) a =
      (case arp_map (arp_cache s) a of None \<Rightarrow> None | Some b \<Rightarrow> if snd b \<le> now then None else Some b)"
    unfolding net_arp_cache_drop using assms(2) by (intro arp_map_drop) (simp_all add: arp_binding_def)
qed

subsection \<open>Well-formed tables\<close>

definition tables_ok :: "net_state \<Rightarrow> bool" where
  "tables_ok s \<longleftrightarrow>
     length (arp_cache s) = 32 \<and> arp_unique (arp_cache s) \<and>
     (\<forall>e \<in> set (arp_cache s). arp_valid e \<noteq> 0 \<longrightarrow> arp_address e \<noteq> 0 \<and> expires_at e \<noteq> 0) \<and>
     length (routes s) = 16 \<and> (\<forall>r \<in> set (routes s). route_valid r \<noteq> 0 \<longrightarrow> network r AND NOT (netmask r) = 0)"

text \<open>The zeroed tables at boot, and the calls that change them.\<close>

definition net_boot :: net_state where
  "net_boot = \<lparr>arp_cache = replicate 32 \<lparr>arp_valid = 0, arp_address = 0, arp_mac = replicate 6 0, expires_at = 0\<rparr>,
     routes = replicate 16 \<lparr>route_valid = 0, network = 0, netmask = 0, gateway = 0, metric = 0, interface_id = 0\<rparr>\<rparr>"

inductive net_step :: "net_state \<Rightarrow> net_state \<Rightarrow> bool" where
  arp_init: "net_step s (net_arp_cache_init s)"
| arp_expire: "net_step s (net_arp_cache_expire now s)"
| arp_update: "net_arp_cache_update address mac expires s = (r, t) \<Longrightarrow> net_step s t"
| arp_lookup: "net_arp_cache_lookup address now out s = (r, out', t) \<Longrightarrow> net_step s t"
| route_init: "net_step s (net_route_init s)"
| route_add: "net_route_add net nmask gw met ifc s = (r, t) \<Longrightarrow> net_step s t"

lemma tables_ok_drop:
  assumes "tables_ok s"
  shows "tables_ok (s\<lparr>arp_cache := map (arp_drop P) (arp_cache s)\<rparr>)"
  using assms by (auto simp: tables_ok_def arp_unique_drop arp_drop_def)

lemma tables_ok_update:
  assumes "tables_ok s" and "net_arp_cache_update address mac expires s = (r, t)"
  shows "tables_ok t"
proof (cases "address = 0 \<or> mac = None \<or> expires = 0")
  case True
  then show ?thesis
    using assms by (auto simp: net_arp_cache_update_def)
next
  case False
  then obtain v where v: "mac = Some v"
    by auto
  have "arp_unique (arp_cache t)" "routes t = routes s" and
    "\<exists>slot < 32. arp_cache t = (arp_cache s)[slot := \<lparr>arp_valid = 1, arp_address = address, arp_mac = v, expires_at = expires\<rparr>]"
    using arp_update_ok [of s address expires v r t] assms False v by (auto simp: tables_ok_def)
  then show ?thesis
    using assms(1) False by (auto simp: tables_ok_def dest!: subsetD [OF set_update_subset_insert])
qed

lemma tables_ok_lookup:
  assumes "tables_ok s" and "net_arp_cache_lookup address now out s = (r, out', t)"
  shows "tables_ok t"
proof -
  consider "t = s" | k where "t = s\<lparr>arp_cache := (arp_cache s)[k := (arp_cache s ! k)\<lparr>arp_valid := 0\<rparr>]\<rparr>"
    using assms(2) by (auto simp: net_arp_cache_lookup_def Let_def split: if_splits option.splits)
  then show ?thesis
  proof cases
    case 2
    have "arp_unique ((arp_cache s)[k := (arp_cache s ! k)\<lparr>arp_valid := 0\<rparr>])"
      using assms(1) by (intro arp_unique_update) (auto simp: tables_ok_def arp_holds_def)
    then show ?thesis
      using assms(1) by (auto simp: tables_ok_def 2 dest!: subsetD [OF set_update_subset_insert])
  qed (use assms(1) in simp)
qed

lemma tables_ok_route_add:
  assumes "tables_ok s" and "net_route_add net nmask gw met ifc s = (r, t)"
  shows "tables_ok t"
  using assms
  by (auto simp: net_route_add_def tables_ok_def split: if_splits option.splits dest!: subsetD [OF set_update_subset_insert])

interpretation net_tables: invariant_machine "\<lambda>s. s = net_boot" net_step tables_ok
proof
  show "tables_ok s" if "s = net_boot" for s
    unfolding that by (auto simp: tables_ok_def net_boot_def arp_unique_def arp_holds_def)
  show "tables_ok t" if "tables_ok s" "net_step s t" for s t
    using that(2,1)
  proof cases
    case arp_init
    with that(1) show ?thesis
      using tables_ok_drop [of s "\<lambda>e. True"] by (simp add: net_arp_cache_init_def arp_drop_def [abs_def])
  next
    case (arp_expire now)
    with that(1) show ?thesis
      using tables_ok_drop [of s "\<lambda>e. arp_valid e \<noteq> 0 \<and> expires_at e \<le> now"]
      by (simp add: net_arp_cache_expire_def arp_drop_def [abs_def])
  next
    case route_init
    with that(1) show ?thesis
      by (auto simp: net_route_init_def tables_ok_def)
  qed (blast intro: tables_ok_update tables_ok_lookup tables_ok_route_add that(1))+
qed

text \<open>
  C30. Both tables are well formed after every sequence of calls from the zeroed tables at boot:
  they keep their sizes, no two valid cache entries are for the same address, a valid entry has
  an address and an expiry time, and a valid route has no bits outside its mask.
\<close>

theorem net_tables_well_formed:
  assumes "net_step\<^sup>*\<^sup>* net_boot s"
  shows "length (arp_cache s) = 32 \<and> length (routes s) = 16 \<and>
    (\<forall>i < 32. \<forall>j < 32. arp_valid (arp_cache s ! i) \<noteq> 0 \<and> arp_valid (arp_cache s ! j) \<noteq> 0 \<and>
       arp_address (arp_cache s ! i) = arp_address (arp_cache s ! j) \<longrightarrow> i = j) \<and>
    (\<forall>e \<in> set (arp_cache s). arp_valid e \<noteq> 0 \<longrightarrow> arp_address e \<noteq> 0 \<and> expires_at e \<noteq> 0) \<and>
    (\<forall>r \<in> set (routes s). route_valid r \<noteq> 0 \<longrightarrow> network r AND NOT (netmask r) = 0)"
proof -
  have ok: "tables_ok s"
    using net_tables.reachable_inv [OF refl assms] .
  have "i = j" if "i < 32" "j < 32" "arp_valid (arp_cache s ! i) \<noteq> 0" "arp_valid (arp_cache s ! j) \<noteq> 0"
    "arp_address (arp_cache s ! i) = arp_address (arp_cache s ! j)" for i j
    using arp_uniqueD [of "arp_cache s" i j "arp_address (arp_cache s ! i)"] that ok
    by (simp add: tables_ok_def arp_holds_def)
  with ok show ?thesis
    unfolding tables_ok_def by blast
qed

theorem net_tables_well_formed_witness:
  "length (arp_cache (snd (net_arp_cache_update 5 (Some (self_test_mac 1)) 100 net_boot))) = 32"
proof -
  have "net_step net_boot (snd (net_arp_cache_update 5 (Some (self_test_mac 1)) 100 net_boot))"
    by (rule net_step.arp_update [OF surjective_pairing])
  then show ?thesis
    using net_tables_well_formed by blast
qed

theorem arp_cache_refines_map_witness:
  "length (arp_cache net_boot) = 32 \<and> arp_unique (arp_cache net_boot) \<and>
   arp_map (arp_cache (snd (net_arp_cache_update 5 (Some (self_test_mac 1)) 100 net_boot))) 5 = Some (self_test_mac 1, 100)"
proof -
  have ok: "length (arp_cache net_boot) = 32" "arp_unique (arp_cache net_boot)"
    using net_tables.inv_init [OF refl] by (simp_all add: tables_ok_def)
  then show ?thesis
    using arp_cache_refines_map [OF ok, where address = 5 and expires = 100 and mac = "self_test_mac 1"]
    by (cases "net_arp_cache_update 5 (Some (self_test_mac 1)) 100 net_boot") auto
qed

end
