(* ===== verification/Ramfs.thy ===== *)
theory Ramfs
  imports Prelude
begin

section \<open>The file system in memory\<close>

text \<open>
  The tree of \<open>fs/ramfs.c\<close>, a table of 64 nodes that name their parents, and the functions of
  \<open>fs/vfs.c\<close> that pass on to it. An array of characters is its list of bytes with the
  terminating zero in it; a string argument is the list of its characters, all of them
  non-zero, so the end of the list is the terminator. A result of \<open>-1\<close> for a node is
  \<open>None\<close>.
\<close>

abbreviation FS_NODE_MAX :: nat where "FS_NODE_MAX \<equiv> 64"
abbreviation FS_NAME_MAX :: nat where "FS_NAME_MAX \<equiv> 24"
abbreviation FS_DATA_MAX :: nat where "FS_DATA_MAX \<equiv> 256"
abbreviation FS_PATH_MAX :: nat where "FS_PATH_MAX \<equiv> 128"
abbreviation slash :: u8 where "slash \<equiv> 47"

definition text_of :: "string \<Rightarrow> bytes" where
  "text_of s = map of_char s"

record fs_node_t =
  n_used :: nat
  n_is_directory :: nat
  n_parent :: nat
  n_size :: nat
  n_name :: bytes
  n_data :: bytes

record fs_state =
  nodes :: "fs_node_t list"
  current_directory :: nat

record fs_entry_t =
  e_name :: bytes
  e_is_directory :: nat
  e_size :: nat

subsection \<open>Strings\<close>

fun string_length :: "bytes \<Rightarrow> nat" where
  "string_length [] = 0"
| "string_length (c # cs) = (if c \<noteq> 0 then string_length cs + 1 else 0)"

fun string_copy_loop :: "bytes \<Rightarrow> bytes \<Rightarrow> nat \<Rightarrow> nat \<Rightarrow> bytes" where
  "string_copy_loop target [] index capacity = target[index := 0]"
| "string_copy_loop target (c # cs) index capacity =
     (if c \<noteq> 0 \<and> index + 1 < capacity then string_copy_loop (target[index := c]) cs (index + 1) capacity
      else target[index := 0])"

definition string_copy :: "bytes \<Rightarrow> bytes \<Rightarrow> nat \<Rightarrow> bytes" where
  "string_copy target source capacity = (if capacity = 0 then target else string_copy_loop target source 0 capacity)"

fun string_equal :: "bytes \<Rightarrow> bytes \<Rightarrow> bool" where
  "string_equal [] [] = True"
| "string_equal [] (r # rs) = (r = 0)"
| "string_equal (l # ls) [] = (l = 0)"
| "string_equal (l # ls) (r # rs) = (if l \<noteq> 0 \<and> r \<noteq> 0 then (if l \<noteq> r then False else string_equal ls rs) else l = r)"

subsection \<open>Paths\<close>

definition find_child :: "nat \<Rightarrow> bytes \<Rightarrow> fs_state \<Rightarrow> nat option" where
  "find_child par name s =
     find (\<lambda>index. n_used (nodes s ! index) \<noteq> 0 \<and> n_parent (nodes s ! index) = par \<and> string_equal (n_name (nodes s ! index)) name)
       [1..<FS_NODE_MAX]"

lemma dropWhile_segment:
  assumes "p = dropWhile (\<lambda>c. c = slash) path" and "p \<noteq> []"
  shows "length (dropWhile (\<lambda>c. c \<noteq> slash) p) < length path"
proof -
  have "hd p \<noteq> slash"
    using assms hd_dropWhile [of "\<lambda>c. c = slash" path] by simp
  then have "length (dropWhile (\<lambda>c. c \<noteq> slash) p) < length p"
    using assms(2) by (cases p) (auto simp: less_Suc_eq_le length_dropWhile_le)
  also have "length p \<le> length path"
    unfolding assms(1) by (rule length_dropWhile_le)
  finally show ?thesis .
qed

function resolve_loop :: "fs_state \<Rightarrow> nat \<Rightarrow> bytes \<Rightarrow> nat option" where
  "resolve_loop s node path =
     (let p = dropWhile (\<lambda>c. c = slash) path in
      if p = [] then Some node
      else let segment = takeWhile (\<lambda>c. c \<noteq> slash) p; rest = dropWhile (\<lambda>c. c \<noteq> slash) p in
        if FS_NAME_MAX \<le> length segment then None
        else if string_equal segment (text_of ''.'') then resolve_loop s node rest
        else if string_equal segment (text_of ''..'') then resolve_loop s (n_parent (nodes s ! node)) rest
        else if n_is_directory (nodes s ! node) = 0 then None
        else case find_child node segment s of None \<Rightarrow> None | Some child \<Rightarrow> resolve_loop s child rest)"
  by pat_completeness auto
termination
  by (relation "measure (\<lambda>(s, node, path). length path)") (auto intro: dropWhile_segment)

declare resolve_loop.simps [simp del]

definition resolve :: "bytes \<Rightarrow> fs_state \<Rightarrow> nat option" where
  "resolve path s =
     (if path \<noteq> [] \<and> hd path = slash then resolve_loop s 0 (tl path) else resolve_loop s (current_directory s) path)"

fun split_loop :: "bytes \<Rightarrow> nat \<Rightarrow> nat" where
  "split_loop path 0 = 0"
| "split_loop path (Suc n) = (if path ! n \<noteq> slash then split_loop path n else Suc n)"

text \<open>The parent and the name, which the code returns through pointers.\<close>

definition resolve_parent :: "bytes \<Rightarrow> fs_state \<Rightarrow> (nat \<times> bytes) option" where
  "resolve_parent path s =
     (let len = string_length path in
      if len = 0 \<or> FS_PATH_MAX \<le> len \<or> path ! (len - 1) = slash then None
      else let split = split_loop path len in
      if len - split = 0 \<or> FS_NAME_MAX \<le> len - split then None
      else let name = drop split path in
      if string_equal name (text_of ''.'') \<or> string_equal name (text_of ''..'') then None
      else if split = 0 then Some (current_directory s, name)
      else let parent_path = (if split = 1 then [slash] else take (split - 1) path) in
      case resolve parent_path s of
        None \<Rightarrow> None
      | Some resolved \<Rightarrow> if n_is_directory (nodes s ! resolved) = 0 then None else Some (resolved, name))"

subsection \<open>Operations\<close>

definition upd_node :: "nat \<Rightarrow> (fs_node_t \<Rightarrow> fs_node_t) \<Rightarrow> fs_state \<Rightarrow> fs_state" where
  "upd_node i f s = s\<lparr>nodes := (nodes s)[i := f (nodes s ! i)]\<rparr>"

definition new_node :: "nat \<Rightarrow> nat \<Rightarrow> bytes \<Rightarrow> fs_node_t \<Rightarrow> fs_node_t" where
  "new_node is_dir par name n = n\<lparr>n_used := 1, n_is_directory := is_dir, n_parent := par, n_size := 0,
     n_data := (n_data n)[0 := 0], n_name := string_copy (n_name n) name FS_NAME_MAX\<rparr>"

definition create_node :: "bytes \<Rightarrow> nat \<Rightarrow> fs_state \<Rightarrow> int \<times> fs_state" where
  "create_node path is_dir s =
     (case resolve_parent path s of
        None \<Rightarrow> (- 1, s)
      | Some (par, name) \<Rightarrow>
        if find_child par name s \<noteq> None then (- 1, s)
        else case find (\<lambda>index. n_used (nodes s ! index) = 0) [1..<FS_NODE_MAX] of
            None \<Rightarrow> (- 1, s)
          | Some index \<Rightarrow> (0, upd_node index (new_node is_dir par name) s))"

definition fs_chdir :: "bytes \<Rightarrow> fs_state \<Rightarrow> int \<times> fs_state" where
  "fs_chdir path s =
     (case resolve path s of
        None \<Rightarrow> (- 1, s)
      | Some node \<Rightarrow> if n_is_directory (nodes s ! node) = 0 then (- 1, s) else (0, s\<lparr>current_directory := node\<rparr>))"

primrec pwd_chain :: "nat \<Rightarrow> nat \<Rightarrow> fs_state \<Rightarrow> nat list" where
  "pwd_chain 0 node s = []"
| "pwd_chain (Suc k) node s = (if node \<noteq> 0 then node # pwd_chain k (n_parent (nodes s ! node)) s else [])"

fun put_chars :: "bytes \<Rightarrow> nat \<Rightarrow> bytes \<Rightarrow> bytes" where
  "put_chars out position [] = out"
| "put_chars out position (c # cs) = put_chars (out[position := c]) (position + 1) cs"

fun pwd_loop :: "nat list \<Rightarrow> bytes \<Rightarrow> nat \<Rightarrow> nat \<Rightarrow> fs_state \<Rightarrow> int \<times> bytes" where
  "pwd_loop [] out position capacity s = (0, out[position := 0])"
| "pwd_loop (node # chain) out position capacity s =
     (let name = n_name (nodes s ! node); len = string_length name in
      if capacity \<le> position + len + 1 then (- 1, out)
      else let out = put_chars out position (take len name); position = position + len in
        if chain \<noteq> [] then pwd_loop chain (out[position := slash]) (position + 1) capacity s
        else pwd_loop chain out position capacity s)"

definition fs_pwd :: "bytes \<Rightarrow> nat \<Rightarrow> fs_state \<Rightarrow> int \<times> bytes" where
  "fs_pwd out capacity s =
     (if capacity < 2 then (- 1, out)
      else pwd_loop (rev (pwd_chain FS_NODE_MAX (current_directory s) s)) (out[0 := slash]) 1 capacity s)"

definition list_entry :: "fs_node_t \<Rightarrow> nat \<Rightarrow> fs_entry_t \<Rightarrow> fs_entry_t" where
  "list_entry n is_dir e = e\<lparr>e_name := string_copy (e_name e) (n_name n) FS_NAME_MAX, e_is_directory := is_dir, e_size := n_size n\<rparr>"

fun fs_list_loop :: "nat \<Rightarrow> nat \<Rightarrow> fs_state \<Rightarrow> nat list \<Rightarrow> fs_entry_t list \<Rightarrow> nat \<Rightarrow> nat \<times> fs_entry_t list" where
  "fs_list_loop node capacity s [] entries count = (count, entries)"
| "fs_list_loop node capacity s (index # rest) entries count =
     (if count < capacity then
        let n = nodes s ! index in
        if n_used n \<noteq> 0 \<and> n_parent n = node
        then fs_list_loop node capacity s rest (entries[count := list_entry n (n_is_directory n) (entries ! count)]) (count + 1)
        else fs_list_loop node capacity s rest entries count
      else (count, entries))"

definition fs_list :: "bytes \<Rightarrow> fs_entry_t list \<Rightarrow> nat \<Rightarrow> fs_state \<Rightarrow> int \<times> fs_entry_t list" where
  "fs_list path entries capacity s =
     (case (if path = [] then Some (current_directory s) else resolve path s) of
        None \<Rightarrow> (- 1, entries)
      | Some node \<Rightarrow>
        if n_is_directory (nodes s ! node) = 0 then
          if capacity = 0 then (0, entries) else (1, entries[0 := list_entry (nodes s ! node) 0 (entries ! 0)])
        else let (count, entries) = fs_list_loop node capacity s [1..<FS_NODE_MAX] entries 0 in (int count, entries))"

definition fs_mkdir :: "bytes \<Rightarrow> fs_state \<Rightarrow> int \<times> fs_state" where
  "fs_mkdir path s = create_node path 1 s"

definition fs_touch :: "bytes \<Rightarrow> fs_state \<Rightarrow> int \<times> fs_state" where
  "fs_touch path s =
     (case resolve path s of
        Some node \<Rightarrow> (if n_is_directory (nodes s ! node) = 0 then 0 else - 1, s)
      | None \<Rightarrow> create_node path 0 s)"

fun fs_write_loop :: "bytes \<Rightarrow> bytes \<Rightarrow> nat \<Rightarrow> bytes \<times> bytes \<times> nat" where
  "fs_write_loop data [] position = (data, [], position)"
| "fs_write_loop data (c # cs) position =
     (if position + 1 < FS_DATA_MAX then fs_write_loop (data[position := c]) cs (position + 1) else (data, c # cs, position))"

definition fs_write :: "bytes \<Rightarrow> bytes \<Rightarrow> nat \<Rightarrow> fs_state \<Rightarrow> int \<times> fs_state" where
  "fs_write path txt appending s =
     (case resolve path s of
        None \<Rightarrow> (- 1, s)
      | Some node \<Rightarrow>
        if n_is_directory (nodes s ! node) \<noteq> 0 then (- 1, s)
        else let n = nodes s ! node;
                 (data, rest, position) = fs_write_loop (n_data n) txt (if appending \<noteq> 0 then n_size n else 0) in
          (if rest = [] then 0 else - 2,
           upd_node node (\<lambda>n. n\<lparr>n_data := data[position := 0], n_size := position mod 2 ^ 16\<rparr>) s))"

text \<open>The contents and the size, which the code returns through pointers.\<close>

definition fs_read :: "bytes \<Rightarrow> fs_state \<Rightarrow> int \<times> (bytes \<times> nat) option" where
  "fs_read path s =
     (case resolve path s of
        None \<Rightarrow> (- 1, None)
      | Some node \<Rightarrow>
        if n_is_directory (nodes s ! node) \<noteq> 0 then (- 1, None)
        else (0, Some (n_data (nodes s ! node), n_size (nodes s ! node))))"

definition fs_remove :: "bytes \<Rightarrow> fs_state \<Rightarrow> int \<times> fs_state" where
  "fs_remove path s =
     (case resolve path s of
        None \<Rightarrow> (- 1, s)
      | Some node \<Rightarrow>
        if node = 0 then (- 1, s)
        else if n_is_directory (nodes s ! node) \<noteq> 0 \<and>
          list_ex (\<lambda>index. n_used (nodes s ! index) \<noteq> 0 \<and> n_parent (nodes s ! index) = node) [1..<FS_NODE_MAX] then (- 2, s)
        else (0, upd_node node (\<lambda>n. n\<lparr>n_used := 0\<rparr>) s))"

subsection \<open>The initial tree\<close>

definition MVH_KERNEL_NAME :: string where "MVH_KERNEL_NAME = ''MVH Kernel''"
definition MVH_KERNEL_VERSION :: string where "MVH_KERNEL_VERSION = ''1.1.10''"
definition MVH_KERNEL_ARCH :: string where "MVH_KERNEL_ARCH = ''x86_64''"

definition init_nodes :: "fs_state \<Rightarrow> fs_state" where
  "init_nodes s =
     (let ns = map (\<lambda>n. n\<lparr>n_used := 0\<rparr>) (nodes s) in
      s\<lparr>nodes := ns[0 := (ns ! 0)\<lparr>n_used := 1, n_is_directory := 1, n_parent := 0, n_name := (n_name (ns ! 0))[0 := 0]\<rparr>],
        current_directory := 0\<rparr>)"

definition fs_init :: "fs_state \<Rightarrow> fs_state" where
  "fs_init s =
     (let s = init_nodes s;
          s = snd (fs_mkdir (text_of ''/home'') s);
          s = snd (fs_mkdir (text_of ''/bin'') s);
          s = snd (fs_mkdir (text_of ''/dev'') s);
          s = snd (fs_mkdir (text_of ''/etc'') s);
          s = snd (fs_mkdir (text_of ''/kernel'') s);
          s = snd (fs_mkdir (text_of ''/tmp'') s);
          s = snd (fs_mkdir (text_of ''/var'') s);
          s = snd (fs_touch (text_of ''/home/welcome.txt'') s);
          s = snd (fs_write (text_of ''/home/welcome.txt'')
            (text_of (''Welcome to '' @ MVH_KERNEL_NAME @ '' '' @ MVH_KERNEL_VERSION @ [CHR 0x0A])) 0 s);
          s = snd (fs_touch (text_of ''/etc/version'') s);
          s = snd (fs_write (text_of ''/etc/version'') (text_of (MVH_KERNEL_VERSION @ [CHR 0x0A])) 0 s);
          s = snd (fs_touch (text_of ''/kernel/release'') s) in
      snd (fs_write (text_of ''/kernel/release'')
        (text_of (''MVHKernel '' @ MVH_KERNEL_VERSION @ '' '' @ MVH_KERNEL_ARCH @ [CHR 0x0A])) 0 s))"

subsection \<open>The file system interface\<close>

definition vfs_init :: "fs_state \<Rightarrow> fs_state" where "vfs_init s = fs_init s"
definition vfs_root_type :: bytes where "vfs_root_type = text_of ''ramfs''"
definition vfs_chdir :: "bytes \<Rightarrow> fs_state \<Rightarrow> int \<times> fs_state" where "vfs_chdir path s = fs_chdir path s"
definition vfs_pwd :: "bytes \<Rightarrow> nat \<Rightarrow> fs_state \<Rightarrow> int \<times> bytes" where "vfs_pwd out capacity s = fs_pwd out capacity s"
definition vfs_list :: "bytes \<Rightarrow> fs_entry_t list \<Rightarrow> nat \<Rightarrow> fs_state \<Rightarrow> int \<times> fs_entry_t list" where
  "vfs_list path entries capacity s = fs_list path entries capacity s"
definition vfs_mkdir :: "bytes \<Rightarrow> fs_state \<Rightarrow> int \<times> fs_state" where "vfs_mkdir path s = fs_mkdir path s"
definition vfs_touch :: "bytes \<Rightarrow> fs_state \<Rightarrow> int \<times> fs_state" where "vfs_touch path s = fs_touch path s"
definition vfs_write :: "bytes \<Rightarrow> bytes \<Rightarrow> nat \<Rightarrow> fs_state \<Rightarrow> int \<times> fs_state" where
  "vfs_write path txt appending s = fs_write path txt appending s"
definition vfs_read :: "bytes \<Rightarrow> fs_state \<Rightarrow> int \<times> (bytes \<times> nat) option" where "vfs_read path s = fs_read path s"
definition vfs_remove :: "bytes \<Rightarrow> fs_state \<Rightarrow> int \<times> fs_state" where "vfs_remove path s = fs_remove path s"

end
