(* ===== verification/Ramfs_Props.thy ===== *)
theory Ramfs_Props
  imports Ramfs Machine
begin

section \<open>The tree\<close>

text \<open>
  What \<open>fs/ramfs.c\<close> promises. The nodes form a tree below the root with distinct names in
  each directory, as long as the current directory is not removed. A created node is found
  under its path, what was written is read back, and the path that \<open>fs_pwd\<close> prints leads
  to the current directory.
\<close>

subsection \<open>Names\<close>

abbreviation chars :: "bytes \<Rightarrow> bytes" where
  "chars \<equiv> takeWhile (\<lambda>c. c \<noteq> 0)"

lemma string_equal_iff: "string_equal a b \<longleftrightarrow> chars a = chars b"
  by (induction a b rule: string_equal.induct) auto

lemma string_length_eq: "string_length a = length (chars a)"
  by (induction a) auto

lemma chars_id: "0 \<notin> set a \<Longrightarrow> chars a = a"
  by (induction a) auto

lemma zero_chars [simp]: "0 \<notin> set (chars a)"
  by (auto dest: set_takeWhileD)

lemma text_of_dots [simp]: "chars (text_of ''.'') = [46]" "chars (text_of ''..'') = [46, 46]"
  by (simp_all add: text_of_def)

text \<open>A name a node can have.\<close>

definition name_ok :: "bytes \<Rightarrow> bool" where
  "name_ok a \<longleftrightarrow> a \<noteq> [] \<and> length a < 24 \<and> 0 \<notin> set a \<and> slash \<notin> set a \<and> a \<noteq> [46] \<and> a \<noteq> [46, 46]"

lemma string_copy_loop_chars:
  "0 \<notin> set source \<Longrightarrow> index + length source < capacity \<Longrightarrow> capacity \<le> length target \<Longrightarrow>
   length (string_copy_loop target source index capacity) = length target \<and>
   take (index + length source + 1) (string_copy_loop target source index capacity) = take index target @ source @ [0]"
proof (induction source arbitrary: target index)
  case Nil
  then show ?case
    by (simp add: take_Suc_conv_app_nth)
next
  case (Cons c cs)
  then show ?case
    using Cons.IH [of "index + 1" "target[index := c]"] by (simp add: take_Suc_conv_app_nth)
qed

lemma string_copy_chars:
  assumes "0 \<notin> set source" and "length source < capacity" and "capacity \<le> length target"
  shows "length (string_copy target source capacity) = length target \<and> chars (string_copy target source capacity) = source"
proof -
  let ?t = "string_copy target source capacity"
  have t: "length ?t = length target" "take (length source + 1) ?t = source @ [0]"
    using string_copy_loop_chars [of source 0 capacity target] assms by (auto simp: string_copy_def)
  have "chars (take (length source + 1) ?t @ drop (length source + 1) ?t) = source"
    unfolding t(2) using assms(1) by (auto simp: takeWhile_append chars_id)
  then show ?thesis
    using t(1) by (simp only: append_take_drop_id)
qed

subsection \<open>The invariant\<close>

abbreviation used :: "fs_state \<Rightarrow> nat \<Rightarrow> bool" where
  "used s i \<equiv> n_used (nodes s ! i) \<noteq> 0"

abbreviation directory :: "fs_state \<Rightarrow> nat \<Rightarrow> bool" where
  "directory s i \<equiv> n_is_directory (nodes s ! i) \<noteq> 0"

abbreviation up :: "fs_state \<Rightarrow> nat \<Rightarrow> nat" where
  "up s i \<equiv> n_parent (nodes s ! i)"

abbreviation label :: "fs_state \<Rightarrow> nat \<Rightarrow> bytes" where
  "label s i \<equiv> chars (n_name (nodes s ! i))"

text \<open>The nodes on the way from a node up to the root, the root left out.\<close>

inductive ancestry :: "fs_state \<Rightarrow> nat \<Rightarrow> nat list \<Rightarrow> bool" for s where
  ancestry_root: "ancestry s 0 []"
| ancestry_up: "0 < i \<Longrightarrow> i < 64 \<Longrightarrow> used s i \<Longrightarrow> directory s (up s i) \<Longrightarrow> used s (up s i) \<Longrightarrow> ancestry s (up s i) xs \<Longrightarrow>
    ancestry s i (i # xs)"

definition node_ok :: "fs_node_t \<Rightarrow> bool" where
  "node_ok n \<longleftrightarrow> length (n_name n) = 24 \<and> length (n_data n) = 256 \<and> n_size n < 256"

definition tree_ok :: "fs_state \<Rightarrow> bool" where
  "tree_ok s \<longleftrightarrow>
     length (nodes s) = 64 \<and> (\<forall>i < 64. node_ok (nodes s ! i)) \<and>
     used s 0 \<and> directory s 0 \<and> up s 0 = 0 \<and>
     current_directory s < 64 \<and> used s (current_directory s) \<and> directory s (current_directory s) \<and>
     (\<forall>i < 64. used s i \<longrightarrow> (\<exists>xs. ancestry s i xs)) \<and>
     (\<forall>i < 64. 0 < i \<and> used s i \<longrightarrow> name_ok (label s i)) \<and>
     (\<forall>i < 64. \<forall>j < 64. 0 < i \<and> 0 < j \<and> used s i \<and> used s j \<and> up s i = up s j \<and> label s i = label s j \<longrightarrow> i = j)"

inductive_simps ancestry_zero [simp]: "ancestry s 0 xs"
inductive_cases ancestry_Suc: "ancestry s i (j # xs)"

lemma tree_okD:
  assumes "tree_ok s"
  shows "length (nodes s) = 64" "used s 0" "directory s 0" "up s 0 = 0" "current_directory s < 64"
    "used s (current_directory s)" "directory s (current_directory s)"
    and "\<And>i. i < 64 \<Longrightarrow> node_ok (nodes s ! i)"
    and "\<And>i. i < 64 \<Longrightarrow> used s i \<Longrightarrow> \<exists>xs. ancestry s i xs"
    and "\<And>i. i < 64 \<Longrightarrow> 0 < i \<Longrightarrow> used s i \<Longrightarrow> name_ok (label s i)"
  using assms unfolding tree_ok_def by simp_all

lemma tree_unique:
  "tree_ok s \<Longrightarrow> i < 64 \<Longrightarrow> j < 64 \<Longrightarrow> 0 < i \<Longrightarrow> 0 < j \<Longrightarrow> used s i \<Longrightarrow> used s j \<Longrightarrow> up s i = up s j \<Longrightarrow>
   label s i = label s j \<Longrightarrow> i = j"
  unfolding tree_ok_def by blast

lemma tree_okI:
  assumes "length (nodes s) = 64" and "used s 0" and "directory s 0" and "up s 0 = 0" and "current_directory s < 64"
    and "used s (current_directory s)" and "directory s (current_directory s)"
    and nodes: "\<And>i. i < 64 \<Longrightarrow> node_ok (nodes s ! i)"
    and root: "\<And>i. i < 64 \<Longrightarrow> used s i \<Longrightarrow> \<exists>xs. ancestry s i xs"
    and names: "\<And>i. i < 64 \<Longrightarrow> 0 < i \<Longrightarrow> used s i \<Longrightarrow> name_ok (label s i)"
    and unique: "\<And>i j. i < 64 \<Longrightarrow> j < 64 \<Longrightarrow> 0 < i \<Longrightarrow> 0 < j \<Longrightarrow> used s i \<Longrightarrow> used s j \<Longrightarrow> up s i = up s j \<Longrightarrow>
      label s i = label s j \<Longrightarrow> i = j"
  shows "tree_ok s"
proof -
  have "\<forall>i < 64. node_ok (nodes s ! i)" "\<forall>i < 64. used s i \<longrightarrow> (\<exists>xs. ancestry s i xs)"
    "\<forall>i < 64. 0 < i \<and> used s i \<longrightarrow> name_ok (label s i)"
    using nodes root names by blast+
  moreover have "\<forall>i < 64. \<forall>j < 64. 0 < i \<and> 0 < j \<and> used s i \<and> used s j \<and> up s i = up s j \<and> label s i = label s j \<longrightarrow> i = j"
    using unique by blast
  ultimately show ?thesis
    unfolding tree_ok_def using assms(1-7) by blast
qed

lemma ancestry_less: "ancestry s i xs \<Longrightarrow> i < 64"
  by (induction rule: ancestry.induct) auto

lemma tree_up:
  assumes "tree_ok s" and "i < 64" and "used s i"
  shows "up s i < 64 \<and> used s (up s i) \<and> directory s (up s i)"
proof (cases "i = 0")
  case True
  then show ?thesis
    using tree_okD(2-4) [OF assms(1)] by simp
next
  case False
  obtain xs where "ancestry s i xs"
    using tree_okD(9) [OF assms] by blast
  then show ?thesis
    using False by (cases rule: ancestry.cases) (auto dest: ancestry_less)
qed

subsection \<open>Looking up paths\<close>

lemma find_child_Some:
  assumes "tree_ok s" and "0 \<notin> set name"
  shows "find_child p name s = Some i \<longleftrightarrow> 0 < i \<and> i < 64 \<and> used s i \<and> up s i = p \<and> label s i = name"
proof -
  let ?P = "\<lambda>i. used s i \<and> up s i = p \<and> string_equal (n_name (nodes s ! i)) name"
  have P: "?P j \<longleftrightarrow> used s j \<and> up s j = p \<and> label s j = name" for j
    using assms(2) by (simp add: string_equal_iff chars_id)
  have find: "find_child p name s = find ?P [1..<64]"
    by (simp add: find_child_def)
  show ?thesis
  proof
    assume "find_child p name s = Some i"
    then have "i \<in> set [1..<64]" "?P i"
      unfolding find by (auto simp: find_Some_iff)
    then show "0 < i \<and> i < 64 \<and> used s i \<and> up s i = p \<and> label s i = name"
      unfolding P by auto
  next
    assume i: "0 < i \<and> i < 64 \<and> used s i \<and> up s i = p \<and> label s i = name"
    then have "find ?P [1..<64] \<noteq> None"
      unfolding find_None_iff P by auto
    then obtain j where j: "find ?P [1..<64] = Some j"
      by blast
    then have "j \<in> set [1..<64]" "?P j"
      by (auto simp: find_Some_iff)
    then have "j = i"
      using i tree_unique [OF assms(1), of j i] unfolding P by auto
    with j show "find_child p name s = Some i"
      unfolding find by simp
  qed
qed

lemma find_child_None:
  assumes "0 \<notin> set name"
  shows "find_child p name s = None \<longleftrightarrow> (\<forall>i. 0 < i \<and> i < 64 \<and> used s i \<and> up s i = p \<longrightarrow> label s i \<noteq> name)"
  using assms by (auto simp: find_child_def find_None_iff string_equal_iff chars_id Suc_le_eq)

text \<open>
  The loop of \<open>resolve\<close> is a walk over the segments of the path, the non-empty pieces between
  slashes.
\<close>

function segments :: "bytes \<Rightarrow> bytes list" where
  "segments path =
     (let p = dropWhile (\<lambda>c. c = slash) path in
      if p = [] then [] else takeWhile (\<lambda>c. c \<noteq> slash) p # segments (dropWhile (\<lambda>c. c \<noteq> slash) p))"
  by pat_completeness auto
termination
  by (relation "measure length") (auto intro: dropWhile_segment)

declare segments.simps [simp del]

fun walk :: "fs_state \<Rightarrow> nat \<Rightarrow> bytes list \<Rightarrow> nat option" where
  "walk s node [] = Some node"
| "walk s node (segment # rest) =
     (if 24 \<le> length segment then None
      else if string_equal segment (text_of ''.'') then walk s node rest
      else if string_equal segment (text_of ''..'') then walk s (up s node) rest
      else if \<not> directory s node then None
      else case find_child node segment s of None \<Rightarrow> None | Some child \<Rightarrow> walk s child rest)"

lemma segments_Nil [simp]: "segments [] = []"
  by (simp add: segments.simps)

lemma resolve_loop_walk: "resolve_loop s node path = walk s node (segments path)"
proof (induction s node path rule: resolve_loop.induct)
  case (1 s node path)
  let ?p = "dropWhile (\<lambda>c. c = slash) path"
  note ih = 1 [OF refl _ refl refl]
  show ?case
  proof (cases "?p = []")
    case True
    then show ?thesis
      unfolding resolve_loop.simps [of s node path] segments.simps [of path] Let_def by (simp only: simp_thms if_True walk.simps)
  next
    case False
    then show ?thesis
      unfolding resolve_loop.simps [of s node path] segments.simps [of path] Let_def if_not_P [OF False] walk.simps
      by (intro if_cong option.case_cong refl ih) (use False in simp_all)
  qed
qed

lemma walk_append: "walk s node (xs @ ys) = (case walk s node xs of None \<Rightarrow> None | Some n \<Rightarrow> walk s n ys)"
  by (induction xs arbitrary: node) (auto split: option.splits)

lemma segments_skip: "dropWhile (\<lambda>c. c = slash) a = dropWhile (\<lambda>c. c = slash) b \<Longrightarrow> segments a = segments b"
  by (simp only: segments.simps [of a] segments.simps [of b])

lemma segments_slash [simp]: "segments (slash # path) = segments path"
  by (rule segments_skip) simp

lemma segments_append: "segments (a @ slash # b) = segments a @ segments b"
proof (induction a rule: segments.induct)
  case (1 a)
  let ?p = "dropWhile (\<lambda>c. c = slash) a"
  show ?case
  proof (cases "?p = []")
    case True
    then have "dropWhile (\<lambda>c. c = slash) (a @ slash # b) = dropWhile (\<lambda>c. c = slash) b"
      unfolding dropWhile_append by simp
    then have "segments (a @ slash # b) = segments b"
      by (rule segments_skip)
    moreover have "segments a = segments []"
      using True by (intro segments_skip) simp
    ultimately show ?thesis
      by simp
  next
    case False
    have p: "dropWhile (\<lambda>c. c = slash) (a @ slash # b) = ?p @ slash # b"
      using False by (auto simp: dropWhile_append dropWhile_eq_Nil_conv)
    have seg: "takeWhile (\<lambda>c. c \<noteq> slash) (xs @ slash # b) = takeWhile (\<lambda>c. c \<noteq> slash) xs" for xs
      by (induction xs) auto
    have rest: "dropWhile (\<lambda>c. c \<noteq> slash) (xs @ slash # b) = dropWhile (\<lambda>c. c \<noteq> slash) xs @ slash # b" for xs
      by (induction xs) auto
    show ?thesis
      unfolding segments.simps [of "a @ slash # b"] segments.simps [of a] p Let_def seg rest if_not_P [OF False]
      using 1 [OF refl False] by simp
  qed
qed

lemma segments_name:
  assumes "name \<noteq> []" and "slash \<notin> set name"
  shows "segments name = [name]"
proof -
  have skip: "dropWhile (\<lambda>c. c = slash) name = name"
    using assms by (cases name) auto
  have seg: "takeWhile (\<lambda>c. c \<noteq> slash) name = name" "dropWhile (\<lambda>c. c \<noteq> slash) name = []"
    using assms(2) by (auto simp: takeWhile_eq_all_conv dropWhile_eq_Nil_conv)
  show ?thesis
    using assms(1) by (simp only: segments.simps [of name] Let_def skip seg if_False segments_Nil simp_thms)
qed

lemma segments_zero: "0 \<notin> set path \<Longrightarrow> a \<in> set (segments path) \<Longrightarrow> 0 \<notin> set a"
proof (induction path rule: segments.induct)
  case (1 path)
  let ?p = "dropWhile (\<lambda>c. c = slash) path"
  have "0 \<notin> set ?p"
    using "1.prems"(1) by (blast dest: set_dropWhileD)
  then have "0 \<notin> set (takeWhile (\<lambda>c. c \<noteq> slash) ?p)" "0 \<notin> set (dropWhile (\<lambda>c. c \<noteq> slash) ?p)"
    by (blast dest: set_takeWhileD set_dropWhileD)+
  then show ?case
    using "1.IH" [OF refl] "1.prems"(2) [unfolded segments.simps [of path] Let_def] by (auto split: if_splits)
qed

lemma walk_used:
  assumes "tree_ok s" and "\<forall>a \<in> set segs. 0 \<notin> set a" and "node < 64" and "used s node" and "walk s node segs = Some i"
  shows "i < 64 \<and> used s i"
  using assms(2-)
proof (induction segs arbitrary: node)
  case (Cons a segs)
  have "up s node < 64 \<and> used s (up s node)"
    using tree_up [OF assms(1) Cons.prems(2,3)] by blast
  moreover have "c < 64 \<and> used s c" if "find_child node a s = Some c" for c
    using that find_child_Some [OF assms(1), of a node c] Cons.prems(1) by simp
  ultimately show ?case
    using Cons.IH [of node] Cons.IH [of "up s node"] Cons.IH Cons.prems by (auto split: if_splits option.splits)
qed simp

lemma walk_name:
  assumes "name_ok name"
  shows "walk s node [name] = (if directory s node then find_child node name s else None)"
  using assms by (auto simp: name_ok_def string_equal_iff chars_id split: option.splits)

text \<open>Where a path starts.\<close>

definition start :: "bytes \<Rightarrow> fs_state \<Rightarrow> nat" where
  "start path s = (if path \<noteq> [] \<and> hd path = slash then 0 else current_directory s)"

lemma resolve_walk: "resolve path s = walk s (start path s) (segments path)"
  by (cases path) (auto simp: resolve_def start_def resolve_loop_walk)

lemma start_ok: "tree_ok s \<Longrightarrow> start path s < 64 \<and> used s (start path s)"
  using tree_okD [of s] by (simp add: start_def)

lemma resolve_used:
  assumes "tree_ok s" and "0 \<notin> set path" and "resolve path s = Some i"
  shows "i < 64 \<and> used s i"
  using walk_used [OF assms(1), of "segments path" "start path s" i] start_ok [OF assms(1)] assms(2,3) segments_zero
  by (auto simp: resolve_walk)

lemma split_loop_props:
  "split_loop path n \<le> n \<and> (\<forall>k. split_loop path n \<le> k \<and> k < n \<longrightarrow> path ! k \<noteq> slash) \<and>
   (split_loop path n \<noteq> 0 \<longrightarrow> path ! (split_loop path n - 1) = slash)"
  by (induction n) (auto simp: le_less_Suc_eq less_Suc_eq)

lemma guarded_Some:
  "(case x of None \<Rightarrow> None | Some r \<Rightarrow> if P r then None else Some (f r)) = Some y \<longleftrightarrow> (\<exists>r. x = Some r \<and> \<not> P r \<and> f r = y)"
  by (auto split: option.splits)

lemma resolve_parent_Some:
  assumes "tree_ok s" and "0 \<notin> set path" and "resolve_parent path s = Some (par, name)"
  shows "name_ok name \<and> par < 64 \<and> used s par \<and> directory s par \<and>
    (\<exists>segs. segments path = segs @ [name] \<and> walk s (start path s) segs = Some par)"
proof -
  let ?n = "split_loop path (length path)"
  have len: "string_length path = length path"
    using assms(2) by (simp add: string_length_eq chars_id)
  note unf = assms(3) [unfolded resolve_parent_def Let_def len]
  have name: "name = drop ?n path" and size: "length path - ?n < 24" "?n < length path"
    and dots: "\<not> string_equal name (text_of ''.'')" "\<not> string_equal name (text_of ''..'')"
    using unf by (auto split: if_splits option.splits)
  have c1: "\<not> (length path = 0 \<or> 128 \<le> length path \<or> path ! (length path - 1) = slash)"
    and c2: "\<not> (length path - ?n = 0 \<or> 24 \<le> length path - ?n)"
    and c3: "\<not> (string_equal (drop ?n path) (text_of ''.'') \<or> string_equal (drop ?n path) (text_of ''..''))"
    using unf by (auto split: if_splits)
  have noslash: "slash \<notin> set name"
    using split_loop_props [of path "length path"] by (auto simp: name set_conv_nth)
  have zero: "0 \<notin> set name"
    using assms(2) by (auto simp: name dest: in_set_dropD)
  have ok: "name_ok name"
    using size dots noslash zero by (simp add: name_ok_def name string_equal_iff chars_id)
  show ?thesis
  proof (cases "?n = 0")
    case True
    then have "path = name" "par = current_directory s"
      using unf by (auto simp: name split: if_splits)
    moreover from this have "hd path \<noteq> slash"
      using noslash ok hd_in_set [of name] unfolding name_ok_def by metis
    ultimately show ?thesis
      using ok tree_okD [OF assms(1)] noslash by (auto simp: segments_name name_ok_def start_def)
  next
    case False
    let ?base = "take (?n - 1) path"
    have path: "path = ?base @ slash # name"
    proof -
      have "?n - 1 < length path" "path ! (?n - 1) = slash" "Suc (?n - 1) = ?n"
        using False split_loop_props [of path "length path"] size(2) by auto
      then show ?thesis
        using id_take_nth_drop [of "?n - 1" path] by (simp only: name)
    qed
    let ?pp = "if ?n = 1 then [slash] else ?base"
    have "(case resolve ?pp s of None \<Rightarrow> None
        | Some r \<Rightarrow> if n_is_directory (nodes s ! r) = 0 then None else Some (r, drop ?n path)) = Some (par, name)"
      using unf unfolding if_not_P [OF c1] if_not_P [OF c2] if_not_P [OF c3] if_not_P [OF False] .
    then have "resolve ?pp s = Some par" and dir: "directory s par"
      by (auto simp only: guarded_Some prod.inject)
    moreover have "segments (if ?n = 1 then [slash] else ?base) = segments ?base"
      by simp
    moreover have "start (if ?n = 1 then [slash] else ?base) s = start path s"
      using False size(2) by (subst (2) path) (auto simp: start_def hd_append)
    ultimately have walk: "walk s (start path s) (segments ?base) = Some par"
      by (simp add: resolve_walk)
    moreover have "segments path = segments ?base @ [name]"
      using ok by (subst path) (simp add: segments_append segments_name name_ok_def)
    moreover have "par < 64 \<and> used s par"
    proof (rule walk_used [OF assms(1) _ _ _ walk])
      have "0 \<notin> set ?base"
        using assms(2) by (auto dest: in_set_takeD)
      then show "\<forall>a \<in> set (segments ?base). 0 \<notin> set a"
        using segments_zero by blast
    qed (use start_ok [OF assms(1)] in auto)
    ultimately show ?thesis
      using ok dir by blast
  qed
qed

end
