(* ===== verification/Ramfs_Ops.thy ===== *)
theory Ramfs_Ops
  imports Ramfs_Props
begin

section \<open>Operations on the tree\<close>

text \<open>
  That every operation keeps the tree, what creating, writing and removing do to the paths,
  and that the path of the current directory leads back to it.
\<close>

subsection \<open>Creating nodes\<close>

text \<open>A state that has every node of another one, with the same place in the tree.\<close>

definition extends :: "fs_state \<Rightarrow> fs_state \<Rightarrow> bool" where
  "extends s s' \<longleftrightarrow> (\<forall>i < 64. used s i \<longrightarrow>
     used s' i \<and> directory s' i = directory s i \<and> up s' i = up s i \<and> label s' i = label s i)"

lemma extends_find:
  assumes "tree_ok s" and "tree_ok s'" and "extends s s'" and "0 \<notin> set a" and "find_child p a s = Some i"
  shows "find_child p a s' = Some i"
  using assms(3,5) find_child_Some [OF assms(1,4), of p i] find_child_Some [OF assms(2,4), of p i]
  by (auto simp: extends_def)

lemma walk_extends:
  assumes "tree_ok s" and "tree_ok s'" and "extends s s'"
    and "\<forall>a \<in> set segs. 0 \<notin> set a" and "node < 64" and "used s node" and "walk s node segs = Some i"
  shows "walk s' node segs = Some i"
  using assms(4-)
proof (induction segs arbitrary: node)
  case (Cons a segs)
  have same: "directory s' node = directory s node" "up s' node = up s node"
    using assms(3) Cons.prems(2,3) by (auto simp: extends_def)
  have "up s node < 64 \<and> used s (up s node)"
    using tree_up [OF assms(1) Cons.prems(2,3)] by blast
  moreover have "c < 64 \<and> used s c \<and> find_child node a s' = Some c" if "find_child node a s = Some c" for c
    using that find_child_Some [OF assms(1), of a node c] extends_find [OF assms(1-3), of a node c] Cons.prems(1) by simp
  ultimately show ?case
    using Cons.IH [of node] Cons.IH [of "up s node"] Cons.IH Cons.prems same by (auto split: if_splits option.splits)
qed simp

lemma ancestry_extends:
  assumes "ancestry s i xs" and "extends s s'" and "tree_ok s"
  shows "ancestry s' i xs"
  using assms(1)
proof (induction rule: ancestry.induct)
  case (ancestry_up i xs)
  have "used s' i" "up s' i = up s i"
    using assms(2) ancestry_up.hyps by (auto simp: extends_def)
  moreover have "used s' (up s i)" "directory s' (up s i)"
    using assms(2) ancestry_up.hyps tree_up [OF assms(3), of i] by (auto simp: extends_def)
  ultimately show ?case
    using ancestry_up.IH ancestry_up.hyps by (auto intro: ancestry.ancestry_up)
qed (rule ancestry_root)

text \<open>The state after a new node was put into a slot.\<close>

lemma new_node_fields:
  assumes "tree_ok s" and "name_ok name" and "k < 64" and s': "s' = upd_node k (new_node d par name) s"
  shows "length (nodes s') = 64 \<and> current_directory s' = current_directory s \<and> (\<forall>i. i \<noteq> k \<longrightarrow> nodes s' ! i = nodes s ! i) \<and>
    used s' k \<and> up s' k = par \<and> label s' k = name \<and> n_is_directory (nodes s' ! k) = d \<and> n_size (nodes s' ! k) = 0 \<and>
    (\<forall>i < 64. node_ok (nodes s' ! i))"
proof -
  note ok = tree_okD [OF assms(1)]
  have "length (n_name (nodes s ! k)) = 24" "length (n_data (nodes s ! k)) = 256"
    using ok(8) [OF assms(3)] by (simp_all add: node_ok_def)
  then have copy: "length (string_copy (n_name (nodes s ! k)) name 24) = 24" "chars (string_copy (n_name (nodes s ! k)) name 24) = name"
    using string_copy_chars [of name 24 "n_name (nodes s ! k)"] assms(2) by (simp_all add: name_ok_def)
  have k: "nodes s' ! k = new_node d par name (nodes s ! k)" and other: "\<And>i. i \<noteq> k \<Longrightarrow> nodes s' ! i = nodes s ! i"
    and rest: "current_directory s' = current_directory s" "length (nodes s') = 64"
    using ok(1) assms(3) by (simp_all add: s' upd_node_def)
  have "node_ok (nodes s' ! i)" if "i < 64" for i
    using ok(8) [OF that] copy other [of i] by (cases "i = k") (auto simp: k new_node_def node_ok_def)
  then show ?thesis
    using other rest by (simp add: k new_node_def copy)
qed

lemma create_unique:
  assumes "tree_ok s" and "name_ok name" and "find_child par name s = None" and "\<forall>i. i \<noteq> k \<longrightarrow> nodes s' ! i = nodes s ! i"
    and "up s' k = par" and "label s' k = name" and "i < 64" and "j < 64" and "0 < i" and "0 < j" and "used s' i" and "used s' j"
    and "up s' i = up s' j" and "label s' i = label s' j"
  shows "i = j"
proof -
  have no: "\<not> (0 < l \<and> l < 64 \<and> used s l \<and> up s l = par \<and> label s l = name)" for l
    using assms(2,3) by (auto simp: find_child_None name_ok_def)
  show ?thesis
    using tree_unique [OF assms(1), of i j] assms(4-) no [of i] no [of j]
    by (cases "i = k"; cases "j = k") auto
qed

lemma create_tree:
  assumes "tree_ok s" and "name_ok name" and "par < 64" and "used s par" and "directory s par"
    and "find_child par name s = None" and "0 < k" and "k < 64" and "\<not> used s k"
    and s': "s' = upd_node k (new_node d par name) s"
  shows "tree_ok s' \<and> extends s s'"
proof -
  note ok = tree_okD [OF assms(1)]
  note fields = new_node_fields [OF assms(1,2,8) s']
  have other: "nodes s' ! i = nodes s ! i" if "i \<noteq> k" for i
    using fields that by blast
  have ext: "extends s s'"
    unfolding extends_def using other assms(9) by metis
  have "\<exists>xs. ancestry s' i xs" if "i < 64" "used s' i" for i
  proof (cases "i = k")
    case True
    obtain xs where "ancestry s par xs"
      using ok(9) [OF assms(3,4)] by blast
    then have "ancestry s' par xs"
      by (rule ancestry_extends [OF _ ext assms(1)])
    then show ?thesis
      using True assms(3-5,7,8) fields ext by (auto simp: extends_def intro!: exI ancestry_up)
  next
    case False
    then show ?thesis
      using ok(9) [OF that(1)] that(2) other [OF False] ancestry_extends [OF _ ext assms(1)] by auto
  qed
  moreover have "name_ok (label s' i)" if "i < 64" "0 < i" "used s' i" for i
    using ok(10) [OF that(1,2)] that(3) other [of i] fields assms(2) by (cases "i = k") auto
  moreover have "used s' (current_directory s)" "directory s' (current_directory s)" "used s' 0" "directory s' 0" "up s' 0 = 0"
    using ok(2-7) ext by (auto simp: extends_def)
  moreover have "\<forall>i < 64. \<forall>j < 64. 0 < i \<and> 0 < j \<and> used s' i \<and> used s' j \<and> up s' i = up s' j \<and> label s' i = label s' j \<longrightarrow> i = j"
    using create_unique [OF assms(1,2,6), of k s'] fields by blast
  ultimately show ?thesis
    unfolding tree_ok_def using ext fields ok(5) by auto
qed

text \<open>What a successful creation gives: a fresh node that is found under the path.\<close>

lemma create_node_ok:
  assumes "tree_ok s" and "0 \<notin> set path" and "create_node path d s = (r, s')"
  shows "tree_ok s' \<and> current_directory s' = current_directory s \<and> (r \<noteq> 0 \<longrightarrow> s' = s) \<and>
    (r = 0 \<longrightarrow> extends s s' \<and> (\<exists>k. 0 < k \<and> k < 64 \<and> \<not> used s k \<and> resolve path s' = Some k \<and>
      n_is_directory (nodes s' ! k) = d \<and> n_size (nodes s' ! k) = 0 \<and> (\<forall>i. i \<noteq> k \<longrightarrow> nodes s' ! i = nodes s ! i)))"
proof (cases "s' = s \<and> r = - 1")
  case True
  then show ?thesis
    using assms(1) by simp
next
  case False
  then obtain par name k where par: "resolve_parent path s = Some (par, name)" and new: "find_child par name s = None"
    and k: "find (\<lambda>index. n_used (nodes s ! index) = 0) [1..<64] = Some k" and r: "r = 0"
    and s': "s' = upd_node k (new_node d par name) s"
    using assms(3) by (auto simp: create_node_def split: option.splits if_splits)
  have k': "0 < k" "k < 64" "\<not> used s k"
    using k by (auto simp: find_Some_iff)
  obtain segs where name: "name_ok name" and p: "par < 64" "used s par" "directory s par"
    and segs: "segments path = segs @ [name]" "walk s (start path s) segs = Some par"
    using resolve_parent_Some [OF assms(1,2) par] by blast
  note tree = create_tree [OF assms(1) name p new k' s']
  note fields = new_node_fields [OF assms(1) name k'(2) s']
  have "walk s' (start path s) segs = Some par"
    using walk_extends [OF assms(1) _ _ _ _ _ segs(2)] tree start_ok [OF assms(1)] segments_zero [OF assms(2)] segs(1) by simp
  moreover have "directory s' par"
    using tree p by (auto simp: extends_def)
  moreover have "find_child par name s' = Some k"
    using find_child_Some [of s' name par k] tree fields k' name by (simp add: name_ok_def)
  moreover have "start path s' = start path s"
    using fields by (simp add: start_def)
  ultimately have "resolve path s' = Some k"
    using walk_name [OF name, of s' par] by (simp add: resolve_walk segs(1) walk_append del: walk.simps)
  then show ?thesis
    using tree fields k' r by blast
qed

subsection \<open>Reading and writing files\<close>

text \<open>Paths do not depend on the contents of files.\<close>

lemma walk_cong:
  assumes "\<And>i. n_used (nodes s' ! i) = n_used (nodes s ! i)" and "\<And>i. n_is_directory (nodes s' ! i) = n_is_directory (nodes s ! i)"
    and "\<And>i. up s' i = up s i" and "\<And>i. n_name (nodes s' ! i) = n_name (nodes s ! i)"
  shows "walk s' node segs = walk s node segs"
  by (induction segs arbitrary: node) (simp_all add: assms find_child_def split: option.split)

lemma ancestry_cong:
  assumes "ancestry s i xs" and "\<And>i. n_used (nodes s' ! i) = n_used (nodes s ! i)"
    and "\<And>i. n_is_directory (nodes s' ! i) = n_is_directory (nodes s ! i)" and "\<And>i. up s' i = up s i"
  shows "ancestry s' i xs"
  using assms(1) by (induction rule: ancestry.induct) (auto intro: ancestry.intros simp: assms(2-4))

lemma write_tree:
  assumes "tree_ok s" and "i < 64" and "length data = 256" and "len < 256"
    and s': "s' = upd_node i (\<lambda>n. n\<lparr>n_data := data, n_size := len\<rparr>) s"
  shows "tree_ok s' \<and> resolve path s' = resolve path s"
proof -
  note ok = tree_okD [OF assms(1)]
  have i: "nodes s' ! i = (nodes s ! i)\<lparr>n_data := data, n_size := len\<rparr>" and other: "\<And>j. j \<noteq> i \<Longrightarrow> nodes s' ! j = nodes s ! j"
    and rest: "current_directory s' = current_directory s" "length (nodes s') = 64"
    using ok(1) assms(2) by (simp_all add: s' upd_node_def)
  have same: "n_used (nodes s' ! j) = n_used (nodes s ! j)" "n_is_directory (nodes s' ! j) = n_is_directory (nodes s ! j)"
    "up s' j = up s j" "n_name (nodes s' ! j) = n_name (nodes s ! j)" for j
    using i other [of j] by (cases "j = i"; simp)+
  have "node_ok (nodes s' ! j)" if "j < 64" for j
    using ok(8) [OF that] assms(3,4) other [of j] by (cases "j = i") (auto simp: i node_ok_def)
  moreover have "ancestry s' j xs" if "ancestry s j xs" for j xs
    using ancestry_cong [OF that] same by blast
  ultimately have "tree_ok s'"
    using assms(1) unfolding tree_ok_def same rest by blast
  then show ?thesis
    by (simp add: resolve_walk start_def rest walk_cong [OF same])
qed

lemma fs_write_loop_eq:
  assumes "position < 256" and "length data = 256" and "fs_write_loop data str position = (data', rest, position')"
  shows "length data' = 256 \<and> position' = min 255 (position + length str) \<and> rest = drop (255 - position) str \<and>
    take position' data' = take position data @ take (255 - position) str"
  using assms
proof (induction str arbitrary: data position)
  case (Cons c cs)
  show ?case
  proof (cases "position + 1 < 256")
    case True
    then have "255 - position = Suc (255 - (position + 1))"
      by simp
    then show ?thesis
      using Cons.IH [of "position + 1" "data[position := c]"] Cons.prems True
        take_Suc_conv_app_nth [of position "data[position := c]"] by auto
  next
    case False
    then show ?thesis
      using Cons.prems by auto
  qed
qed auto

text \<open>The contents of a file.\<close>

definition contents :: "fs_state \<Rightarrow> nat \<Rightarrow> bytes" where
  "contents s i = take (n_size (nodes s ! i)) (n_data (nodes s ! i))"

lemma fs_write_ok:
  assumes "tree_ok s" and "0 \<notin> set path" and "resolve path s = Some i" and "\<not> directory s i"
    and "fs_write path txt appending s = (r, s')"
  shows "tree_ok s' \<and> (\<forall>q. resolve q s' = resolve q s) \<and> current_directory s' = current_directory s \<and>
    n_is_directory (nodes s' ! i) = n_is_directory (nodes s ! i) \<and> (\<forall>j. j \<noteq> i \<longrightarrow> nodes s' ! j = nodes s ! j) \<and>
    (let whole = (if appending \<noteq> 0 then contents s i else []) @ txt in
     contents s' i = take 255 whole \<and> n_data (nodes s' ! i) ! n_size (nodes s' ! i) = 0 \<and> r = (if length whole \<le> 255 then 0 else - 2))"
proof -
  have i: "i < 64"
    using resolve_used [OF assms(1-3)] by blast
  note ok = tree_okD(1,8) [OF assms(1)]
  let ?n = "nodes s ! i" and ?pos = "if appending \<noteq> 0 then n_size (nodes s ! i) else 0"
  obtain data rest pos where loop: "fs_write_loop (n_data ?n) txt ?pos = (data, rest, pos)"
    by (metis prod_cases3)
  have n: "length (n_data ?n) = 256" "n_size ?n < 256" "?pos < 256"
    using ok(2) [OF i] by (simp_all add: node_ok_def)
  note props = fs_write_loop_eq [OF n(3,1) loop]
  have s': "s' = upd_node i (\<lambda>n. n\<lparr>n_data := data[pos := 0], n_size := pos\<rparr>) s" and r: "r = (if rest = [] then 0 else - 2)"
    using assms(3-5) loop props by (simp_all add: fs_write_def Let_def)
  have tree: "tree_ok s'" "\<And>q. resolve q s' = resolve q s"
    using write_tree [OF assms(1) i _ _ s'] props by simp_all
  have node: "nodes s' ! i = ?n\<lparr>n_data := data[pos := 0], n_size := pos\<rparr>" "\<forall>j. j \<noteq> i \<longrightarrow> nodes s' ! j = nodes s ! j"
    "current_directory s' = current_directory s"
    using ok(1) i by (simp_all add: s' upd_node_def)
  let ?whole = "(if appending \<noteq> 0 then contents s i else []) @ txt"
  have len: "length (if appending \<noteq> 0 then contents s i else []) = ?pos"
    using n by (simp add: contents_def)
  have "contents s' i = take pos data"
    by (simp add: contents_def node)
  also have "\<dots> = take ?pos (n_data ?n) @ take (255 - ?pos) txt"
    using props by blast
  also have "\<dots> = take 255 ?whole"
    using n len by (auto simp: contents_def)
  finally have "contents s' i = take 255 ?whole" .
  moreover have "n_data (nodes s' ! i) ! n_size (nodes s' ! i) = 0"
    using props by (simp add: node)
  moreover have "r = (if length ?whole \<le> 255 then 0 else - 2)"
    using r props len n(3) by (auto simp: contents_def split: if_splits)
  ultimately show ?thesis
    using tree node by (simp add: Let_def)
qed

subsection \<open>Removing nodes\<close>

lemma remove_tree:
  assumes "tree_ok s" and "0 < k" and "k < 64" and "k \<noteq> current_directory s"
    and leaf: "\<And>i. 0 < i \<Longrightarrow> i < 64 \<Longrightarrow> used s i \<Longrightarrow> up s i \<noteq> k" and s': "s' = upd_node k (\<lambda>n. n\<lparr>n_used := 0\<rparr>) s"
  shows "tree_ok s' \<and> \<not> used s' k"
proof -
  note ok = tree_okD [OF assms(1)]
  have k: "nodes s' ! k = (nodes s ! k)\<lparr>n_used := 0\<rparr>" and other: "\<And>i. i \<noteq> k \<Longrightarrow> nodes s' ! i = nodes s ! i"
    and rest: "current_directory s' = current_directory s" "length (nodes s') = 64"
    using ok(1) assms(3) by (simp_all add: s' upd_node_def)
  have "ancestry s' i xs" if "ancestry s i xs" "i \<noteq> k" for i xs
    using that
  proof (induction rule: ancestry.induct)
    case (ancestry_up i xs)
    then show ?case
      using leaf [of i] other [of i] other [of "up s i"] by (auto intro!: ancestry.ancestry_up)
  qed (rule ancestry_root)
  then have "\<exists>xs. ancestry s' i xs" if "i < 64" "used s' i" for i
    using ok(9) [OF that(1)] that(2) other [of i] k by (cases "i = k") auto
  moreover have "node_ok (nodes s' ! i)" if "i < 64" for i
    using ok(8) [OF that] other [of i] by (cases "i = k") (auto simp: k node_ok_def)
  moreover have old: "used s i \<and> nodes s' ! i = nodes s ! i" if "used s' i" for i
    using that other [of i] k by (cases "i = k") auto
  have "name_ok (label s' i)" if "i < 64" "0 < i" "used s' i" for i
    using ok(10) [OF that(1,2)] old [OF that(3)] by simp
  moreover have "i = j" if "i < 64" "j < 64" "0 < i" "0 < j" "used s' i" "used s' j" "up s' i = up s' j" "label s' i = label s' j" for i j
    using tree_unique [OF assms(1), of i j] that old [OF that(5)] old [OF that(6)] by simp
  moreover have "nodes s' ! 0 = nodes s ! 0" "nodes s' ! current_directory s = nodes s ! current_directory s"
    using other assms(2,4) by auto
  ultimately have "tree_ok s'"
    using rest ok(2-7) by (intro tree_okI) auto
  then show ?thesis
    using k by simp
qed

lemma fs_remove_ok:
  assumes "tree_ok s" and "0 \<notin> set path" and "fs_remove path s = (r, s')"
    and "resolve path s \<noteq> Some (current_directory s)"
  shows "tree_ok s' \<and> current_directory s' = current_directory s"
proof (cases "s' = s")
  case False
  then obtain k where k: "resolve path s = Some k" "0 < k" and s': "s' = upd_node k (\<lambda>n. n\<lparr>n_used := 0\<rparr>) s"
    and leaf: "directory s k \<Longrightarrow> \<not> list_ex (\<lambda>i. used s i \<and> up s i = k) [1..<64]"
    using assms(3) by (auto simp: fs_remove_def split: option.splits if_splits)
  have "up s i \<noteq> k" if "0 < i" "i < 64" "used s i" for i
  proof
    assume "up s i = k"
    moreover have "i \<in> set [1..<64]"
      using that by simp
    ultimately show False
      using leaf tree_up [OF assms(1) that(2,3)] that(3) unfolding list_ex_iff by blast
  qed
  then show ?thesis
    using remove_tree [OF assms(1) k(2) _ _ _ s'] resolve_used [OF assms(1,2) k(1)] k(1) assms(4)
    by (auto simp: s' upd_node_def)
qed (use assms(1) in simp)

end
