(* ===== verification/Ramfs_Spec.thy ===== *)
theory Ramfs_Spec
  imports Ramfs_Ops
begin

section \<open>What the file system in memory guarantees\<close>

text \<open>
  The properties of \<open>fs/ramfs.c\<close>: the tree is kept by every sequence of calls that does not
  remove the current directory, created nodes are found, files hold what was written,
  \<open>fs_pwd\<close> prints a path to the current directory, and removing the current directory breaks
  the tree.
\<close>

subsection \<open>The current directory as text\<close>

lemma ancestry_fun: "ancestry s i xs \<Longrightarrow> ancestry s i ys \<Longrightarrow> xs = ys"
proof (induction arbitrary: ys rule: ancestry.induct)
  case (ancestry_up i xs)
  from ancestry_up.prems show ?case
    using ancestry_up.hyps(1) ancestry_up.IH by (cases rule: ancestry.cases) auto
qed simp

lemma ancestry_mem: "ancestry s i xs \<Longrightarrow> j \<in> set xs \<Longrightarrow> \<exists>ys. ancestry s j ys \<and> length ys \<le> length xs"
proof (induction rule: ancestry.induct)
  case (ancestry_up i xs)
  show ?case
  proof (cases "j = i")
    case True
    have "ancestry s i (i # xs)"
      using ancestry_up.hyps by (rule ancestry.ancestry_up)
    then show ?thesis
      using True by auto
  next
    case False
    then show ?thesis
      using ancestry_up.IH ancestry_up.prems by force
  qed
qed simp

lemma ancestry_distinct: "ancestry s i xs \<Longrightarrow> distinct xs \<and> set xs \<subseteq> {1..<64}"
proof (induction rule: ancestry.induct)
  case (ancestry_up i xs)
  have "i \<notin> set xs"
  proof
    assume "i \<in> set xs"
    then obtain ys where "ancestry s i ys" "length ys \<le> length xs"
      using ancestry_mem [OF ancestry_up.hyps(6)] by blast
    moreover have "ancestry s i (i # xs)"
      using ancestry_up.hyps by (rule ancestry.ancestry_up)
    ultimately show False
      using ancestry_fun [of s i ys "i # xs"] by auto
  qed
  then show ?case
    using ancestry_up by auto
qed simp

lemma ancestry_length:
  assumes "ancestry s i xs"
  shows "length xs \<le> 63"
proof -
  have "card (set xs) \<le> card {1..<64 :: nat}"
    using ancestry_distinct [OF assms] by (intro card_mono) auto
  then show ?thesis
    using ancestry_distinct [OF assms] by (simp add: distinct_card)
qed

lemma pwd_chain_ancestry: "ancestry s i xs \<Longrightarrow> length xs \<le> k \<Longrightarrow> pwd_chain k i s = xs"
proof (induction arbitrary: k rule: ancestry.induct)
  case ancestry_root
  then show ?case
    by (cases k) auto
next
  case (ancestry_up i xs)
  then show ?case
    by (cases k) auto
qed

fun join_slash :: "bytes list \<Rightarrow> bytes" where
  "join_slash [] = []"
| "join_slash [a] = a"
| "join_slash (a # b # rest) = a @ slash # join_slash (b # rest)"

lemma put_chars_eq: "position + length cs \<le> length out \<Longrightarrow>
  put_chars out position cs = take position out @ cs @ drop (position + length cs) out"
proof (induction cs arbitrary: out position)
  case (Cons c cs)
  then have "take (Suc position) (out[position := c]) = take position out @ [c]"
    by (simp add: take_Suc_conv_app_nth)
  then show ?case
    using Cons.IH [of "position + 1" "out[position := c]"] Cons.prems by simp
qed simp

lemma pwd_loop_eq:
  assumes "capacity \<le> length out" and "position < capacity" and "pwd_loop chain out position capacity s = (r, out')"
  shows "let path = join_slash (map (label s) chain) in
    (r = 0 \<or> r = - 1) \<and> (r = 0 \<longleftrightarrow> chain = [] \<or> position + length path + 1 < capacity) \<and>
    (r = 0 \<longrightarrow> take (position + length path + 1) out' = take position out @ path @ [0])"
  using assms
proof (induction chain arbitrary: out position)
  case Nil
  then show ?case
    by (auto simp: take_Suc_conv_app_nth)
next
  case (Cons node chain)
  let ?name = "label s node" and ?len = "string_length (n_name (nodes s ! node))"
  have len: "?len = length ?name" "take ?len (n_name (nodes s ! node)) = ?name"
    by (simp_all add: string_length_eq takeWhile_eq_take [symmetric])
  show ?case
  proof (cases "capacity \<le> position + ?len + 1")
    case True
    then show ?thesis
      using Cons.prems len by (cases chain) (auto simp: Let_def)
  next
    case False
    define o1 where "o1 = put_chars out position ?name"
    have o1: "o1 = take position out @ ?name @ drop (position + length ?name) out" "length o1 = length out"
      using False Cons.prems(1) len by (simp_all add: o1_def put_chars_eq)
    have step: "(if chain \<noteq> [] then pwd_loop chain (o1[position + ?len := slash]) (position + ?len + 1) capacity s
        else pwd_loop chain o1 (position + ?len) capacity s) = (r, out')"
      using Cons.prems(3) [unfolded pwd_loop.simps Let_def] False unfolding len(2) o1_def by simp
    show ?thesis
    proof (cases "chain = []")
      case True
      then show ?thesis
        using Cons.IH [of o1 "position + ?len"] step False Cons.prems(1) len o1 by (simp add: Let_def)
    next
      case more: False
      define o2 where "o2 = o1[position + ?len := slash]"
      have "pwd_loop chain o2 (position + ?len + 1) capacity s = (r, out')"
        using step more by (simp add: o2_def)
      moreover have "take (position + ?len + 1) o2 = take position out @ ?name @ [slash]"
        using False Cons.prems(1) len o1 by (simp add: o2_def take_Suc_conv_app_nth)
      moreover have "join_slash (map (label s) (node # chain)) = ?name @ slash # join_slash (map (label s) chain)"
        using more by (cases chain) auto
      ultimately show ?thesis
        using Cons.IH [of o2 "position + ?len + 1"] False Cons.prems(1) more len o1 by (auto simp: Let_def o2_def add.assoc)
    qed
  qed
qed

lemma segments_join:
  "\<forall>a \<in> set names. a \<noteq> [] \<and> slash \<notin> set a \<Longrightarrow> segments (join_slash names) = names"
  by (induction names rule: join_slash.induct) (simp_all add: segments_name segments_append)

lemma length_join_slash:
  "\<forall>a \<in> set names. length a < n \<Longrightarrow> length (join_slash names) \<le> n * length names"
  by (induction names rule: join_slash.induct) auto

lemma set_join_slash: "set (join_slash names) \<subseteq> insert slash (\<Union> (set ` set names))"
  by (induction names rule: join_slash.induct) auto

lemma walk_ancestry:
  assumes "tree_ok s" and "ancestry s i xs"
  shows "walk s 0 (map (label s) (rev xs)) = Some i"
  using assms(2)
proof (induction rule: ancestry.induct)
  case (ancestry_up i xs)
  have "name_ok (label s i)"
    using tree_okD(10) [OF assms(1)] ancestry_up.hyps by blast
  then have "walk s (up s i) [label s i] = Some i"
    using find_child_Some [OF assms(1), of "label s i" "up s i" i] ancestry_up.hyps walk_name [of "label s i" s "up s i"]
    by simp
  then show ?case
    using ancestry_up.IH by (simp add: walk_append del: walk.simps(2))
qed simp

lemma ancestry_names:
  assumes "tree_ok s" and "ancestry s i xs" and "j \<in> set xs"
  shows "name_ok (label s j)"
  using assms(2,3) tree_okD(10) [OF assms(1)] by (induction rule: ancestry.induct) auto

text \<open>
  C25. \<open>fs_pwd\<close> prints a path of the current directory: when it returns 0, the text in the buffer
  resolves to the current directory, from wherever it is looked up; and a buffer of 1515 bytes
  is large enough for every tree.
\<close>

theorem fs_pwd_resolves:
  assumes "tree_ok s" and "capacity \<le> length out" and "fs_pwd out capacity s = (r, out')"
  shows "(r = 0 \<or> r = - 1) \<and> (1515 \<le> capacity \<longrightarrow> r = 0) \<and>
    (r = 0 \<longrightarrow> (\<forall>cwd. resolve (chars out') (s\<lparr>current_directory := cwd\<rparr>) = Some (current_directory s)))"
proof (cases "capacity < 2")
  case True
  then show ?thesis
    using assms(3) by (simp add: fs_pwd_def)
next
  case False
  obtain xs where xs: "ancestry s (current_directory s) xs"
    using tree_okD(5,6,9) [OF assms(1)] by blast
  let ?names = "map (label s) (rev xs)" and ?path = "join_slash (map (label s) (rev xs))"
  have names: "\<forall>a \<in> set ?names. name_ok a"
    using ancestry_names [OF assms(1) xs] by auto
  have "pwd_loop (rev xs) (out[0 := slash]) 1 capacity s = (r, out')"
    using assms(3) False pwd_chain_ancestry [OF xs, of 64] ancestry_length [OF xs] by (simp add: fs_pwd_def)
  then have loop: "(r = 0 \<or> r = - 1) \<and> (r = 0 \<longleftrightarrow> rev xs = [] \<or> 1 + length ?path + 1 < capacity) \<and>
      (r = 0 \<longrightarrow> take (1 + length ?path + 1) out' = take 1 (out[0 := slash]) @ ?path @ [0])"
    using pwd_loop_eq [of capacity "out[0 := slash]" 1 "rev xs" s r out'] False assms(2) by (auto simp: Let_def)
  have "length ?path \<le> 24 * 63"
    using length_join_slash [of ?names 24] names ancestry_length [OF xs] by (fastforce simp: name_ok_def)
  then have "1515 \<le> capacity \<longrightarrow> r = 0"
    using loop by auto
  moreover have "resolve (chars out') (s\<lparr>current_directory := cwd\<rparr>) = Some (current_directory s)" if "r = 0" for cwd
  proof -
    have "take (length ?path + 2) out' = slash # ?path @ [0]"
      using loop that False assms(2) by (cases out) auto
    then have out': "out' = slash # ?path @ 0 # drop (length ?path + 2) out'"
      by (metis append_take_drop_id append_Cons append_assoc append_Nil)
    have "0 \<notin> set ?path"
      using names set_join_slash [of ?names] by (auto simp: name_ok_def)
    then have "chars out' = slash # ?path"
      by (subst out') (simp add: takeWhile_append chars_id)
    moreover have "segments ?path = ?names"
      using names by (intro segments_join) (auto simp: name_ok_def)
    ultimately show ?thesis
      using walk_ancestry [OF assms(1) xs] by (simp add: resolve_walk start_def walk_cong [of "s\<lparr>current_directory := cwd\<rparr>" s])
  qed
  ultimately show ?thesis
    using loop by blast
qed

subsection \<open>The tree under all operations\<close>

definition blank :: "fs_state \<Rightarrow> bool" where
  "blank s \<longleftrightarrow> length (nodes s) = 64 \<and> (\<forall>i < 64. node_ok (nodes s ! i))"

lemma init_nodes_tree:
  assumes "blank s"
  shows "tree_ok (init_nodes s)"
proof -
  have len: "length (nodes s) = 64" and nodes: "\<And>i. i < 64 \<Longrightarrow> node_ok (nodes s ! i)"
    using assms by (auto simp: blank_def)
  have root: "used (init_nodes s) 0" "directory (init_nodes s) 0" "up (init_nodes s) 0 = 0" "current_directory (init_nodes s) = 0"
    "length (nodes (init_nodes s)) = 64"
    using len by (auto simp: init_nodes_def Let_def)
  have rest: "\<not> used (init_nodes s) i" if "0 < i" "i < 64" for i
    using that len by (simp add: init_nodes_def Let_def)
  have "node_ok (nodes (init_nodes s) ! i)" if "i < 64" for i
    using that len nodes [OF that] by (cases "i = 0") (auto simp: init_nodes_def Let_def node_ok_def)
  moreover have "\<exists>xs. ancestry (init_nodes s) i xs" if "i < 64" "used (init_nodes s) i" for i
    using rest [of i] that by (cases "i = 0") auto
  ultimately show ?thesis
    using root rest by (intro tree_okI) auto
qed

lemma create_keeps_tree:
  assumes "tree_ok s" and "0 \<notin> set path"
  shows "tree_ok (snd (create_node path d s))"
  using create_node_ok [OF assms surjective_pairing] by blast

lemma mkdir_tree: "tree_ok s \<Longrightarrow> 0 \<notin> set path \<Longrightarrow> tree_ok (snd (fs_mkdir path s))"
  by (simp add: fs_mkdir_def create_keeps_tree)

lemma touch_tree: "tree_ok s \<Longrightarrow> 0 \<notin> set path \<Longrightarrow> tree_ok (snd (fs_touch path s))"
  by (simp add: fs_touch_def create_keeps_tree split: option.split)

lemma write_keeps_tree:
  assumes "tree_ok s" and "0 \<notin> set path"
  shows "tree_ok (snd (fs_write path str appending s))"
proof (cases "\<exists>i. resolve path s = Some i \<and> \<not> directory s i")
  case True
  then obtain i where "resolve path s = Some i" "\<not> directory s i"
    by blast
  then show ?thesis
    using fs_write_ok [OF assms _ _ surjective_pairing] by blast
next
  case False
  then have "snd (fs_write path str appending s) = s"
    by (auto simp: fs_write_def split: option.splits)
  then show ?thesis
    using assms(1) by simp
qed

lemma chdir_tree:
  assumes "tree_ok s" and "0 \<notin> set path"
  shows "tree_ok (snd (fs_chdir path s))"
proof (cases "\<exists>i. resolve path s = Some i \<and> directory s i")
  case True
  then obtain i where i: "resolve path s = Some i" "directory s i"
    by blast
  have "ancestry (s\<lparr>current_directory := i\<rparr>) j xs" if "ancestry s j xs" for j xs
    using that by (rule ancestry_cong) auto
  then have "\<exists>xs. ancestry (s\<lparr>current_directory := i\<rparr>) j xs" if "j < 64" "used s j" for j
    using tree_okD(9) [OF assms(1) that] by blast
  then have "tree_ok (s\<lparr>current_directory := i\<rparr>)"
    using resolve_used [OF assms i(1)] i(2) tree_okD [OF assms(1)] tree_unique [OF assms(1)] by (intro tree_okI) auto
  then show ?thesis
    using i by (simp add: fs_chdir_def)
next
  case False
  then have "snd (fs_chdir path s) = s"
    by (auto simp: fs_chdir_def split: option.splits)
  then show ?thesis
    using assms(1) by simp
qed

lemmas fs_trees = mkdir_tree touch_tree write_keeps_tree chdir_tree

lemma fs_init_tree:
  assumes "blank s"
  shows "tree_ok (fs_init s)"
  unfolding fs_init_def Let_def
  by (intro fs_trees init_nodes_tree assms) (simp_all add: text_of_def)

text \<open>The calls of the shell, a removal of the current directory left out.\<close>

inductive fs_step :: "fs_state \<Rightarrow> fs_state \<Rightarrow> bool" where
  step_chdir: "0 \<notin> set path \<Longrightarrow> fs_chdir path s = (r, t) \<Longrightarrow> fs_step s t"
| step_mkdir: "0 \<notin> set path \<Longrightarrow> fs_mkdir path s = (r, t) \<Longrightarrow> fs_step s t"
| step_touch: "0 \<notin> set path \<Longrightarrow> fs_touch path s = (r, t) \<Longrightarrow> fs_step s t"
| step_write: "0 \<notin> set path \<Longrightarrow> fs_write path str appending s = (r, t) \<Longrightarrow> fs_step s t"
| step_remove: "0 \<notin> set path \<Longrightarrow> resolve path s \<noteq> Some (current_directory s) \<Longrightarrow> fs_remove path s = (r, t) \<Longrightarrow> fs_step s t"

interpretation ramfs: invariant_machine "\<lambda>s. \<exists>s0. blank s0 \<and> s = fs_init s0" fs_step tree_ok
proof
  show "tree_ok s" if "\<exists>s0. blank s0 \<and> s = fs_init s0" for s
    using that fs_init_tree by blast
  show "tree_ok t" if "tree_ok s" "fs_step s t" for s t
    using that(2)
  proof cases
    case (step_remove path r)
    then show ?thesis
      using fs_remove_ok [OF that(1)] by blast
  qed (use fs_trees [OF that(1)] in \<open>metis snd_conv\<close>)+
qed

lemma ancestry_iterate: "ancestry s i xs \<Longrightarrow> (up s ^^ length xs) i = 0"
  by (induction rule: ancestry.induct) (simp_all add: funpow_Suc_right del: funpow.simps(2))

text \<open>
  C22. After \<open>fs_init\<close> and every sequence of calls that does not remove the current directory, the
  nodes form a tree: each used node has a used directory as its parent and leads up to the root,
  the current directory is a used directory, every name is a proper file name, and no two nodes
  of a directory have the same name.
\<close>

theorem fs_tree_invariant:
  assumes "length (nodes s0) = 64" and "\<forall>n \<in> set (nodes s0). node_ok n" and "fs_step\<^sup>*\<^sup>* (fs_init s0) s"
  shows "(\<forall>i < 64. used s i \<longrightarrow> up s i < 64 \<and> used s (up s i) \<and> directory s (up s i) \<and> (\<exists>k. (up s ^^ k) i = 0)) \<and>
    current_directory s < 64 \<and> used s (current_directory s) \<and> directory s (current_directory s) \<and>
    (\<forall>i \<in> {1..<64}. used s i \<longrightarrow> name_ok (label s i)) \<and>
    (\<forall>i \<in> {1..<64}. \<forall>j \<in> {1..<64}. used s i \<and> used s j \<and> up s i = up s j \<and> label s i = label s j \<longrightarrow> i = j)"
proof -
  have "blank s0"
    using assms(1,2) by (simp add: blank_def)
  then have ok: "tree_ok s"
    using ramfs.reachable_inv [of "fs_init s0" s] assms(3) by blast
  have "\<exists>k. (up s ^^ k) i = 0" if "i < 64" "used s i" for i
    using tree_okD(9) [OF ok that] ancestry_iterate by blast
  then show ?thesis
    using tree_up [OF ok] tree_okD [OF ok] tree_unique [OF ok] by auto
qed

subsection \<open>Creating, writing and removing\<close>

lemma resolve_extends:
  assumes "tree_ok s" and "tree_ok s'" and "extends s s'" and "current_directory s' = current_directory s"
    and "0 \<notin> set path" and "resolve path s = Some i"
  shows "resolve path s' = Some i"
proof -
  have "walk s' (start path s) (segments path) = Some i"
    using walk_extends [OF assms(1-3)] start_ok [OF assms(1)] segments_zero [OF assms(5)] assms(6) by (simp add: resolve_walk)
  moreover have "start path s' = start path s"
    using assms(4) by (simp add: start_def)
  ultimately show ?thesis
    by (simp add: resolve_walk)
qed

text \<open>
  C23. A created file or directory is found under the path it was created with, in a node that was
  free before, and it is empty. All other nodes are as before and every path that led somewhere
  leads to the same node. A call that fails changes nothing.
\<close>

theorem fs_create_resolves:
  assumes "tree_ok s" and "0 \<notin> set path"
    and "fs_mkdir path s = (r, s') \<and> dir \<or> resolve path s = None \<and> fs_touch path s = (r, s') \<and> \<not> dir"
  shows "if r = 0
    then (\<exists>k < 64. \<not> used s k \<and> resolve path s' = Some k \<and> directory s' k = dir \<and> contents s' k = [] \<and>
        (\<forall>i. i \<noteq> k \<longrightarrow> nodes s' ! i = nodes s ! i)) \<and>
      (\<forall>q i. 0 \<notin> set q \<and> resolve q s = Some i \<longrightarrow> resolve q s' = Some i)
    else s' = s"
proof -
  have create: "create_node path (if dir then 1 else 0) s = (r, s')"
    using assms(3) by (auto simp: fs_mkdir_def fs_touch_def)
  note ok = create_node_ok [OF assms(1,2) create]
  show ?thesis
  proof (cases "r = 0")
    case True
    then obtain k where "k < 64" "\<not> used s k" "resolve path s' = Some k" "n_is_directory (nodes s' ! k) = (if dir then 1 else 0)"
      "n_size (nodes s' ! k) = 0" "\<forall>i. i \<noteq> k \<longrightarrow> nodes s' ! i = nodes s ! i"
      using ok by blast
    then have "\<exists>k < 64. \<not> used s k \<and> resolve path s' = Some k \<and> directory s' k = dir \<and> contents s' k = [] \<and>
        (\<forall>i. i \<noteq> k \<longrightarrow> nodes s' ! i = nodes s ! i)"
      by (intro exI [of _ k]) (simp add: contents_def)
    moreover have "resolve q s' = Some i" if "0 \<notin> set q" "resolve q s = Some i" for q i
      using resolve_extends [OF assms(1) _ _ _ that] ok True by blast
    ultimately show ?thesis
      using True by simp
  qed (use ok in simp)
qed

text \<open>
  C24. A file holds what was written to it. After \<open>fs_write\<close> to a file, \<open>fs_read\<close> of the same path
  gives the text, behind the old contents when appending, cut to the 255 characters a file can
  hold, with a zero behind it; the result is 0 exactly when nothing was cut off. No other node
  changes and every path leads where it did.
\<close>

theorem fs_write_read:
  assumes "tree_ok s" and "0 \<notin> set path" and "resolve path s = Some i" and "\<not> directory s i"
    and "fs_write path str appending s = (r, s')"
  shows "let whole = (if appending \<noteq> 0 then contents s i else []) @ str in
    r = (if length whole \<le> 255 then 0 else - 2) \<and>
    (\<exists>data len. fs_read path s' = (0, Some (data, len)) \<and> take len data = take 255 whole \<and> data ! len = 0) \<and>
    (\<forall>j. j \<noteq> i \<longrightarrow> nodes s' ! j = nodes s ! j) \<and> (\<forall>q. resolve q s' = resolve q s)"
  using fs_write_ok [OF assms] assms(3,4) by (simp add: Let_def fs_read_def contents_def)

lemma split_loop_none: "slash \<notin> set path \<Longrightarrow> n \<le> length path \<Longrightarrow> split_loop path n = 0"
  by (induction n) (auto simp: in_set_conv_nth Suc_le_eq)

lemma mkdir_here:
  assumes "name_ok name" and "find_child (current_directory s) name s = None"
    and "0 < k" and "k < 64" and "\<not> used s k" and "\<And>j. 0 < j \<Longrightarrow> j < k \<Longrightarrow> used s j"
  shows "fs_mkdir name s = (0, upd_node k (new_node 1 (current_directory s) name) s)"
proof -
  have len: "string_length name = length name" "split_loop name (length name) = 0"
    using assms(1) split_loop_none [of name "length name"] by (auto simp: name_ok_def string_length_eq chars_id)
  have "name ! (length name - 1) \<in> set name"
    using assms(1) by (intro nth_mem) (simp add: name_ok_def)
  then have "name ! (length name - 1) \<noteq> slash"
    using assms(1) unfolding name_ok_def by metis
  with len have "resolve_parent name s = Some (current_directory s, name)"
    using assms(1) by (simp add: resolve_parent_def name_ok_def string_equal_iff chars_id)
  moreover have "find (\<lambda>i. n_used (nodes s ! i) = 0) [1..<64] = Some k"
    unfolding find_Some_iff using assms(3-6) by (intro exI [of _ "k - 1"]) auto
  ultimately show ?thesis
    using assms(2) by (simp add: fs_mkdir_def create_node_def)
qed








subsection \<open>A small tree\<close>

text \<open>The root with a directory \<open>a\<close>, which is the current one, and a file \<open>f\<close>.\<close>

definition tree_node :: "nat \<Rightarrow> nat \<Rightarrow> bytes \<Rightarrow> fs_node_t" where
  "tree_node u d name = \<lparr>n_used = u, n_is_directory = d, n_parent = 0, n_size = 0,
     n_name = name @ replicate (24 - length name) 0, n_data = replicate 256 0\<rparr>"

definition tree_example :: fs_state where
  "tree_example = \<lparr>nodes = tree_node 1 1 [] # tree_node 1 1 [97] # tree_node 1 0 [102] # replicate 61 (tree_node 0 0 []),
     current_directory = 1\<rparr>"

lemma tree_example_nodes:
  "nodes tree_example ! 0 = tree_node 1 1 []" "nodes tree_example ! 1 = tree_node 1 1 [97]"
  "nodes tree_example ! 2 = tree_node 1 0 [102]" "\<And>i. 2 < i \<Longrightarrow> i < 64 \<Longrightarrow> nodes tree_example ! i = tree_node 0 0 []"
  by (simp_all add: tree_example_def nth_Cons')

lemma tree_node_fields [simp]:
  "n_used (tree_node u d name) = u" "n_is_directory (tree_node u d name) = d" "n_parent (tree_node u d name) = 0"
  "0 \<notin> set name \<Longrightarrow> length name < 24 \<Longrightarrow> chars (n_name (tree_node u d name)) = name"
  "length name < 24 \<Longrightarrow> node_ok (tree_node u d name)"
  by (auto simp: tree_node_def node_ok_def takeWhile_append chars_id takeWhile_eq_Nil_iff)

lemma tree_example_cases: "i < 64 \<Longrightarrow> i = 0 \<or> i = 1 \<or> i = 2 \<or> 2 < i \<and> \<not> used tree_example i"
  using tree_example_nodes(4) [of i] by auto

lemma tree_example_ok: "tree_ok tree_example"
proof (rule tree_okI)
  have root: "ancestry tree_example 0 []"
    by (rule ancestry_root)
  show "\<exists>xs. ancestry tree_example i xs" if "i < 64" "used tree_example i" for i
  proof (cases "i = 0")
    case False
    then have "ancestry tree_example i [i]"
      using that tree_example_cases [OF that(1)] root tree_example_nodes by (intro ancestry_up) auto
    then show ?thesis ..
  qed (use root in blast)
  show "name_ok (label tree_example i)" if "i < 64" "0 < i" "used tree_example i" for i
    using tree_example_cases [OF that(1)] that tree_example_nodes by (auto simp: name_ok_def)
  show "i = j" if "i < 64" "j < 64" "0 < i" "0 < j" "used tree_example i" "used tree_example j"
    "up tree_example i = up tree_example j" "label tree_example i = label tree_example j" for i j
    using tree_example_cases [OF that(1)] tree_example_cases [OF that(2)] that tree_example_nodes by auto
  show "node_ok (nodes tree_example ! i)" if "i < 64" for i
    using tree_example_cases [OF that] tree_example_nodes that by auto
  show "length (nodes tree_example) = 64" "current_directory tree_example < 64"
    by (simp_all add: tree_example_def)
qed (simp_all add: tree_example_def)

lemma tree_example_resolve: "resolve [47, 97] tree_example = Some 1" "resolve [47, 102] tree_example = Some 2"
proof -
  have "find_child 0 [97] tree_example = Some 1" "find_child 0 [102] tree_example = Some 2"
    using find_child_Some [OF tree_example_ok, of "[97]" 0 1] find_child_Some [OF tree_example_ok, of "[102]" 0 2]
      tree_example_nodes by simp_all
  then show "resolve [47, 97] tree_example = Some 1" "resolve [47, 102] tree_example = Some 2"
    using walk_name [of "[97]" tree_example 0] walk_name [of "[102]" tree_example 0] tree_example_nodes
    by (simp_all add: resolve_walk start_def segments_name name_ok_def del: walk.simps)
qed

theorem fs_pwd_resolves_witness:
  "\<exists>out'. fs_pwd (replicate 2000 0) 2000 tree_example = (0, out') \<and> resolve (chars out') tree_example = Some 1"
proof -
  obtain r out' where pwd: "fs_pwd (replicate 2000 0) 2000 tree_example = (r, out')"
    by fastforce
  have "tree_example\<lparr>current_directory := 1\<rparr> = tree_example" "current_directory tree_example = 1"
    by (simp_all add: tree_example_def)
  moreover have "r = 0 \<and> (\<forall>cwd. resolve (chars out') (tree_example\<lparr>current_directory := cwd\<rparr>) = Some (current_directory tree_example))"
    using fs_pwd_resolves [OF tree_example_ok _ pwd] by simp
  ultimately show ?thesis
    using pwd by metis
qed

theorem fs_tree_invariant_witness: "current_directory (fs_init tree_example) < 64"
proof -
  have "length (nodes tree_example) = 64" "\<forall>n \<in> set (nodes tree_example). node_ok n"
    by (auto simp: tree_example_def)
  then show ?thesis
    using fs_tree_invariant [OF _ _ rtranclp.rtrancl_refl] by blast
qed

theorem fs_create_resolves_witness:
  "\<exists>s' k. fs_mkdir [98] tree_example = (0, s') \<and> resolve [98] s' = Some k \<and> directory s' k"
proof -
  have "\<not> (used tree_example i \<and> up tree_example i = 1)" if "i < 64" for i
    using tree_example_cases [OF that] tree_example_nodes by auto
  moreover have zero: "0 \<notin> set [98 :: u8]"
    by simp
  ultimately have "find_child 1 [98] tree_example = None"
    unfolding find_child_None [OF zero] by blast
  moreover have "used tree_example j" if "0 < j" "j < 3" for j
  proof -
    have "j = 1 \<or> j = 2"
      using that by auto
    then show ?thesis
      using tree_example_nodes by auto
  qed
  moreover have "current_directory tree_example = 1" "\<not> used tree_example 3"
    using tree_example_nodes(4) [of 3] by (simp_all add: tree_example_def)
  ultimately have mkdir: "fs_mkdir [98] tree_example = (0, upd_node 3 (new_node 1 (current_directory tree_example) [98]) tree_example)"
    by (intro mkdir_here) (simp_all add: name_ok_def)
  then show ?thesis
    using fs_create_resolves [OF tree_example_ok, of "[98]" 0 _ True] by fastforce
qed

theorem fs_write_read_witness:
  "\<exists>s' data len. fs_write [47, 102] [104, 105] 0 tree_example = (0, s') \<and> fs_read [47, 102] s' = (0, Some (data, len)) \<and>
     take len data = [104, 105]"
proof -
  obtain r s' where w: "fs_write [47, 102] [104, 105] 0 tree_example = (r, s')"
    by fastforce
  then show ?thesis
    using fs_write_read [OF tree_example_ok _ tree_example_resolve(2) _ w] tree_example_nodes by (auto simp: Let_def)
qed


end
