(* ===== verification/Klog.thy ===== *)
theory Klog
  imports Prelude
begin

section \<open>The kernel log\<close>

text \<open>
  The ring buffer of \<open>core/log.c\<close>. The console, to which a character also goes when it is
  switched on, is a parameter: a function \<open>put\<close> on a state of the devices, which stands for
  \<open>serial_put\<close> and \<open>vga_put\<close> in this order. The tick counter is an argument. Strings are the
  lists of their characters.
\<close>

abbreviation KLOG_CAPACITY :: nat where "KLOG_CAPACITY \<equiv> 16384"

record 'w klog_state =
  log_buffer :: bytes
  log_start :: nat
  log_length :: nat
  console_enabled :: nat
  console :: 'w

definition log_put :: "(u8 \<Rightarrow> 'w \<Rightarrow> 'w) \<Rightarrow> u8 \<Rightarrow> 'w klog_state \<Rightarrow> 'w klog_state" where
  "log_put put value s =
     (let (position, s) =
        (if log_length s < KLOG_CAPACITY
         then ((log_start s + log_length s) mod KLOG_CAPACITY, s\<lparr>log_length := log_length s + 1\<rparr>)
         else (log_start s, s\<lparr>log_start := (log_start s + 1) mod KLOG_CAPACITY\<rparr>));
          s = s\<lparr>log_buffer := (log_buffer s)[position := value]\<rparr> in
      if console_enabled s \<noteq> 0 then s\<lparr>console := put value (console s)\<rparr> else s)"

fun log_text :: "(u8 \<Rightarrow> 'w \<Rightarrow> 'w) \<Rightarrow> bytes \<Rightarrow> 'w klog_state \<Rightarrow> 'w klog_state" where
  "log_text put [] s = s"
| "log_text put (c # cs) s = log_text put cs (log_put put c s)"

text \<open>The digits are collected with the lowest first and written from the end.\<close>

fun number_digits :: "nat \<Rightarrow> bytes" where
  "number_digits value = (if value = 0 then [] else word_of_nat (48 + value mod 10) # number_digits (value div 10))"

declare number_digits.simps [simp del]

definition log_number :: "(u8 \<Rightarrow> 'w \<Rightarrow> 'w) \<Rightarrow> u64 \<Rightarrow> 'w klog_state \<Rightarrow> 'w klog_state" where
  "log_number put value s = (if value = 0 then log_put put 48 s else log_text put (rev (number_digits (unat value))) s)"

definition klog_init :: "'w klog_state \<Rightarrow> 'w klog_state" where
  "klog_init s = s\<lparr>log_start := 0, log_length := 0, console_enabled := 0\<rparr>"

definition klog_write_category ::
  "(u8 \<Rightarrow> 'w \<Rightarrow> 'w) \<Rightarrow> u64 \<Rightarrow> bytes \<Rightarrow> bytes \<Rightarrow> bytes \<Rightarrow> 'w klog_state \<Rightarrow> 'w klog_state" where
  "klog_write_category put ticks level category message s =
     (let s = log_put put 91 s;
          s = log_number put ticks s;
          s = log_put put 93 s;
          s = log_put put 91 s;
          s = log_text put level s;
          s = log_put put 93 s;
          s = log_put put 91 s;
          s = log_text put category s;
          s = log_put put 93 s;
          s = log_put put 32 s;
          s = log_text put message s in
      log_put put 10 s)"

definition klog_write :: "(u8 \<Rightarrow> 'w \<Rightarrow> 'w) \<Rightarrow> u64 \<Rightarrow> bytes \<Rightarrow> bytes \<Rightarrow> 'w klog_state \<Rightarrow> 'w klog_state" where
  "klog_write put ticks level message s = klog_write_category put ticks level [107, 101, 114, 110, 101, 108] message s"

definition klog_set_console :: "nat \<Rightarrow> 'w klog_state \<Rightarrow> 'w klog_state" where
  "klog_set_console enabled s = s\<lparr>console_enabled := enabled\<rparr>"

definition klog_size :: "'w klog_state \<Rightarrow> nat" where
  "klog_size s = log_length s"

fun klog_copy_loop :: "nat \<Rightarrow> nat \<Rightarrow> 'w klog_state \<Rightarrow> bytes \<Rightarrow> bytes" where
  "klog_copy_loop index 0 s out = out"
| "klog_copy_loop index (Suc n) s out =
     klog_copy_loop (index + 1) n s (out[index := log_buffer s ! ((log_start s + index) mod KLOG_CAPACITY)])"

definition klog_copy :: "bytes \<Rightarrow> nat \<Rightarrow> 'w klog_state \<Rightarrow> nat \<times> bytes" where
  "klog_copy out capacity s =
     (if capacity = 0 then (0, out)
      else let count = (if capacity \<le> log_length s then capacity - 1 else log_length s) in
        (count, (klog_copy_loop 0 count s out)[count := 0]))"

subsection \<open>Rings\<close>

text \<open>The \<open>len\<close> elements of a ring of size \<open>N\<close> from a start position on.\<close>

definition ring :: "nat \<Rightarrow> 'a list \<Rightarrow> nat \<Rightarrow> nat \<Rightarrow> 'a list" where
  "ring N buf start len = map (\<lambda>k. buf ! ((start + k) mod N)) [0..<len]"

lemma ring_inj:
  fixes start :: nat
  assumes "(start + j) mod N = (start + k) mod N" and "j < N" and "k < N"
  shows "j = k"
proof -
  have "N dvd (start + k) - (start + j)" if "j \<le> k"
    using assms(1) that by (subst mod_eq_dvd_iff_nat [symmetric]) simp_all
  moreover have "N dvd (start + j) - (start + k)" if "k \<le> j"
    using assms(1) that by (subst mod_eq_dvd_iff_nat [symmetric]) simp_all
  ultimately show ?thesis
    using assms(2,3) by (cases j k rule: le_cases) (auto dest: dvd_imp_le)
qed

lemma ring_room:
  assumes "length buf = N" and "len < N"
  shows "ring N (buf[(start + len) mod N := c]) start (len + 1) = ring N buf start len @ [c]"
proof -
  have "(start + len) mod N \<noteq> (start + k) mod N" if "k < len" for k
    using ring_inj [of start k N len] that assms(2) by auto
  then show ?thesis
    using assms by (auto simp: ring_def)
qed

lemma ring_full:
  assumes "length buf = N" and "start < N"
  shows "ring N (buf[start := c]) ((start + 1) mod N) N = tl (ring N buf start N) @ [c]"
proof (rule nth_equalityI)
  fix k
  assume "k < length (ring N (buf[start := c]) ((start + 1) mod N) N)"
  then have k: "k < N"
    by (simp add: ring_def)
  have step: "((start + 1) mod N + k) mod N = (start + (k + 1)) mod N"
    unfolding mod_add_left_eq by (simp add: ac_simps)
  show "ring N (buf[start := c]) ((start + 1) mod N) N ! k = (tl (ring N buf start N) @ [c]) ! k"
  proof (cases "k + 1 < N")
    case True
    have "(start + (k + 1)) mod N \<noteq> start"
      using ring_inj [of start "k + 1" N 0] True assms(2) by auto
    moreover have "k < N - 1"
      using True by simp
    ultimately show ?thesis
      using k step True by (simp add: ring_def nth_append nth_tl)
  next
    case False
    then have "start + (k + 1) = start + N"
      using k by simp
    then have "(start + (k + 1)) mod N = start"
      using assms(2) by simp
    moreover have "k = N - 1"
      using False k by simp
    ultimately show ?thesis
      using k step assms by (simp add: ring_def nth_append)
  qed
qed (use assms in \<open>simp add: ring_def\<close>)

subsection \<open>The log as a queue\<close>

definition log_ok :: "'w klog_state \<Rightarrow> bool" where
  "log_ok s \<longleftrightarrow> length (log_buffer s) = KLOG_CAPACITY \<and> log_start s < KLOG_CAPACITY \<and> log_length s \<le> KLOG_CAPACITY"

text \<open>What the log holds, oldest character first, and the newest characters that fit.\<close>

definition log_contents :: "'w klog_state \<Rightarrow> bytes" where
  "log_contents s = ring KLOG_CAPACITY (log_buffer s) (log_start s) (log_length s)"

definition newest :: "bytes \<Rightarrow> bytes" where
  "newest cs = drop (length cs - KLOG_CAPACITY) cs"

lemma length_ring [simp]: "length (ring N buf start len) = len"
  by (simp add: ring_def)

lemma newest_newest: "newest (newest a @ b) = newest (a @ b)"
proof (cases "length a \<le> KLOG_CAPACITY")
  case False
  then have "drop (length a - KLOG_CAPACITY) a @ b = drop (length a - KLOG_CAPACITY) (a @ b)"
    by simp
  then show ?thesis
    using False by (simp add: newest_def add.commute del: drop_append)
qed (simp add: newest_def)

lemma log_put_ok:
  assumes "log_ok s"
  shows "log_ok (log_put put c s) \<and> log_contents (log_put put c s) = newest (log_contents s @ [c])"
proof (cases "log_length s < KLOG_CAPACITY")
  case True
  then have "log_contents (log_put put c s) = log_contents s @ [c]"
    using assms ring_room [of "log_buffer s" KLOG_CAPACITY "log_length s" "log_start s" c]
    by (simp add: log_put_def log_contents_def log_ok_def Let_def)
  moreover have "log_ok (log_put put c s)"
    using True assms by (simp add: log_put_def log_ok_def Let_def)
  ultimately show ?thesis
    using True by (simp add: newest_def log_contents_def)
next
  case False
  then have len: "log_length s = KLOG_CAPACITY"
    using assms by (simp add: log_ok_def)
  then have "log_contents (log_put put c s) = tl (log_contents s) @ [c]"
    using assms ring_full [of "log_buffer s" KLOG_CAPACITY "log_start s" c]
    by (simp add: log_put_def log_contents_def log_ok_def Let_def)
  moreover have "log_ok (log_put put c s)"
    using len assms by (simp add: log_put_def log_ok_def Let_def)
  moreover have "newest (log_contents s @ [c]) = tl (log_contents s) @ [c]"
    using len by (simp add: newest_def log_contents_def drop_Suc)
  ultimately show ?thesis
    by simp
qed

lemma log_text_ok:
  "log_ok s \<Longrightarrow> log_ok (log_text put cs s) \<and> log_contents (log_text put cs s) = newest (log_contents s @ cs)"
proof (induction cs arbitrary: s)
  case Nil
  then show ?case
    by (simp add: log_contents_def newest_def log_ok_def)
next
  case (Cons c cs)
  then show ?case
    using log_put_ok [OF Cons.prems, of put c] Cons.IH [of "log_put put c s"] by (simp add: newest_newest)
qed

subsection \<open>Lines and copies\<close>

lemma number_digits_value:
  "n < 2 ^ 64 \<Longrightarrow> foldl (\<lambda>v c. 10 * v + (unat c - 48)) 0 (rev (number_digits n)) = n \<and>
   (\<forall>c \<in> set (number_digits n). 48 \<le> c \<and> c \<le> 57)"
proof (induction n rule: number_digits.induct)
  case (1 n)
  show ?case
  proof (cases "n = 0")
    case False
    have "unat (word_of_nat k :: u8) = k" if "k < 256" for k
      using that by (simp add: unat_of_nat)
    from this [of "48 + n mod 10"] have digit: "unat (word_of_nat (48 + n mod 10) :: u8) = 48 + n mod 10"
      using mod_less_divisor [of 10 n] by linarith
    then have "48 \<le> (word_of_nat (48 + n mod 10) :: u8) \<and> (word_of_nat (48 + n mod 10) :: u8) \<le> 57"
      by (simp add: word_le_nat_alt)
    then show ?thesis
      using 1 False digit by (simp add: number_digits.simps [of n])
  qed (simp add: number_digits.simps)
qed

lemma number_digits_leading:
  "n \<noteq> 0 \<Longrightarrow> number_digits n \<noteq> [] \<and> last (number_digits n) \<noteq> 48"
proof (induction n rule: number_digits.induct)
  case (1 n)
  show ?case
  proof (cases "n div 10 = 0")
    case True
    then have "n < 10"
      by (simp add: div_eq_0_iff)
    have "unat (word_of_nat k :: u8) = k" if "k < 256" for k
      using that by (simp add: unat_of_nat)
    from this [of "48 + n"] have "unat (word_of_nat (48 + n) :: u8) = 48 + n"
      using \<open>n < 10\<close> by linarith
    then have "(word_of_nat (48 + n) :: u8) \<noteq> 48"
      using "1.prems" by auto
    then show ?thesis
      using True "1.prems" \<open>n < 10\<close> by (simp add: number_digits.simps [of n] number_digits.simps [of 0])
  next
    case False
    then show ?thesis
      using "1.IH" "1.prems" by (simp add: number_digits.simps [of n])
  qed
qed

text \<open>The decimal numeral of a number: digits only, at least one, and no leading zero.\<close>

definition decimal :: "bytes \<Rightarrow> nat \<Rightarrow> bool" where
  "decimal ds n \<longleftrightarrow> ds \<noteq> [] \<and> (\<forall>c \<in> set ds. 48 \<le> c \<and> c \<le> 57) \<and> (hd ds = 48 \<longrightarrow> ds = [48]) \<and>
     foldl (\<lambda>v c. 10 * v + (unat c - 48)) 0 ds = n"

lemma log_number_decimal:
  "\<exists>ds. decimal ds (unat value) \<and> (\<forall>s. log_number put value s = log_text put ds s)"
proof (cases "value = 0")
  case False
  then have "unat value \<noteq> 0" and "unat value < 2 ^ 64"
    using unsigned_less [of "value"] by (simp_all add: unat_eq_0)
  then have "decimal (rev (number_digits (unat value))) (unat value)"
    using number_digits_value [of "unat value"] number_digits_leading [of "unat value"] by (simp add: decimal_def hd_rev)
  then show ?thesis
    using False by (auto simp: log_number_def)
qed (auto simp: log_number_def decimal_def intro: exI [of _ "[48]"])

lemma log_text_console:
  "console (log_text put cs s) = (if console_enabled s \<noteq> 0 then fold put cs (console s) else console s) \<and>
   console_enabled (log_text put cs s) = console_enabled s"
  by (induction cs arbitrary: s) (simp_all add: log_put_def Let_def)

lemma klog_copy_loop_eq:
  "index + n \<le> length out \<Longrightarrow> klog_copy_loop index n s out =
     take index out @ map (\<lambda>k. log_buffer s ! ((log_start s + k) mod KLOG_CAPACITY)) [index..<index + n] @ drop (index + n) out"
proof (induction n arbitrary: index out)
  case (Suc n)
  let ?c = "log_buffer s ! ((log_start s + index) mod KLOG_CAPACITY)"
  have "take (index + 1) (out[index := ?c]) = take index out @ [?c]"
    using Suc.prems by (simp add: take_Suc_conv_app_nth)
  then show ?case
    using Suc.IH [of "index + 1" "out[index := ?c]"] Suc.prems upt_conv_Cons [of index "index + Suc n"] by (simp del: upt_Suc)
qed simp

definition log_line :: "bytes \<Rightarrow> bytes \<Rightarrow> bytes \<Rightarrow> bytes \<Rightarrow> bytes" where
  "log_line ds level category message = [91] @ ds @ [93, 91] @ level @ [93, 91] @ category @ [93, 32] @ message @ [10]"

lemma klog_write_contents:
  assumes "log_ok s" and "s' = klog_write_category put ticks level category message s"
  shows "\<exists>ds. decimal ds (unat ticks) \<and>
    log_contents s' = newest (log_contents s @ log_line ds level category message) \<and>
    console s' = (if console_enabled s \<noteq> 0 then fold put (log_line ds level category message) (console s) else console s)"
proof -
  obtain ds where ds: "decimal ds (unat ticks)" and number: "\<And>t. log_number put ticks t = log_text put ds t"
    using log_number_decimal [of ticks put] by blast
  have append: "log_text put (a @ b) t = log_text put b (log_text put a t)" for a b t
    by (induction a arbitrary: t) simp_all
  have "s' = log_text put (log_line ds level category message) s"
    unfolding assms(2) klog_write_category_def log_line_def Let_def number append by simp
  then show ?thesis
    using log_text_ok [OF assms(1)] log_text_console [of put _ s] ds by blast
qed

lemma klog_copy_contents:
  assumes "0 < capacity" and "capacity \<le> length out" and "klog_copy out capacity s = (count, out')"
  shows "count = min (capacity - 1) (length (log_contents s)) \<and> take count out' = take count (log_contents s) \<and> out' ! count = 0 \<and>
    drop (count + 1) out' = drop (count + 1) out"
proof -
  let ?n = "min (capacity - 1) (log_length s)"
  have "(if capacity \<le> log_length s then capacity - 1 else log_length s) = ?n"
    by auto
  then have "klog_copy out capacity s = (?n, (klog_copy_loop 0 ?n s out)[?n := 0])"
    using assms(1) by (simp only: klog_copy_def Let_def) simp
  then have count: "count = ?n" and out': "out' = (klog_copy_loop 0 ?n s out)[?n := 0]"
    using assms(3) by auto
  have "?n < length out"
    using assms(1,2) by simp
  then have "take ?n out' = take ?n (log_contents s) \<and> out' ! ?n = 0 \<and> drop (?n + 1) out' = drop (?n + 1) out"
    by (simp add: out' klog_copy_loop_eq log_contents_def ring_def take_map)
  moreover have "length (log_contents s) = log_length s"
    by (simp add: log_contents_def)
  ultimately show ?thesis
    by (simp only: count)
qed

text \<open>
  C20. The log keeps the newest 16384 characters. Writing a line adds
  \<open>[ticks][level][category] message\<close> with the decimal numeral of the ticks, at least one digit
  and no leading zero, behind what the log holds and drops the oldest characters that no longer
  fit; when the console is switched on it receives the same line, and nothing otherwise.
  \<open>klog_copy\<close> copies the oldest characters that fit the buffer, in order and with a terminating
  zero, and leaves the rest of the buffer alone.
\<close>

theorem klog_keeps_newest:
  assumes "length (log_buffer s) = 16384" and "log_start s < 16384" and "log_length s \<le> 16384"
    and "s' = klog_write_category put ticks level category message s" and "0 < capacity" and "capacity \<le> length out"
    and "klog_copy out capacity s' = (count, out')"
  shows "(\<exists>ds. decimal ds (unat ticks) \<and>
      log_contents s' = newest (log_contents s @ log_line ds level category message) \<and>
      console s' = (if console_enabled s \<noteq> 0 then fold put (log_line ds level category message) (console s) else console s)) \<and>
    count = min (capacity - 1) (length (log_contents s')) \<and> take count out' = take count (log_contents s') \<and> out' ! count = 0 \<and>
    drop (count + 1) out' = drop (count + 1) out"
proof -
  have "log_ok s"
    using assms(1-3) by (simp add: log_ok_def)
  then show ?thesis
    using klog_write_contents [OF _ assms(4)] klog_copy_contents [OF assms(5-7)] by blast
qed

definition log_example :: "unit klog_state" where
  "log_example = klog_init \<lparr>log_buffer = replicate 16384 0, log_start = 0, log_length = 0, console_enabled = 0, console = ()\<rparr>"

lemma decimal_zero: "decimal ds 0 \<Longrightarrow> ds = [48]"
proof -
  assume dec: "decimal ds 0"
  have grow: "v \<le> foldl (\<lambda>v c. 10 * v + (unat c - 48)) v cs" for v and cs :: bytes
  proof (induction cs arbitrary: v)
    case (Cons c cs)
    have "v \<le> 10 * v + (unat c - 48)"
      by simp
    also have "\<dots> \<le> foldl (\<lambda>v c. 10 * v + (unat c - 48)) (10 * v + (unat c - 48)) cs"
      by (rule Cons.IH)
    finally show ?case
      by simp
  qed simp
  obtain c cs where ds: "ds = c # cs"
    using dec by (auto simp: decimal_def neq_Nil_conv)
  have "48 \<le> unat c" and "unat c - 48 = 0"
    using dec grow [of "unat c - 48" cs] by (auto simp: ds decimal_def word_le_nat_alt)
  then have "c = 48"
    by (simp add: word_unat_eq_iff)
  then show ?thesis
    using dec by (simp add: ds decimal_def)
qed

text \<open>At tick 0 the line starts with \<open>[0]\<close>.\<close>

theorem klog_keeps_newest_witness:
  "\<exists>out'. klog_copy (replicate 8 0) 8 (klog_write_category (\<lambda>_. id) 0 [73] [107] [104, 105] log_example) = (7, out') \<and>
     take 7 out' = [91, 48, 93, 91, 73, 93, 91]"
proof -
  obtain count out' where copy:
    "klog_copy (replicate 8 0) 8 (klog_write_category (\<lambda>_. id) 0 [73] [107] [104, 105] log_example) = (count, out')"
    by fastforce
  have "log_contents log_example = []"
    by (simp add: log_example_def klog_init_def log_contents_def ring_def)
  moreover have seven: "(7 :: nat) = Suc (Suc (Suc (Suc (Suc (Suc (Suc 0))))))"
    by simp
  ultimately show ?thesis
    using klog_keeps_newest [OF _ _ _ refl _ _ copy] copy
    by (auto simp: log_example_def klog_init_def newest_def log_line_def seven dest!: decimal_zero)
qed

end
