(* ===== verification/Entropy.thy ===== *)
theory Entropy
  imports Sync
begin

section \<open>The random number generator\<close>

text \<open>
  The generator of \<open>core/random.c\<close>: sixteen 32-bit words that are mixed by the ChaCha round
  function, a buffer of output bytes and the estimate of the gathered entropy. What the
  processor and the timer deliver are arguments; a call that would wait for its own lock has
  the result \<open>None\<close>. A null pointer is \<open>None\<close> among the arguments.
\<close>

abbreviation RANDOM_OUTPUT_BYTES :: nat where "RANDOM_OUTPUT_BYTES \<equiv> 32"

record random_t =
  random_state :: "u32 list"
  random_buffer :: bytes
  random_available :: nat
  entropy_bits :: nat
  random_lock :: spinlock_t

definition rotate_left :: "u32 \<Rightarrow> nat \<Rightarrow> u32" where
  "rotate_left value amount = push_bit amount value OR drop_bit (32 - amount) value"

definition quarter :: "u32 \<Rightarrow> u32 \<Rightarrow> u32 \<Rightarrow> u32 \<Rightarrow> u32 \<times> u32 \<times> u32 \<times> u32" where
  "quarter a b c d =
     (let a = a + b; d = rotate_left (d XOR a) 16;
          c = c + d; b = rotate_left (b XOR c) 12;
          a = a + b; d = rotate_left (d XOR a) 8;
          c = c + d; b = rotate_left (b XOR c) 7 in
      (a, b, c, d))"

text \<open>\<open>quarter\<close> on four words of the array.\<close>

definition quarter_at :: "nat \<Rightarrow> nat \<Rightarrow> nat \<Rightarrow> nat \<Rightarrow> u32 list \<Rightarrow> u32 list" where
  "quarter_at i j k l w = (let (a, b, c, d) = quarter (w ! i) (w ! j) (w ! k) (w ! l) in w[i := a, j := b, k := c, l := d])"

definition double_round :: "u32 list \<Rightarrow> u32 list" where
  "double_round w =
     (let w = quarter_at 0 4 8 12 w;
          w = quarter_at 1 5 9 13 w;
          w = quarter_at 2 6 10 14 w;
          w = quarter_at 3 7 11 15 w;
          w = quarter_at 0 5 10 15 w;
          w = quarter_at 1 6 11 12 w;
          w = quarter_at 2 7 8 13 w in
      quarter_at 3 4 9 14 w)"

definition word_bytes :: "u32 \<Rightarrow> bytes" where
  "word_bytes v = [ucast v, ucast (drop_bit 8 v), ucast (drop_bit 16 v), ucast (drop_bit 24 v)]"

definition bump_counter :: "u32 list \<Rightarrow> u32 list" where
  "bump_counter st = (let st = st[12 := st ! 12 + 1] in if st ! 12 = 0 then st[13 := st ! 13 + 1] else st)"

definition generate_block :: "random_t \<Rightarrow> random_t" where
  "generate_block s =
     (let working = (double_round ^^ 10) (random_state s);
          working = map2 (+) working (random_state s);
          st = bump_counter (random_state s);
          st = fold (\<lambda>index st. st[4 + index := st ! (4 + index) XOR working ! index]) [0..<8] st in
      s\<lparr>random_state := st, random_buffer := concat (map (\<lambda>index. word_bytes (working ! (8 + index))) [0..<8]),
        random_available := RANDOM_OUTPUT_BYTES\<rparr>)"

definition entropy_step :: "bytes \<Rightarrow> nat \<Rightarrow> u32 list \<Rightarrow> u32 list" where
  "entropy_step data index st =
     (let slot = 4 + index mod 8;
          st = st[slot := st ! slot XOR rotate_left (ucast (data ! index) + 0x9E3779B9 + word_of_nat index) (index mod 31 + 1)];
          st = st[14 := st ! 14 XOR (st ! slot + st ! 15)] in
      st[15 := rotate_left (st ! 15 XOR ucast (data ! index)) 7])"

definition entropy_add :: "bytes option \<Rightarrow> nat \<Rightarrow> random_t \<Rightarrow> random_t option" where
  "entropy_add data estimated_bits s =
     (case data of
        None \<Rightarrow> Some s
      | Some bs \<Rightarrow>
        if bs = [] then Some s
        else do {
          lock \<leftarrow> spinlock_lock (random_lock s);
          Some (s\<lparr>random_state := fold (entropy_step bs) [0..<length bs] (random_state s),
            entropy_bits := (if sub32 256 (entropy_bits s) \<le> estimated_bits then 256 else add32 (entropy_bits s) estimated_bits),
            random_available := 0, random_lock := spinlock_unlock lock\<rparr>) })"

definition u64_bytes :: "u64 \<Rightarrow> bytes" where
  "u64_bytes v = map (\<lambda>k. ucast (drop_bit (8 * k) v)) [0..<8]"

text \<open>
  The four tries to read the hardware generator: \<open>hardware\<close> holds the result of each call of
  \<open>cpu_random64\<close>, \<open>None\<close> when it fails.
\<close>

fun hardware_loop :: "u64 option list \<Rightarrow> u64 option \<Rightarrow> random_t \<Rightarrow> random_t option" where
  "hardware_loop [] previous s = Some s"
| "hardware_loop (h # hs) previous s =
     (case h of
        None \<Rightarrow> hardware_loop hs previous s
      | Some value \<Rightarrow>
        if previous = None \<or> Some value \<noteq> previous then do {
          s \<leftarrow> entropy_add (Some (u64_bytes value)) 64 s;
          hardware_loop hs (Some value) s }
        else hardware_loop hs previous s)"

text \<open>The first and the last value mixed in are what the code computes from its clocks.\<close>

definition random_init :: "u64 \<Rightarrow> u64 option list \<Rightarrow> u64 \<Rightarrow> random_t \<Rightarrow> random_t option" where
  "random_init first hardware final s = do {
     let s = s\<lparr>random_lock := spinlock_init (random_lock s),
       random_state := [0x61707865, 0x3320646E, 0x79622D32, 0x6B206574] @ replicate 12 0, random_available := 0, entropy_bits := 0\<rparr>;
     s \<leftarrow> entropy_add (Some (u64_bytes first)) 8 s;
     s \<leftarrow> hardware_loop (take 4 hardware) None s;
     entropy_add (Some (u64_bytes final)) 4 s }"

definition random_is_ready :: "random_t \<Rightarrow> (bool \<times> random_t) option" where
  "random_is_ready s = do {
     lock \<leftarrow> spinlock_lock (random_lock s);
     Some (256 \<le> entropy_bits s, s\<lparr>random_lock := spinlock_unlock lock\<rparr>) }"

definition random_entropy_bits :: "random_t \<Rightarrow> (nat \<times> random_t) option" where
  "random_entropy_bits s = do {
     lock \<leftarrow> spinlock_lock (random_lock s);
     Some (entropy_bits s, s\<lparr>random_lock := spinlock_unlock lock\<rparr>) }"

fun random_loop :: "nat \<Rightarrow> random_t \<Rightarrow> bytes \<times> random_t" where
  "random_loop 0 s = ([], s)"
| "random_loop (Suc n) s =
     (let s = (if random_available s = 0 then generate_block s else s);
          b = random_buffer s ! sub32 RANDOM_OUTPUT_BYTES (random_available s);
          (bs, t) = random_loop n (s\<lparr>random_available := sub32 (random_available s) 1\<rparr>) in
      (b # bs, t))"

text \<open>The bytes written to the output, which must not be null.\<close>

definition random_bytes :: "nat \<Rightarrow> random_t \<Rightarrow> (bytes \<times> random_t) option" where
  "random_bytes len s =
     (if len = 0 then Some ([], s)
      else do {
        lock \<leftarrow> spinlock_lock (random_lock s);
        let (bs, s) = random_loop len (s\<lparr>random_lock := lock\<rparr>);
        Some (bs, s\<lparr>random_lock := spinlock_unlock (random_lock s)\<rparr>) })"

definition random_u64 :: "random_t \<Rightarrow> (u64 \<times> random_t) option" where
  "random_u64 s = do {
     (bs, s) \<leftarrow> random_bytes 8 s;
     Some (foldr (\<lambda>b v. push_bit 8 v OR ucast b) bs 0, s) }"

definition random_self_test :: "random_t \<Rightarrow> (int \<times> random_t) option" where
  "random_self_test s = do {
     (first, s) \<leftarrow> random_u64 s;
     (second, s) \<leftarrow> random_u64 s;
     Some (if quarter 0x11111111 0x01020304 0x9B8D6F43 0x01234567 \<noteq> (0xEA2A92F4, 0xCB1CF8CE, 0x4581472E, 0x5881C4BB) then - 1
       else if first \<noteq> second \<and> (first \<noteq> 0 \<or> second \<noteq> 0) then 0 else - 1, s) }"

subsection \<open>The mixing function\<close>

lemma bit_rotate_left:
  assumes "0 < n" and "n < 32" and "k < 32"
  shows "bit (rotate_left v n) ((k + n) mod 32) \<longleftrightarrow> bit v k"
proof (cases "k + n < 32")
  case True
  then show ?thesis
    using assms by (auto simp: rotate_left_def bit_simps dest: bit_imp_le_length)
next
  case False
  then have "(k + n) mod 32 = k + n - 32"
    using assms by (simp add: mod_if)
  then show ?thesis
    using False assms by (auto simp: rotate_left_def bit_simps)
qed

lemma rotate_left_inj [simp]:
  assumes "0 < n" and "n < 32"
  shows "rotate_left v n = rotate_left w n \<longleftrightarrow> v = w"
proof
  assume eq: "rotate_left v n = rotate_left w n"
  show "v = w"
  proof (rule bit_word_eqI)
    fix k
    assume "k < LENGTH(32)"
    then show "bit v k \<longleftrightarrow> bit w k"
      using bit_rotate_left [OF assms, of k v] bit_rotate_left [OF assms, of k w] eq by simp
  qed
qed simp

lemma xor_cancel_right [simp]: "a XOR c = b XOR c \<longleftrightarrow> a = (b :: u32)"
  by (metis xor.assoc xor.right_neutral xor_self_eq)

lemma xor_cancel_left: "c XOR a = c XOR b \<longleftrightarrow> a = (b :: u32)"
  by (metis xor.assoc xor.left_neutral xor_self_eq)

lemma quarter_inj: "quarter a b c d = quarter a' b' c' d' \<Longrightarrow> a = a' \<and> b = b' \<and> c = c' \<and> d = d'"
  by (auto simp: quarter_def Let_def)

lemma quarter_vector:
  "quarter 0x11111111 0x01020304 0x9B8D6F43 0x01234567 = (0xEA2A92F4, 0xCB1CF8CE, 0x4581472E, 0x5881C4BB)"
  by (simp add: quarter_def rotate_left_def)

lemma length_quarter_at [simp]: "length (quarter_at i j k l w) = length w"
  by (simp add: quarter_at_def split: prod.splits)

lemma quarter_at_inj:
  assumes "quarter_at i j k l w = quarter_at i j k l w'" and "length w = length w'" and "distinct [i, j, k, l]"
    and "i < length w" and "j < length w" and "k < length w" and "l < length w"
  shows "w = w'"
proof (rule nth_equalityI)
  fix n
  assume n: "n < length w"
  obtain a b c d where q: "quarter (w ! i) (w ! j) (w ! k) (w ! l) = (a, b, c, d)"
    by (metis prod_cases4)
  obtain a' b' c' d' where q': "quarter (w' ! i) (w' ! j) (w' ! k) (w' ! l) = (a', b', c', d')"
    by (metis prod_cases4)
  have eq: "w[i := a, j := b, k := c, l := d] = w'[i := a', j := b', k := c', l := d']"
    using assms(1) by (simp add: quarter_at_def q q')
  have at: "w[i := a, j := b, k := c, l := d] ! m = w'[i := a', j := b', k := c', l := d'] ! m" for m
    by (simp add: eq)
  have "a = a'" "b = b'" "c = c'" "d = d'"
    using at [of i] at [of j] at [of k] at [of l] assms(2-) by (simp_all add: nth_list_update)
  then have "w ! i = w' ! i" "w ! j = w' ! j" "w ! k = w' ! k" "w ! l = w' ! l"
    using quarter_inj [of "w ! i" "w ! j" "w ! k" "w ! l"] q q' by metis+
  then show "w ! n = w' ! n"
    using at [of n] by (cases "n \<in> {i, j, k, l}") (auto simp: nth_list_update)
qed (rule assms(2))

lemma quarter_at_iff:
  assumes "length w = length w'" and "distinct [i, j, k, l]" and "i < length w" and "j < length w" and "k < length w" and "l < length w"
  shows "quarter_at i j k l w = quarter_at i j k l w' \<longleftrightarrow> w = w'"
  using quarter_at_inj [OF _ assms] by blast

lemma length_double_round [simp]: "length (double_round w) = length w"
  by (simp add: double_round_def Let_def)

lemma double_round_inj: "inj_on double_round {w. length w = 16}"
  by (auto simp: inj_on_def double_round_def Let_def quarter_at_iff)

lemma rounds_inj: "inj_on (double_round ^^ n) {w. length w = 16}"
proof (induction n)
  case (Suc n)
  have "(double_round ^^ n) ` {w. length w = 16} \<subseteq> {w. length w = 16}"
  proof -
    have "length ((double_round ^^ n) w) = length w" for w
      by (induction n) simp_all
    then show ?thesis
      by auto
  qed
  then show ?case
    unfolding funpow.simps by (rule comp_inj_on [OF Suc inj_on_subset [OF double_round_inj]])
qed simp

subsection \<open>The state of the generator\<close>

definition random_ok :: "random_t \<Rightarrow> bool" where
  "random_ok s \<longleftrightarrow> length (random_state s) = 16 \<and> length (random_buffer s) = 32 \<and> random_available s \<le> 32 \<and>
     entropy_bits s \<le> 256"

abbreviation unlocked :: "random_t \<Rightarrow> bool" where
  "unlocked s \<equiv> sl_state (random_lock s) = 0"

lemma length_fold_update:
  assumes "\<And>i st. length (f i st) = length st"
  shows "length (fold f xs st) = length st"
  by (induction xs arbitrary: st) (simp_all add: assms)

lemma generate_block_ok:
  assumes "random_ok s"
  shows "random_ok (generate_block s) \<and> random_available (generate_block s) = 32 \<and>
    entropy_bits (generate_block s) = entropy_bits s \<and> random_lock (generate_block s) = random_lock s"
proof -
  have "length (concat (map (\<lambda>i. word_bytes (w ! (8 + i))) [0..<8])) = 32" for w
    by (simp add: word_bytes_def upt_rec)
  then show ?thesis
    using assms by (simp add: random_ok_def generate_block_def Let_def length_fold_update bump_counter_def)
qed

lemma random_loop_ok:
  assumes "random_ok s" and "random_loop n s = (bs, t)"
  shows "length bs = n \<and> random_ok t \<and> entropy_bits t = entropy_bits s \<and> random_lock t = random_lock s"
  using assms
proof (induction n arbitrary: s bs t)
  case (Suc n)
  define u where "u = (if random_available s = 0 then generate_block s else s)"
  have u: "random_ok u" "entropy_bits u = entropy_bits s" "random_lock u = random_lock s"
    using generate_block_ok [OF Suc.prems(1)] Suc.prems(1) by (auto simp: u_def)
  obtain cs v where loop: "random_loop n (u\<lparr>random_available := sub32 (random_available u) 1\<rparr>) = (cs, v)"
    by fastforce
  have "0 < random_available u"
    using generate_block_ok [OF Suc.prems(1)] by (simp add: u_def)
  then have "random_ok (u\<lparr>random_available := sub32 (random_available u) 1\<rparr>)"
    using u(1) by (auto simp: random_ok_def sub32_small)
  from Suc.IH [OF this loop] show ?case
    using Suc.prems(2) loop u by (auto simp: Let_def u_def [symmetric])
qed auto

text \<open>
  What the generator will deliver: the bytes left in the buffer, and then the blocks of the
  states it goes through, one behind the other.
\<close>

definition pending :: "random_t \<Rightarrow> bytes" where
  "pending s = drop (32 - random_available s) (random_buffer s)"

definition next_blocks :: "nat \<Rightarrow> random_t \<Rightarrow> bytes" where
  "next_blocks k s = concat (map (\<lambda>j. random_buffer ((generate_block ^^ Suc j) s)) [0..<k])"

lemma generate_block_available [simp]:
  "generate_block (s\<lparr>random_available := a\<rparr>) = generate_block s"
  by (simp add: generate_block_def Let_def)

lemma generate_blocks_available:
  "(generate_block ^^ Suc j) (s\<lparr>random_available := a\<rparr>) = (generate_block ^^ Suc j) s"
  "random_state ((generate_block ^^ k) (s\<lparr>random_available := a\<rparr>)) = random_state ((generate_block ^^ k) s)"
  by (simp_all only: funpow_Suc_right comp_apply generate_block_available) (cases k, simp_all add: funpow_swap1)

lemma next_blocks_available [simp]: "next_blocks k (s\<lparr>random_available := a\<rparr>) = next_blocks k s"
  unfolding next_blocks_def generate_blocks_available ..

lemma next_blocks_Suc: "next_blocks (Suc k) s = random_buffer (generate_block s) @ next_blocks k (generate_block s)"
  by (simp add: next_blocks_def upt_conv_Cons map_Suc_upt [symmetric] comp_def funpow_swap1 del: upt_Suc)

lemma random_loop_stream:
  assumes "random_ok s" and "random_loop n s = (bs, t)"
  defines "k \<equiv> (n - random_available s + 31) div 32"
  shows "bs @ pending t = pending s @ next_blocks k s \<and> random_state t = random_state ((generate_block ^^ k) s)"
  using assms(1,2) unfolding k_def
proof (induction n arbitrary: s bs t)
  case (Suc n)
  define u where "u = (if random_available s = 0 then generate_block s else s)"
  define v where "v = u\<lparr>random_available := random_available u - 1\<rparr>"
  have u: "random_ok u" "0 < random_available u" "random_available u \<le> 32" "length (random_buffer u) = 32"
    using generate_block_ok [OF Suc.prems(1)] Suc.prems(1) by (auto simp: u_def random_ok_def)
  obtain cs where loop: "random_loop n v = (cs, t)" and bs: "bs = random_buffer u ! (32 - random_available u) # cs"
    using Suc.prems(2) u(2,3) by (auto simp: Let_def u_def [symmetric] v_def sub32_small split: prod.splits)
  have "random_ok v"
    using u(1) by (auto simp: v_def random_ok_def)
  note IH = Suc.IH [OF this loop]
  have "pending u = random_buffer u ! (32 - random_available u) # pending v"
    using u(2-4) Cons_nth_drop_Suc [of "32 - random_available u" "random_buffer u"] by (simp add: pending_def v_def Suc_diff_le [symmetric] del: Cons_nth_drop_Suc)
  then have out: "bs @ pending t = pending u @ next_blocks ((n - random_available v + 31) div 32) u"
    and state: "random_state t = random_state ((generate_block ^^ ((n - random_available v + 31) div 32)) u)"
    using IH by (simp_all add: bs v_def generate_blocks_available(2))
  show ?case
  proof (cases "random_available s = 0")
    case True
    have u_gen: "u = generate_block s" "random_available v = 31"
      using True generate_block_ok [OF Suc.prems(1)] by (simp_all add: u_def v_def)
    have blocks: "(Suc n - random_available s + 31) div 32 = Suc ((n - random_available v + 31) div 32)"
      using True u_gen(2) by (cases "n \<le> 31") auto
    have "pending s = []" "pending u = random_buffer (generate_block s)"
      using Suc.prems(1) True generate_block_ok [OF Suc.prems(1)] by (simp_all add: pending_def random_ok_def u_gen(1))
    then show ?thesis
      using out state unfolding blocks by (simp add: next_blocks_Suc u_gen(1) funpow_swap1)
  next
    case False
    then have "u = s" "Suc n - random_available s = n - random_available v"
      by (auto simp: u_def v_def)
    then show ?thesis
      using out state by simp
  qed
qed (simp add: next_blocks_def pending_def)

text \<open>The stream of bytes does not depend on how it is cut.\<close>

lemma random_loop_add:
  "random_loop (m + n) s = (case random_loop m s of (xs, t) \<Rightarrow> case random_loop n t of (ys, u) \<Rightarrow> (xs @ ys, u))"
  by (induction m arbitrary: s) (simp_all add: Let_def split: prod.splits)

lemma random_loop_lock:
  "random_loop n (s\<lparr>random_lock := l\<rparr>) = (case random_loop n s of (bs, t) \<Rightarrow> (bs, t\<lparr>random_lock := l\<rparr>))"
proof (induction n arbitrary: s)
  case (Suc n)
  have gen: "generate_block (s\<lparr>random_lock := l\<rparr>) = (generate_block s)\<lparr>random_lock := l\<rparr>" for s
    by (simp add: generate_block_def Let_def)
  have swap: "(s\<lparr>random_lock := l\<rparr>)\<lparr>random_available := a\<rparr> = (s\<lparr>random_available := a\<rparr>)\<lparr>random_lock := l\<rparr>" for s a
    by simp
  show ?case
    by (simp add: Let_def gen swap Suc split: prod.splits)
qed simp

lemma spinlock_cycle: "sl_state l = 0 \<Longrightarrow> spinlock_lock l = Some (l\<lparr>sl_state := 1\<rparr>) \<and> spinlock_unlock (l\<lparr>sl_state := 1\<rparr>) = l"
  by (simp add: spinlock_unlock_def atomic_defs)

lemma random_bytes_eq:
  assumes "random_ok s" and "unlocked s"
  shows "random_bytes n s = Some (random_loop n s)"
proof (cases "n = 0")
  case False
  obtain bs t where loop: "random_loop n s = (bs, t)"
    by fastforce
  have "random_lock t = random_lock s"
    using random_loop_ok [OF assms(1) loop] by simp
  then have "t\<lparr>random_lock := random_lock s\<rparr> = t"
    by simp
  then show ?thesis
    using False assms(2) spinlock_cycle [of "random_lock s"] by (simp add: random_bytes_def random_loop_lock loop)
qed (simp add: random_bytes_def)

lemma length_entropy_step [simp]: "length (entropy_step bs i st) = length st"
  by (simp add: entropy_step_def Let_def)

lemma entropy_add_ok:
  assumes "random_ok s" and "unlocked s"
  shows "\<exists>t. entropy_add (Some bs) estimate s = Some t \<and> random_ok t \<and> unlocked t \<and>
    (bs \<noteq> [] \<longrightarrow> entropy_bits t = min 256 (entropy_bits s + estimate) \<and> random_available t = 0) \<and>
    random_state t = fold (entropy_step bs) [0..<length bs] (random_state s)"
proof (cases "bs = []")
  case False
  have "sub32 256 (entropy_bits s) = 256 - entropy_bits s"
    using assms(1) by (simp add: random_ok_def sub32_small)
  moreover have "entropy_bits s + estimate < 256 \<Longrightarrow> add32 (entropy_bits s) estimate = entropy_bits s + estimate"
    by (simp add: add32_def)
  ultimately show ?thesis
    using False assms spinlock_cycle [of "random_lock s"]
    by (auto simp: entropy_add_def random_ok_def length_fold_update min_def)
qed (use assms in \<open>simp add: entropy_add_def\<close>)

text \<open>Up to eight bytes go into eight different words, each without loss.\<close>

lemma entropy_slots:
  assumes "n \<le> 8" and "length st = 16"
  shows "\<forall>i < 8. fold (entropy_step bs) [0..<n] st ! (4 + i) =
    (if i < n then st ! (4 + i) XOR rotate_left (ucast (bs ! i) + 0x9E3779B9 + word_of_nat i) (i mod 31 + 1) else st ! (4 + i))"
  using assms(1)
proof (induction n)
  case (Suc n)
  define w where "w = fold (entropy_step bs) [0..<n] st"
  have "length w = 16"
    by (simp add: w_def length_fold_update assms(2))
  then have step: "entropy_step bs n w ! (4 + i) =
      (if i = n then w ! (4 + n) XOR rotate_left (ucast (bs ! n) + 0x9E3779B9 + word_of_nat n) (n mod 31 + 1) else w ! (4 + i))"
    if "i < 8" for i
    using Suc.prems that by (simp add: entropy_step_def Let_def nth_list_update)
  have "fold (entropy_step bs) [0..<Suc n] st = entropy_step bs n w"
    by (simp add: w_def)
  then show ?case
    using Suc step unfolding w_def [symmetric] by (auto simp: less_Suc_eq)
qed simp

lemma entropy_mixed:
  assumes eq: "fold (entropy_step xs) [0..<length xs] st = fold (entropy_step ys) [0..<length ys] st"
    and len: "length xs = length ys" "length xs \<le> 8" "length st = 16"
  shows "xs = ys"
proof (rule nth_equalityI)
  fix i
  assume i: "i < length xs"
  have narrow: "a = b" if "ucast a = (ucast b :: u32)" for a b :: u8
  proof (rule bit_word_eqI)
    fix k
    assume "k < LENGTH(8)"
    then show "bit a k \<longleftrightarrow> bit b k"
      using arg_cong [OF that, of "\<lambda>w. bit w k"] by (simp add: bit_ucast_iff)
  qed
  have "ucast (xs ! i) + 0x9E3779B9 + word_of_nat i = ucast (ys ! i) + 0x9E3779B9 + (word_of_nat i :: u32)"
    using entropy_slots [of "length xs" st xs] entropy_slots [of "length ys" st ys] eq len i
    by (auto simp: xor_cancel_left dest!: spec [of _ i])
  then show "xs ! i = ys ! i"
    by (intro narrow) simp
qed (rule len(1))

lemma entropy_add_inj:
  assumes "random_ok s" and "unlocked s"
  shows "\<exists>t. entropy_add (Some bs) estimate s = Some t \<and> random_ok t \<and> unlocked t \<and>
    (bs \<noteq> [] \<longrightarrow> entropy_bits t = min 256 (entropy_bits s + estimate) \<and> random_available t = 0) \<and>
    (\<forall>cs u. entropy_add (Some cs) estimate s = Some u \<and> length cs = length bs \<and> length bs \<le> 8 \<and>
      random_state u = random_state t \<longrightarrow> cs = bs)"
proof -
  have "length (random_state s) = 16"
    using assms(1) by (simp add: random_ok_def)
  then have "cs = bs" if "length cs = length bs" "length bs \<le> 8"
    "fold (entropy_step cs) [0..<length cs] (random_state s) = fold (entropy_step bs) [0..<length bs] (random_state s)" for cs
    using entropy_mixed [OF that(3,1)] that by simp
  moreover have "random_state u = fold (entropy_step cs) [0..<length cs] (random_state s)"
    if "entropy_add (Some cs) estimate s = Some u" for cs u
    using entropy_add_ok [OF assms, of cs estimate] that by auto
  ultimately show ?thesis
    using entropy_add_ok [OF assms, of bs estimate] by metis
qed

text \<open>
  C21. The output is the stream of generated blocks. When the lock is free, \<open>random_bytes\<close>
  returns as many bytes as asked for: first what is left in the buffer, then the blocks
  of \<open>generate_block\<close> in order, as many as needed, and what is left of the last one stays in the
  buffer; the state is the one behind those blocks, every array and count stays in range, and the
  lock and the estimate are as before. So two requests deliver what one request for the sum would
  have delivered. \<open>entropy_add\<close> adds its estimate up to 256 bits, discards the buffered
  output, and mixes in what it is given: different data of the same length of up to eight bytes
  give different states. The quarter round gives the published test vector, and the ten double rounds lose
  nothing: different states stay different.
\<close>

theorem random_generator_sound:
  fixes n :: nat
  assumes "random_ok s" and "sl_state (random_lock s) = 0"
  defines "k \<equiv> (n - random_available s + 31) div 32"
  shows "(\<exists>xs t. random_bytes n s = Some (xs, t) \<and> length xs = n \<and> xs @ pending t = pending s @ next_blocks k s \<and>
      random_state t = random_state ((generate_block ^^ k) s) \<and> random_ok t \<and> random_lock t = random_lock s \<and>
      entropy_bits t = entropy_bits s \<and>
      (\<exists>ys u. random_bytes m t = Some (ys, u) \<and> random_bytes (n + m) s = Some (xs @ ys, u))) \<and>
    (\<exists>t. entropy_add (Some bs) estimate s = Some t \<and> random_ok t \<and> sl_state (random_lock t) = 0 \<and>
      (bs \<noteq> [] \<longrightarrow> entropy_bits t = min 256 (entropy_bits s + estimate) \<and> pending t = []) \<and>
      (\<forall>cs u. entropy_add (Some cs) estimate s = Some u \<and> length cs = length bs \<and> length bs \<le> 8 \<and>
        random_state u = random_state t \<longrightarrow> cs = bs)) \<and>
    quarter 0x11111111 0x01020304 0x9B8D6F43 0x01234567 = (0xEA2A92F4, 0xCB1CF8CE, 0x4581472E, 0x5881C4BB) \<and>
    inj_on (double_round ^^ 10) {w. length w = 16}"
proof -
  obtain xs t where l1: "random_loop n s = (xs, t)"
    by fastforce
  obtain ys u where l2: "random_loop m t = (ys, u)"
    by fastforce
  note ok1 = random_loop_ok [OF assms(1) l1]
  have "random_bytes n s = Some (xs, t)" "random_bytes (n + m) s = Some (xs @ ys, u)"
    using random_bytes_eq [OF assms(1,2)] l1 l2 by (simp_all add: random_loop_add)
  moreover have "random_bytes m t = Some (ys, u)"
    using random_bytes_eq [of t m] ok1 assms(2) l2 by simp
  moreover have "pending v = []" if "random_ok v" "random_available v = 0" for v
    using that by (simp add: pending_def random_ok_def)
  moreover have "\<exists>t. entropy_add (Some bs) estimate s = Some t \<and> random_ok t \<and> sl_state (random_lock t) = 0 \<and>
      (bs \<noteq> [] \<longrightarrow> entropy_bits t = min 256 (entropy_bits s + estimate) \<and> random_available t = 0) \<and>
      (\<forall>cs u. entropy_add (Some cs) estimate s = Some u \<and> length cs = length bs \<and> length bs \<le> 8 \<and>
        random_state u = random_state t \<longrightarrow> cs = bs)"
    by (rule entropy_add_inj [OF assms(1,2)])
  ultimately show ?thesis
    using ok1 random_loop_stream [OF assms(1) l1] rounds_inj [of 10] quarter_vector
    unfolding k_def by auto
qed

definition random_example :: random_t where
  "random_example = \<lparr>random_state = replicate 16 0, random_buffer = replicate 32 0, random_available = 0, entropy_bits = 200,
     random_lock = \<lparr>sl_state = 0\<rparr>\<rparr>"

text \<open>From an empty buffer, 32 bytes are the first generated block.\<close>

theorem random_generator_sound_witness:
  "\<exists>t. random_bytes 32 random_example = Some (random_buffer (generate_block random_example), t) \<and>
     random_state t = random_state (generate_block random_example)"
proof -
  have ok: "random_ok random_example" "sl_state (random_lock random_example) = 0"
    by (simp_all add: random_ok_def random_example_def)
  have empty: "random_available random_example = 0" "pending random_example = []"
    by (simp_all add: random_example_def pending_def)
  have first: "next_blocks (Suc 0) random_example = random_buffer (generate_block random_example)"
    by (simp add: next_blocks_def)
  have "length (random_buffer (generate_block random_example)) = 32"
    using generate_block_ok [OF ok(1)] by (simp add: random_ok_def)
  then have "xs = random_buffer (generate_block random_example)"
    if "xs @ ps = random_buffer (generate_block random_example)" "length xs = 32" for xs ps
    using that by (metis append_eq_append_conv append_Nil2)
  then show ?thesis
    using random_generator_sound [OF ok, of 32 0 "[]" 0] by (auto simp: empty first)
qed

end
