(* ===== verification/Devices.thy ===== *)
theory Devices
  imports Sync
begin

section \<open>The list of devices and input events\<close>

text \<open>
  The table of \<open>device/device.c\<close>, in which the parts of the kernel enter themselves, and the
  input events of \<open>device/input.c\<close>. A null pointer is \<open>None\<close> and a string is the list of its
  characters; a call that would wait for its own lock has the result \<open>None\<close>. What the keyboard
  and the clock deliver are arguments.
\<close>

abbreviation DEVICE_MAX :: nat where "DEVICE_MAX \<equiv> 32"
abbreviation DEVICE_NAME_MAX :: nat where "DEVICE_NAME_MAX \<equiv> 28"

datatype device_type_t = DEVICE_CPU | DEVICE_INTERRUPT | DEVICE_TIMER | DEVICE_INPUT | DEVICE_DISPLAY |
  DEVICE_SERIAL | DEVICE_CLOCK | DEVICE_BUS | DEVICE_FILESYSTEM | DEVICE_RANDOM | DEVICE_BLOCK | DEVICE_OTHER nat

record device_info_t =
  di_id :: nat
  di_type :: device_type_t
  di_online :: nat
  di_name :: bytes

record devices =
  device_table :: "device_info_t list"
  registered_devices :: nat
  device_lock :: spinlock_t

text \<open>A value of the enumeration above \<open>DEVICE_BLOCK\<close> is \<open>DEVICE_OTHER\<close>.\<close>

fun device_type_known :: "device_type_t \<Rightarrow> bool" where
  "device_type_known (DEVICE_OTHER n) = False"
| "device_type_known _ = True"

fun name_copy_loop :: "bytes \<Rightarrow> bytes \<Rightarrow> nat \<Rightarrow> bytes" where
  "name_copy_loop target [] index = target[index := 0]"
| "name_copy_loop target (c # cs) index =
     (if index + 1 < DEVICE_NAME_MAX then name_copy_loop (target[index := c]) cs (index + 1) else target[index := 0])"

definition name_copy :: "bytes \<Rightarrow> bytes \<Rightarrow> bytes" where
  "name_copy target source = name_copy_loop target source 0"

definition device_manager_init :: "devices \<Rightarrow> devices" where
  "device_manager_init s = s\<lparr>registered_devices := 0, device_lock := spinlock_init (device_lock s)\<rparr>"

definition device_register :: "bytes option \<Rightarrow> device_type_t \<Rightarrow> nat \<Rightarrow> devices \<Rightarrow> (int \<times> devices) option" where
  "device_register name type online s =
     (if name = None \<or> the name = [] \<or> \<not> device_type_known type then Some (- 1, s)
      else do {
        lock \<leftarrow> spinlock_lock (device_lock s);
        if DEVICE_MAX \<le> registered_devices s then Some (- 1, s\<lparr>device_lock := spinlock_unlock lock\<rparr>)
        else let index = registered_devices s; e = device_table s ! index in
          Some (int index, s\<lparr>registered_devices := index + 1,
            device_table := (device_table s)[index := e\<lparr>di_id := index, di_type := type, di_online := online,
              di_name := name_copy (di_name e) (the name)\<rparr>], device_lock := spinlock_unlock lock\<rparr>) })"

definition device_count :: "devices \<Rightarrow> (nat \<times> devices) option" where
  "device_count s = do {
     lock \<leftarrow> spinlock_lock (device_lock s);
     Some (registered_devices s, s\<lparr>device_lock := spinlock_unlock lock\<rparr>) }"

definition device_list :: "device_info_t list option \<Rightarrow> nat \<Rightarrow> devices \<Rightarrow> (nat \<times> device_info_t list option \<times> devices) option" where
  "device_list out capacity s =
     (case out of
        None \<Rightarrow> Some (0, None, s)
      | Some ds \<Rightarrow>
        if capacity = 0 then Some (0, out, s)
        else do {
          lock \<leftarrow> spinlock_lock (device_lock s);
          let count = (if registered_devices s < capacity then registered_devices s else capacity);
          Some (count, Some (fold (\<lambda>index ds. ds[index := device_table s ! index]) [0..<count] ds),
            s\<lparr>device_lock := spinlock_unlock lock\<rparr>) })"

fun device_type_name :: "device_type_t \<Rightarrow> string" where
  "device_type_name DEVICE_CPU = ''CPU''"
| "device_type_name DEVICE_INTERRUPT = ''IRQ''"
| "device_type_name DEVICE_TIMER = ''TIMER''"
| "device_type_name DEVICE_INPUT = ''INPUT''"
| "device_type_name DEVICE_DISPLAY = ''DISPLAY''"
| "device_type_name DEVICE_SERIAL = ''SERIAL''"
| "device_type_name DEVICE_CLOCK = ''CLOCK''"
| "device_type_name DEVICE_BUS = ''BUS''"
| "device_type_name DEVICE_FILESYSTEM = ''FILESYSTEM''"
| "device_type_name DEVICE_RANDOM = ''RANDOM''"
| "device_type_name DEVICE_BLOCK = ''BLOCK''"
| "device_type_name (DEVICE_OTHER n) = ''UNKNOWN''"

subsection \<open>Input events\<close>

datatype input_event_type_t = INPUT_EVENT_NONE | INPUT_EVENT_KEY | INPUT_EVENT_ACCEPT | INPUT_EVENT_BACK | INPUT_EVENT_NEXT

record input_event_t =
  ev_type :: input_event_type_t
  ev_code :: nat
  ev_text :: u8
  ev_tick :: nat

definition input_init :: "nat \<Rightarrow> nat" where
  "input_init events = 0"

definition input_poll :: "u8 \<Rightarrow> nat \<Rightarrow> input_event_t option \<Rightarrow> nat \<Rightarrow> int \<times> input_event_t option \<times> nat" where
  "input_poll value ticks event events =
     (if event = None then (- 1, event, events)
      else (0, Some \<lparr>ev_type = (if value = 10 then INPUT_EVENT_ACCEPT
                                else if value = 27 \<or> value = 8 then INPUT_EVENT_BACK
                                else if value = 9 \<or> value = 32 then INPUT_EVENT_NEXT else INPUT_EVENT_KEY),
          ev_code = unat value, ev_text = value, ev_tick = ticks\<rparr>, add64 events 1))"

definition input_event_count :: "nat \<Rightarrow> nat" where
  "input_event_count events = events"

subsection \<open>The table keeps what was registered\<close>

definition devices_ok :: "devices \<Rightarrow> bool" where
  "devices_ok s \<longleftrightarrow> length (device_table s) = 32 \<and> registered_devices s \<le> 32 \<and> sl_state (device_lock s) = 0 \<and>
     (\<forall>i < registered_devices s. di_id (device_table s ! i) = i)"

lemma device_register_ok:
  assumes "devices_ok s" and "name \<noteq> []" and "device_type_known type"
  shows "\<exists>r t. device_register (Some name) type online s = Some (r, t) \<and> devices_ok t \<and>
    (if registered_devices s < 32
     then r = int (registered_devices s) \<and> registered_devices t = registered_devices s + 1 \<and>
       di_type (device_table t ! registered_devices s) = type \<and> di_online (device_table t ! registered_devices s) = online \<and>
       (\<forall>i < registered_devices s. device_table t ! i = device_table s ! i)
     else r = - 1 \<and> device_table t = device_table s \<and> registered_devices t = registered_devices s)"
  using assms
  by (auto simp: device_register_def devices_ok_def spinlock_unlock_def atomic_defs Let_def nth_list_update less_Suc_eq)

lemma fold_copy: "n \<le> length ds \<Longrightarrow> fold (\<lambda>i ds. ds[i := f i]) [0..<n] ds = map f [0..<n] @ drop n ds"
proof (induction n)
  case (Suc n)
  then show ?case
    by (simp add: list_update_append Cons_nth_drop_Suc [symmetric])
qed simp

lemma device_list_ok:
  assumes "devices_ok s" and "0 < capacity" and "capacity \<le> length ds"
  shows "\<exists>out t. device_list (Some ds) capacity s = Some (min (registered_devices s) capacity, Some out, t) \<and> devices_ok t \<and>
    take (min (registered_devices s) capacity) out = take (min (registered_devices s) capacity) (device_table s)"
proof -
  let ?n = "min (registered_devices s) capacity"
  have count: "(if registered_devices s < capacity then registered_devices s else capacity) = ?n"
    by auto
  have "map ((!) (device_table s)) [0..<?n] = take ?n (device_table s)"
    using assms(1) by (intro nth_equalityI) (auto simp: devices_ok_def)
  then show ?thesis
    using assms fold_copy [of ?n ds "\<lambda>i. device_table s ! i"]
    by (auto simp: device_list_def count devices_ok_def spinlock_unlock_def atomic_defs Let_def simp del: min_less_iff_conj)
qed

end
