(* ===== verification/Spec2Isabelle.thy ===== *)
theory Spec2Isabelle
  imports Sync_Protocols Pmm Heap_Props Util_Arith_Props Util_Text Dma Task_Props Block_Test Mvhfs_Create Net_Props
    Net_Tables Ramfs_Spec Klog Entropy Devices
begin

text \<open>
  \<^bold>\<open>A verification development for MVH Kernel\<close>

  MVH Kernel is a standalone x86-64 kernel in C. This development models the parts of it that
  compute on data in memory, as HOL functions that follow the C functions statement by
  statement, and proves what makes them correct. File names below are relative to \<open>src/src\<close>.

  \<^bold>\<open>The parts and how they interact.\<close> The lowest layer is the set of locks of \<open>core/sync.c\<close>, which
  every table of the kernel takes. The page allocator \<open>memory/pmm.c\<close> hands out pages, the heap
  \<open>memory/heap.c\<close> blocks of bytes, and \<open>device/dma.c\<close> aligned buffers cut from runs of pages.
  The scheduler \<open>task/task.c\<close> switches between kernel tasks. Storage is a stack: drivers below,
  the block layer \<open>storage/block.c\<close> with its partition probe on top of them, and the file system
  \<open>fs/mvhfs.c\<close> on top of that; both check their structures with \<open>core/crc32.c\<close>. Beside it are the
  file system in memory \<open>fs/ramfs.c\<close> with its interface \<open>fs/vfs.c\<close>, the packet functions and
  tables of \<open>net/net.c\<close>, the log \<open>core/log.c\<close>, the random number generator \<open>core/random.c\<close>, the
  list of devices \<open>device/device.c\<close> and the library \<open>core/util.c\<close>.

  \<^bold>\<open>Conventions.\<close> A C structure is a record and the static variables of a file are one record,
  passed through the functions and returned. Integers are words of their width where the code
  computes with bits, and naturals with \<open>add32\<close>, \<open>sub32\<close>, \<open>add64\<close>, \<open>sub64\<close> where it counts; these
  write the wrap-around out. Memory is a function from addresses to bytes in the heap, the
  library and the packet functions; the storage layers work on arrays, which are lists of bytes.
  A null pointer is the address 0 or \<open>None\<close>. Error codes are integers as in the code. A function
  that may not return, because it waits for a lock its caller holds or follows a damaged list,
  has an option as its result, and \<open>None\<close> says that it does not return; that it does return is
  then a part of what is proved.

  \<^bold>\<open>The theories.\<close>

  \<^item> \<open>Prelude\<close>, \<open>Machine\<close>, \<open>Best\<close>, \<open>Memory\<close>: the shared vocabulary; the locale
    \<open>invariant_machine\<close> of step relations with an invariant; the best element of a scan;
    byte-addressed memory with the locale \<open>field_codec\<close> of a field in a buffer.

  \<^item> \<open>Sync\<close>, \<open>Sync_Protocols\<close> (\<open>core/sync.c\<close>): every lock as functions on its record, and the spin
    lock, ticket lock, reader/writer lock and semaphore as step relations in which any number of
    processors interleave at their atomic accesses. Shown: mutual exclusion, that a ticket is
    always served, that a writer is alone, that permits are never exceeded. The memory is
    sequentially consistent. The ticket counter wraps at 32 bits; the ticket and reader/writer
    theorems are for fewer than \<open>2^32\<close> processors.

  \<^item> \<open>Pmm\<close> (\<open>memory/pmm.c\<close>): the bitmap with checked accesses. Allocation is first fit, freeing
    undoes it, the counters agree with the bitmap, initialisation frees exactly the memory behind
    the kernel. The locale \<open>page_allocator\<close> is what the DMA layer uses of it.

  \<^item> \<open>Heap\<close>, \<open>Heap_Spec\<close>, \<open>Heap_Props\<close> (\<open>memory/heap.c\<close>): the doubly linked list of blocks in
    memory, refined to the list of its blocks. \<open>kmalloc\<close> is first fit on that list, \<open>kfree\<close> merges
    neighbours and undoes \<open>kmalloc\<close>, contents survive \<open>krealloc\<close>, and the statistics account for
    every byte.

  \<^item> \<open>Util_Arith\<close>, \<open>Util_Arith_Props\<close>, \<open>Util_Mem\<close>, \<open>Util_String\<close>, \<open>Util_String_Props\<close>, \<open>Util_Text\<close>
    (\<open>core/util.c\<close>): checked arithmetic is exact, the field accessors are codecs built from one
    another (\<open>paired_codec\<close>), strings are handled as lists of characters, and numbers survive
    being printed and parsed.

  \<^item> \<open>Dma\<close> (\<open>device/dma.c\<close>): a buffer is aligned, inside its pages and below the address limit;
    scatter lists cover their block exactly.

  \<^item> \<open>Task\<close>, \<open>Task_Props\<close> (\<open>task/task.c\<close>): the table of tasks and every call that changes it. In
    every reachable state the counters equal the numbers of tasks in each state; the next task has
    the highest priority, in round robin among equals.

  \<^item> \<open>Crc32\<close>, \<open>Sector\<close>, \<open>Block\<close>, \<open>Block_Props\<close>, \<open>Block_Test\<close> (\<open>core/crc32.c\<close>, \<open>storage/block.c\<close>): the
    checksum with the locale \<open>checksum\<close> of what its users need, the registry of devices, bounds of
    requests, and that the probe accepts exactly the disks with a valid GUID partition table. A
    driver is a pair of functions on an unknown hardware state; its laws \<open>reads_sectors\<close> and
    \<open>writes_sectors\<close> are hypotheses, which a disk in memory satisfies.

  \<^item> \<open>Mvhfs\<close>, \<open>Mvhfs_Disk\<close>, \<open>Mvhfs_Props\<close>, \<open>Mvhfs_Create\<close> (\<open>fs/mvhfs.c\<close>): the file system against the
    sectors of the disk. Writing and creating are atomic for every pattern of driver failures: a
    mount afterwards finds the old or the new state. A read returns the contents, and a formatted
    device is empty.

  \<^item> \<open>Ramfs\<close>, \<open>Ramfs_Props\<close>, \<open>Ramfs_Ops\<close>, \<open>Ramfs_Spec\<close> (\<open>fs/ramfs.c\<close>, \<open>fs/vfs.c\<close>): the tree of nodes.
    It stays a tree unless the current directory is removed, created nodes are found under their
    paths, files hold what was written, and the printed path of the current directory leads back
    to it.

  \<^item> \<open>Net\<close>, \<open>Net_Props\<close>, \<open>Net_Tables\<close> (\<open>net/net.c\<close>): packets in memory and the two tables. A built
    IPv4 packet is parsed back, no single wrong header byte is accepted, routing is by longest
    prefix, and the cache of hardware addresses is a finite map with expiry times.

  \<^item> \<open>Klog\<close> (\<open>core/log.c\<close>): the ring buffer is a queue of the newest 16384 characters.

  \<^item> \<open>Entropy\<close> (\<open>core/random.c\<close>): the generator is a stream independent of the sizes of requests,
    and its mixing rounds are injective.

  \<^item> \<open>Devices\<close> (\<open>device/device.c\<close>, \<open>device/input.c\<close>): the list of devices keeps what was registered.

  \<^bold>\<open>Bounds.\<close> No loop is cut off by fuel. Loops that count are recursive functions with a
  termination proof; the walks over the heap, the search for pages and the scans of strings are
  partial functions, shown to return on every well-formed state. The 64 steps of \<open>pwd_chain\<close> are
  the code's own bound, and enough because the nodes on a path are distinct.

  \<^bold>\<open>What the model showed.\<close> Several theorems describe behaviour that is hardly intended: a heap
  request of 4 GiB gets a block of 16 bytes, a count that wraps passes the check of
  \<open>pmm_free_pages\<close>, a task that sleeps while no other is ready corrupts the counters, a payload
  size near \<open>2^32\<close> passes the checks of the packet builders, the current directory can be removed,
  and \<open>mvh_fibonacci_u64\<close> rejects an argument whose result fits.

  \<^bold>\<open>Not modelled.\<close> Page tables (\<open>memory/vmm.c\<close>) and with them the mapping step of \<open>heap_init\<close>: their
  meaning is fixed by the processor. The module loader (\<open>core/module.c\<close>): it runs loaded machine
  code. Interrupts, descriptor tables, processor start (\<open>arch\<close>), processor features, clocks,
  consoles, the PCI bus (\<open>drivers\<close>), the disk drivers (\<open>storage/ata.c\<close>, \<open>storage/virtio_blk.c\<close>),
  firmware tables (\<open>firmware\<close>), boot information and the panic screen: accesses to ports, registers
  and memory of the machine. The shell (\<open>kernel.c\<close>) and the desktop (\<open>ui/desktop.c\<close>): text and
  pictures around calls of the modelled parts. The assembly files. Of the scheduler,
  \<open>task_self_test\<close> is left out, because it runs a task; of the DMA layer the functions that are
  only memory barriers. Concurrency is modelled for the locks; the functions that use them are
  modelled as one processor runs them.
\<close>

end
